(* ===== verification/Prelude.thy ===== *)
theory Prelude
  imports Main "HOL-Library.Word" "HOL-Library.Multiset"
begin

text \<open>
  What every component shares: the machine integer types, faults as values
  (an array access out of range, a null pointer, a division by zero are results
  of a C statement here, not undefined HOL terms), fallible sequencing,
  bounds-checked arrays, little-endian byte strings and the exclusive-or of a
  list of checksums.
\<close>

unbundle bit_operations_syntax

subsection \<open>Machine integers\<close>

type_synonym u8 = "8 word"
type_synonym u16 = "16 word"
type_synonym u32 = "32 word"
type_synonym u64 = "64 word"

lemma unat_u8_less [simp]: "unat (x::u8) < 256"
  using unsigned_less [of x] by simp

lemma ucast_down_up [simp]: "(ucast (ucast (a::u16) :: u64) :: u16) = a"
  by (rule bit_word_eqI) (simp add: bit_ucast_iff)

subsection \<open>Faults\<close>

text \<open>
  The C code runs on a bare microcontroller: an access outside an array is not
  trapped. A model function that would perform one returns \<open>Inl\<close> of a fault
  instead of a state, so \<open>Inr\<close> in a theorem says that the run is defined.
\<close>

datatype fault =
    Out_of_bounds
  | Null_pointer
  | Div_by_zero
  | Uninitialised

type_synonym 'a res = "fault + 'a"

fun rbind :: "'e + 'a \<Rightarrow> ('a \<Rightarrow> 'e + 'b) \<Rightarrow> 'e + 'b" where
  "rbind (Inl e) f = Inl e"
| "rbind (Inr x) f = f x"

lemma rbind_Inr_iff: "rbind m f = Inr y \<longleftrightarrow> (\<exists>x. m = Inr x \<and> f x = Inr y)"
  by (cases m) auto

lemma rbind_Inl_iff: "rbind m f = Inl e \<longleftrightarrow> m = Inl e \<or> (\<exists>x. m = Inr x \<and> f x = Inl e)"
  by (cases m) auto

lemma rbind_InrE [elim]:
  assumes "rbind m f = Inr y"
  obtains x where "m = Inr x" and "f x = Inr y"
  using assms by (auto simp: rbind_Inr_iff)

lemma rbind_assoc: "rbind (rbind m f) g = rbind m (\<lambda>x. rbind (f x) g)"
  by (cases m) auto

lemma rbind_cong [fundef_cong]:
  assumes "m = m'" and "\<And>x. m' = Inr x \<Longrightarrow> f x = f' x"
  shows "rbind m f = rbind m' f'"
  using assms by (cases m') auto

subsection \<open>C arrays: a list whose accesses are checked\<close>

definition arr_get :: "'a list \<Rightarrow> nat \<Rightarrow> 'a res" where
  "arr_get xs i = (if i < length xs then Inr (xs ! i) else Inl Out_of_bounds)"

definition arr_set :: "'a list \<Rightarrow> nat \<Rightarrow> 'a \<Rightarrow> 'a list res" where
  "arr_set xs i v = (if i < length xs then Inr (xs[i := v]) else Inl Out_of_bounds)"

lemma arr_get_ok [simp]: "i < length xs \<Longrightarrow> arr_get xs i = Inr (xs ! i)"
  by (simp add: arr_get_def)

lemma arr_set_ok [simp]: "i < length xs \<Longrightarrow> arr_set xs i v = Inr (xs[i := v])"
  by (simp add: arr_set_def)

lemma arr_get_fault [simp]: "length xs \<le> i \<Longrightarrow> arr_get xs i = Inl Out_of_bounds"
  by (simp add: arr_get_def)

lemma arr_set_fault [simp]: "length xs \<le> i \<Longrightarrow> arr_set xs i v = Inl Out_of_bounds"
  by (simp add: arr_set_def)

lemma arr_set_Inr_iff:
  "arr_set xs i v = Inr ys \<longleftrightarrow> i < length xs \<and> ys = xs[i := v]"
  by (auto simp: arr_set_def)

lemma arr_get_Inr_iff: "arr_get xs i = Inr x \<longleftrightarrow> i < length xs \<and> x = xs ! i"
  by (auto simp: arr_get_def)

lemma take_list_update_Suc:
  "n < length xs \<Longrightarrow> take (Suc n) (xs[n := v]) = take n xs @ [v]"
  by (simp add: take_Suc_conv_app_nth)

subsection \<open>Little-endian byte strings\<close>

text \<open>
  The nodes are ARM Cortex-M3, little-endian; a packed struct is sent as it lies
  in memory.
\<close>

definition le_bytes :: "nat \<Rightarrow> 'a::len word \<Rightarrow> u8 list" where
  "le_bytes n w = map (\<lambda>i. ucast (drop_bit (8 * i) w)) [0..<n]"

fun le_word :: "u8 list \<Rightarrow> 'a::len word" where
  "le_word [] = 0"
| "le_word (b # bs) = ucast b OR push_bit 8 (le_word bs)"

lemma length_le_bytes [simp]: "length (le_bytes n w) = n"
  by (simp add: le_bytes_def)

lemma bit_le_word:
  "bit (le_word bs :: 'a::len word) k \<longleftrightarrow>
     k < LENGTH('a) \<and> k div 8 < length bs \<and> bit (bs ! (k div 8)) (k mod 8)"
proof (induction bs arbitrary: k)
  case Nil
  then show ?case by simp
next
  case (Cons b bs)
  show ?case
  proof (cases "k < 8")
    case True
    then show ?thesis
      by (auto simp: bit_or_iff bit_push_bit_iff bit_ucast_iff dest: bit_imp_le_length)
  next
    case False
    then obtain j where k: "k = j + 8"
      by (metis add.commute le_add_diff_inverse not_less)
    have "\<not> bit b (j + 8)"
      by (auto dest: bit_imp_le_length)
    moreover have "(j + 8) div 8 = Suc (j div 8)" by simp
    ultimately show ?thesis
      using Cons.IH [of j] by (auto simp: k bit_or_iff bit_push_bit_iff bit_ucast_iff)
  qed
qed

lemma le_word_le_bytes [simp]:
  fixes w :: "'a::len word"
  assumes "LENGTH('a) = 8 * n"
  shows "le_word (le_bytes n w) = w"
proof (rule bit_word_eqI)
  fix k assume "k < LENGTH('a)"
  with assms have "k div 8 < n" and "8 * (k div 8) + k mod 8 = k" by auto
  with \<open>k < LENGTH('a)\<close> show "bit (le_word (le_bytes n w) :: 'a word) k = bit w k"
    by (simp add: bit_le_word le_bytes_def bit_ucast_iff bit_drop_bit_eq)
qed

lemma le_bytes_le_word:
  assumes "length bs = n" and "8 * n \<le> LENGTH('a::len)"
  shows "le_bytes n (le_word bs :: 'a word) = bs"
proof (rule nth_equalityI)
  show "length (le_bytes n (le_word bs :: 'a word)) = length bs"
    using assms by simp
next
  fix i assume "i < length (le_bytes n (le_word bs :: 'a word))"
  then have i: "i < n" by simp
  show "le_bytes n (le_word bs :: 'a word) ! i = bs ! i"
  proof (rule bit_word_eqI)
    fix k assume "k < LENGTH(8)"
    with i assms show "bit (le_bytes n (le_word bs :: 'a word) ! i) k = bit (bs ! i) k"
      by (auto simp: le_bytes_def bit_ucast_iff bit_drop_bit_eq bit_le_word)
  qed
qed

subsection \<open>Overwriting a part of a byte string\<close>

definition splice :: "nat \<Rightarrow> 'a list \<Rightarrow> 'a list \<Rightarrow> 'a list" where
  "splice off vs bs = take off bs @ vs @ drop (off + length vs) bs"

definition slice :: "nat \<Rightarrow> nat \<Rightarrow> 'a list \<Rightarrow> 'a list" where
  "slice off n bs = take n (drop off bs)"

lemma length_splice [simp]:
  "off + length vs \<le> length bs \<Longrightarrow> length (splice off vs bs) = length bs"
  by (simp add: splice_def)

lemma length_slice [simp]: "off + n \<le> length bs \<Longrightarrow> length (slice off n bs) = n"
  by (simp add: slice_def)

lemma slice_splice_same:
  "off + length vs \<le> length bs \<Longrightarrow> n = length vs \<Longrightarrow> slice off n (splice off vs bs) = vs"
  by (simp add: splice_def slice_def)

lemma nth_splice:
  assumes "off + length vs \<le> length bs" and "i < length bs"
  shows "splice off vs bs ! i =
    (if off \<le> i \<and> i < off + length vs then vs ! (i - off) else bs ! i)"
  using assms by (auto simp: splice_def nth_append)

lemma nth_slice: "off + n \<le> length bs \<Longrightarrow> i < n \<Longrightarrow> slice off n bs ! i = bs ! (off + i)"
  by (simp add: slice_def)

lemma slice_splice_disjoint:
  assumes "off + length vs \<le> length bs" and "off' + n \<le> length bs"
    and "off' + n \<le> off \<or> off + length vs \<le> off'"
  shows "slice off' n (splice off vs bs) = slice off' n bs"
  using assms by (intro nth_equalityI) (auto simp: nth_slice nth_splice)

lemma splice_slice: "off + n \<le> length bs \<Longrightarrow> splice off (slice off n bs) bs = bs"
  by (intro nth_equalityI) (auto simp: nth_splice nth_slice)

lemma splice_splice_same:
  "off + length vs \<le> length bs \<Longrightarrow> length ws = length vs \<Longrightarrow>
     splice off vs (splice off ws bs) = splice off vs bs"
  by (intro nth_equalityI) (auto simp: nth_splice)

lemma splice_Nil [simp]: "splice off [] bs = bs"
  by (simp add: splice_def)

lemma splice_update:
  assumes "off < length bs"
  shows "splice (off + 1) vs (bs[off := v]) = splice off (v # vs) bs"
  using assms by (simp add: splice_def take_Suc_conv_app_nth)

subsection \<open>The exclusive-or of a list of checksums\<close>

definition xor_list :: "'a::len word list \<Rightarrow> 'a word" where
  "xor_list xs = foldr (XOR) xs 0"

lemma xor_list_Nil [simp]: "xor_list [] = 0"
  and xor_list_Cons [simp]: "xor_list (x # xs) = x XOR xor_list xs"
  by (simp_all add: xor_list_def)

lemma xor_list_append [simp]: "xor_list (xs @ ys) = xor_list xs XOR xor_list ys"
  by (induction xs) (simp_all add: xor.assoc)

lemma xor_list_concat: "xor_list (concat xss) = xor_list (map xor_list xss)"
  by (induction xss) simp_all

lemma xor_list_remove1: "x \<in> set xs \<Longrightarrow> xor_list xs = x XOR xor_list (remove1 x xs)"
  by (induction xs) (auto simp: xor.left_commute)

text \<open>The order in which checksums arrive does not matter.\<close>

lemma xor_list_mset: "mset xs = mset ys \<Longrightarrow> xor_list xs = xor_list ys"
proof (induction xs arbitrary: ys)
  case Nil
  then show ?case by simp
next
  case (Cons x xs)
  have "x \<in># mset ys"
    using Cons.prems by (metis list.set_intros(1) set_mset_mset)
  then have x: "x \<in> set ys" by simp
  have "mset xs = mset (remove1 x ys)"
    using Cons.prems by (metis add_mset_remove_trivial mset.simps(2) mset_remove1)
  then have "xor_list xs = xor_list (remove1 x ys)" by (rule Cons.IH)
  then show ?case using xor_list_remove1 [OF x] by simp
qed

lemma foldl_xor_list: "foldl (XOR) acc xs = acc XOR xor_list xs"
  by (induction xs arbitrary: acc) (simp_all add: xor.assoc)

text \<open>Two equal checksums cancel.\<close>

lemma xor_self_left [simp]: "(x::'a::len word) XOR (x XOR y) = y"
  by (simp flip: xor.assoc)

subsection \<open>Machines and simulations\<close>

text \<open>A machine that handles a list of events, stopping at the first fault.\<close>

fun run :: "('e \<Rightarrow> 's \<Rightarrow> 'x + 's) \<Rightarrow> 'e list \<Rightarrow> 's \<Rightarrow> 'x + 's" where
  "run step [] s = Inr s"
| "run step (e # es) s = rbind (step e s) (run step es)"

lemma run_append: "run step (xs @ ys) s = rbind (run step xs s) (run step ys)"
proof (induction xs arbitrary: s)
  case (Cons e es)
  then show ?case by (cases "step e s") simp_all
qed simp

text \<open>
  One machine simulates another under an abstraction, for the events and in the
  states that are in scope: one step of either is one step of the other.
\<close>

locale simulation =
  fixes concrete :: "'e \<Rightarrow> 's \<Rightarrow> 'x + 's" and abstract :: "'e \<Rightarrow> 't \<Rightarrow> 'x + 't"
    and abs :: "'t \<Rightarrow> 's" and event_ok :: "'e \<Rightarrow> bool" and state_ok :: "'t \<Rightarrow> bool"
  assumes simulates: "event_ok e \<Longrightarrow> state_ok t \<Longrightarrow> concrete e (abs t) = map_sum id abs (abstract e t)"
    and stays_ok: "event_ok e \<Longrightarrow> state_ok t \<Longrightarrow> abstract e t = Inr t' \<Longrightarrow> state_ok t'"
begin

lemma simulates_run:
  assumes "list_all event_ok es" and "state_ok t"
  shows "run concrete es (abs t) = map_sum id abs (run abstract es t)"
  using assms
proof (induction es arbitrary: t)
  case (Cons e es)
  then show ?case
    by (cases "abstract e t") (auto simp: simulates intro: stays_ok)
qed simp

lemma run_stays_ok:
  assumes "list_all event_ok es" and "state_ok t" and "run abstract es t = Inr t'"
  shows "state_ok t'"
  using assms
proof (induction es arbitrary: t)
  case (Cons e es)
  then obtain u where "abstract e t = Inr u" and "run abstract es u = Inr t'" by auto
  with Cons show ?case by (auto intro: stays_ok)
qed simp

end

text \<open>
  The states a machine can reach from its initial states with the events that
  are possible in them, and an invariant of it.
\<close>

inductive reachable :: "('s \<Rightarrow> bool) \<Rightarrow> ('e \<Rightarrow> 's \<Rightarrow> bool) \<Rightarrow> ('e \<Rightarrow> 's \<Rightarrow> 'x + 's) \<Rightarrow> 's \<Rightarrow> bool"
  for init possible step where
  start: "init s \<Longrightarrow> reachable init possible step s"
| step: "reachable init possible step s \<Longrightarrow> possible e s \<Longrightarrow> step e s = Inr s' \<Longrightarrow>
    reachable init possible step s'"

locale machine_invariant =
  fixes init :: "'s \<Rightarrow> bool" and possible :: "'e \<Rightarrow> 's \<Rightarrow> bool" and step :: "'e \<Rightarrow> 's \<Rightarrow> 'x + 's"
    and inv :: "'s \<Rightarrow> bool"
  assumes starts: "init s \<Longrightarrow> inv s"
    and preserved: "inv s \<Longrightarrow> possible e s \<Longrightarrow> step e s = Inr s' \<Longrightarrow> inv s'"
begin

lemma holds: "reachable init possible step s \<Longrightarrow> inv s"
  by (induction rule: reachable.induct) (auto intro: starts preserved)

end

end
