(* ===== verification/Packets.thy ===== *)
theory Packets
  imports Prelude
begin

text \<open>
  The constants and packed structs of \<open>utility-functions.h\<close>: request types,
  \<open>struct request_packet\<close>, \<open>struct sec_rnd_resp\<close> and \<open>struct response_pkt\<close>.
  The last one holds a union of \<open>struct att_packet\<close> and
  \<open>struct topology_info\<close>; the union is kept as the bytes its members share,
  so that writing one member is visible through the other as it is in C. The
  fields of the union are interpretations of the locale \<open>packed_field\<close>, pairs
  of fields that do not overlap of \<open>disjoint_fields\<close>.
\<close>

subsection \<open>Constants\<close>

text \<open>
  The defaults of \<open>utility-functions.h\<close>, which hold because no file includes
  \<open>conf.h\<close> with its other values.
\<close>

definition MAX_PATH_NODES :: nat where "MAX_PATH_NODES = 10"
definition NUM_NODES :: int where "NUM_NODES = 20"
definition MAX_CHILD :: nat where "MAX_CHILD = 10"
definition STOP_PARENT_SWITCH :: nat where "STOP_PARENT_SWITCH = 60 * 10"
definition FRAME_LENGTH :: nat where "FRAME_LENGTH = 100"

definition TOPOLOGY :: u8 where "TOPOLOGY = 30"
definition ATTESTATION :: u8 where "ATTESTATION = 40"
definition SECOND_ROUND :: u8 where "SECOND_ROUND = 50"
definition SECOND_TIME_START :: u8 where "SECOND_TIME_START = 60"
definition SECOND_TIME_STOP :: u8 where "SECOND_TIME_STOP = 70"
definition SECOND_TIME_DONE :: u8 where "SECOND_TIME_DONE = 45"

lemmas size_defs = MAX_PATH_NODES_def MAX_CHILD_def
lemmas type_defs = TOPOLOGY_def ATTESTATION_def SECOND_ROUND_def
  SECOND_TIME_START_def SECOND_TIME_STOP_def SECOND_TIME_DONE_def

lemma topology_not_attestation [simp]: "TOPOLOGY \<noteq> ATTESTATION" "ATTESTATION \<noteq> TOPOLOGY"
  by (simp_all add: type_defs)

text \<open>The switches of \<open>utility-functions.h\<close> that select code at compile time.\<close>

record build =
  broadcast_to_parents_on :: bool
  attestation_time_test :: bool
  binary_tree :: bool

definition shipped_build :: build where
  "shipped_build =
     \<lparr>broadcast_to_parents_on = True, attestation_time_test = True, binary_tree = False\<rparr>"

lemma shipped_build_simps [simp]:
  "broadcast_to_parents_on shipped_build" "attestation_time_test shipped_build"
  "\<not> binary_tree shipped_build"
  by (simp_all add: shipped_build_def)

subsection \<open>Structs\<close>

record request_packet =
  req_pkt_type :: u8
  seed :: u32

record sec_rnd_resp =
  sr_max_index :: u8
  sr_checksum :: u64

record response_pkt =
  pkt_type :: u8
  pkt :: "u8 list"  \<comment> \<open>the union: \<open>UNION_SIZE\<close> bytes\<close>

definition UNION_SIZE :: nat where
  "UNION_SIZE = 1 + 2 * MAX_PATH_NODES + 2 + 8"

definition wf_response :: "response_pkt \<Rightarrow> bool" where
  "wf_response r \<longleftrightarrow> length (pkt r) = UNION_SIZE"

text \<open>The bytes a node sends, and the cast of a received buffer to a struct.\<close>

definition request_bytes :: "request_packet \<Rightarrow> u8 list" where
  "request_bytes r = req_pkt_type r # le_bytes 4 (seed r)"

definition request_of_bytes :: "u8 list \<Rightarrow> request_packet" where
  "request_of_bytes bs = \<lparr>req_pkt_type = bs ! 0, seed = le_word (slice 1 4 bs)\<rparr>"

definition sec_rnd_bytes :: "sec_rnd_resp \<Rightarrow> u8 list" where
  "sec_rnd_bytes r = sr_max_index r # le_bytes 8 (sr_checksum r)"

definition sec_rnd_of_bytes :: "u8 list \<Rightarrow> sec_rnd_resp" where
  "sec_rnd_of_bytes bs = \<lparr>sr_max_index = bs ! 0, sr_checksum = le_word (slice 1 8 bs)\<rparr>"

definition response_bytes :: "response_pkt \<Rightarrow> u8 list" where
  "response_bytes r = pkt_type r # pkt r"

definition response_of_bytes :: "u8 list \<Rightarrow> response_pkt" where
  "response_of_bytes bs = \<lparr>pkt_type = bs ! 0, pkt = slice 1 UNION_SIZE bs\<rparr>"

definition zero_response :: response_pkt where
  "zero_response = \<lparr>pkt_type = 0, pkt = replicate UNION_SIZE 0\<rparr>"

lemma slice_Cons_1: "length bs = n \<Longrightarrow> slice (Suc 0) n (b # bs) = bs"
  by (simp add: slice_def)

lemma request_of_bytes_bytes [simp]: "request_of_bytes (request_bytes r) = r"
  by (simp add: request_of_bytes_def request_bytes_def slice_Cons_1)

lemma sec_rnd_of_bytes_bytes [simp]: "sec_rnd_of_bytes (sec_rnd_bytes r) = r"
  by (simp add: sec_rnd_of_bytes_def sec_rnd_bytes_def slice_Cons_1)

lemma response_of_bytes_bytes [simp]:
  "wf_response r \<Longrightarrow> response_of_bytes (response_bytes r) = r"
  by (simp add: response_of_bytes_def response_bytes_def wf_response_def slice_Cons_1)

lemma wf_zero_response [simp]: "wf_response zero_response"
  by (simp add: wf_response_def zero_response_def)

lemma wf_response_of_bytes [simp]:
  "UNION_SIZE < length bs \<Longrightarrow> wf_response (response_of_bytes bs)"
  by (simp add: response_of_bytes_def wf_response_def)

subsection \<open>Fields of the union\<close>

definition get_fld :: "nat \<Rightarrow> nat \<Rightarrow> response_pkt \<Rightarrow> 'a::len word" where
  "get_fld off n r = le_word (slice off n (pkt r))"

definition set_fld :: "nat \<Rightarrow> nat \<Rightarrow> 'a::len word \<Rightarrow> response_pkt \<Rightarrow> response_pkt" where
  "set_fld off n v r = r\<lparr>pkt := splice off (le_bytes n v) (pkt r)\<rparr>"

text \<open>\<open>struct att_packet\<close>: the checksum at offset 0.\<close>

definition att_checksum :: "response_pkt \<Rightarrow> u64" where
  "att_checksum = get_fld 0 8"
definition set_att_checksum :: "u64 \<Rightarrow> response_pkt \<Rightarrow> response_pkt" where
  "set_att_checksum = set_fld 0 8"

text \<open>\<open>struct topology_info\<close>: \<open>pathindex\<close>, \<open>path\<close>, \<open>max_leaf_rank\<close>, \<open>checksum\<close>.\<close>

definition topo_pathindex :: "response_pkt \<Rightarrow> u8" where
  "topo_pathindex = get_fld 0 1"
definition set_topo_pathindex :: "u8 \<Rightarrow> response_pkt \<Rightarrow> response_pkt" where
  "set_topo_pathindex = set_fld 0 1"

definition path_at :: "nat \<Rightarrow> response_pkt \<Rightarrow> u16" where
  "path_at i = get_fld (1 + 2 * i) 2"
definition set_path_at :: "nat \<Rightarrow> u16 \<Rightarrow> response_pkt \<Rightarrow> response_pkt" where
  "set_path_at i = set_fld (1 + 2 * i) 2"

definition topo_path :: "response_pkt \<Rightarrow> nat \<Rightarrow> u16 res" where
  "topo_path r i = (if i < MAX_PATH_NODES then Inr (path_at i r) else Inl Out_of_bounds)"
definition set_topo_path :: "nat \<Rightarrow> u16 \<Rightarrow> response_pkt \<Rightarrow> response_pkt res" where
  "set_topo_path i v r =
     (if i < MAX_PATH_NODES then Inr (set_path_at i v r) else Inl Out_of_bounds)"

definition topo_max_leaf_rank :: "response_pkt \<Rightarrow> u16" where
  "topo_max_leaf_rank = get_fld (1 + 2 * MAX_PATH_NODES) 2"
definition set_topo_max_leaf_rank :: "u16 \<Rightarrow> response_pkt \<Rightarrow> response_pkt" where
  "set_topo_max_leaf_rank = set_fld (1 + 2 * MAX_PATH_NODES) 2"

definition topo_checksum :: "response_pkt \<Rightarrow> u64" where
  "topo_checksum = get_fld (3 + 2 * MAX_PATH_NODES) 8"
definition set_topo_checksum :: "u64 \<Rightarrow> response_pkt \<Rightarrow> response_pkt" where
  "set_topo_checksum = set_fld (3 + 2 * MAX_PATH_NODES) 8"

lemmas fld_defs = att_checksum_def set_att_checksum_def
  topo_pathindex_def set_topo_pathindex_def path_at_def set_path_at_def
  topo_max_leaf_rank_def set_topo_max_leaf_rank_def topo_checksum_def set_topo_checksum_def

subsection \<open>The interface of a field\<close>

locale packed_field =
  fixes wf :: "'r \<Rightarrow> bool"
    and get :: "'r \<Rightarrow> 'v"
    and put :: "'v \<Rightarrow> 'r \<Rightarrow> 'r"
  assumes get_put: "wf r \<Longrightarrow> get (put v r) = v"
    and wf_put: "wf r \<Longrightarrow> wf (put v r)"
    and put_get: "wf r \<Longrightarrow> put (get r) r = r"
    and put_put: "wf r \<Longrightarrow> put v (put w r) = put v r"
begin

lemma put_inject: "wf r \<Longrightarrow> put v r = put w r \<longleftrightarrow> v = w"
  by (metis get_put)

lemma put_idem_iff: "wf r \<Longrightarrow> put v r = r \<longleftrightarrow> get r = v"
  by (metis get_put put_get)

end

locale disjoint_fields =
  a: packed_field wf get_a put_a + b: packed_field wf get_b put_b
  for wf :: "'r \<Rightarrow> bool" and get_a :: "'r \<Rightarrow> 'v" and put_a :: "'v \<Rightarrow> 'r \<Rightarrow> 'r"
    and get_b :: "'r \<Rightarrow> 'w" and put_b :: "'w \<Rightarrow> 'r \<Rightarrow> 'r" +
  assumes get_a_put_b: "wf r \<Longrightarrow> get_a (put_b v r) = get_a r"
    and get_b_put_a: "wf r \<Longrightarrow> get_b (put_a w r) = get_b r"
begin

text \<open>Writing the one field and then the other leaves both values readable.\<close>

lemma both_readable:
  "wf r \<Longrightarrow> get_a (put_b v (put_a w r)) = w \<and> get_b (put_b v (put_a w r)) = v"
  by (simp add: a.get_put a.wf_put b.get_put get_a_put_b)

end

lemma get_set_fld:
  "wf_response r \<Longrightarrow> off + n \<le> UNION_SIZE \<Longrightarrow> LENGTH('a::len) = 8 * n \<Longrightarrow>
     get_fld off n (set_fld off n v r) = (v :: 'a word)"
  by (simp add: get_fld_def set_fld_def slice_splice_same wf_response_def)

lemma wf_set_fld [simp]:
  "wf_response r \<Longrightarrow> off + n \<le> UNION_SIZE \<Longrightarrow> wf_response (set_fld off n v r)"
  by (simp add: set_fld_def wf_response_def)

lemma pkt_type_set_fld [simp]: "pkt_type (set_fld off n v r) = pkt_type r"
  by (simp add: set_fld_def)

lemma get_fld_disjoint:
  "wf_response r \<Longrightarrow> off + n \<le> UNION_SIZE \<Longrightarrow> off' + n' \<le> UNION_SIZE \<Longrightarrow>
     off' + n' \<le> off \<or> off + n \<le> off' \<Longrightarrow>
     get_fld off' n' (set_fld off n v r) = get_fld off' n' r"
  by (simp add: get_fld_def set_fld_def slice_splice_disjoint wf_response_def)

lemma packed_field_fld:
  assumes "off + n \<le> UNION_SIZE" and "LENGTH('a::len) = 8 * n"
  shows "packed_field wf_response (get_fld off n :: _ \<Rightarrow> 'a word) (set_fld off n)"
proof
  fix r :: response_pkt and v w :: "'a word"
  assume wf: "wf_response r"
  then have len: "length (pkt r) = UNION_SIZE" by (simp add: wf_response_def)
  show "get_fld off n (set_fld off n v r) = v"
    using wf assms by (rule get_set_fld)
  show "wf_response (set_fld off n v r)"
    using wf assms by simp
  show "set_fld off n (get_fld off n r :: 'a word) r = r"
    using len assms by (simp add: set_fld_def get_fld_def le_bytes_le_word splice_slice)
  show "set_fld off n v (set_fld off n w r) = set_fld off n v r"
    using len assms by (simp add: set_fld_def splice_splice_same)
qed

interpretation att: packed_field wf_response att_checksum set_att_checksum
  unfolding fld_defs by (rule packed_field_fld) (simp_all add: UNION_SIZE_def size_defs)

interpretation topo_ck: packed_field wf_response topo_checksum set_topo_checksum
  unfolding fld_defs by (rule packed_field_fld) (simp_all add: UNION_SIZE_def size_defs)

interpretation idx_rank: disjoint_fields wf_response
  topo_pathindex set_topo_pathindex topo_max_leaf_rank set_topo_max_leaf_rank
  unfolding fld_defs
  by (intro disjoint_fields.intro packed_field_fld disjoint_fields_axioms.intro)
     (simp_all add: UNION_SIZE_def size_defs get_fld_disjoint)

interpretation rank_ck: disjoint_fields wf_response
  topo_max_leaf_rank set_topo_max_leaf_rank topo_checksum set_topo_checksum
  unfolding fld_defs
  by (intro disjoint_fields.intro packed_field_fld disjoint_fields_axioms.intro)
     (simp_all add: UNION_SIZE_def size_defs get_fld_disjoint)

interpretation idx_ck: disjoint_fields wf_response
  topo_pathindex set_topo_pathindex topo_checksum set_topo_checksum
  unfolding fld_defs
  by (intro disjoint_fields.intro packed_field_fld disjoint_fields_axioms.intro)
     (simp_all add: UNION_SIZE_def size_defs get_fld_disjoint)

subsection \<open>Reading back what was written\<close>

lemma wf_set_topology [simp]:
  assumes "wf_response r"
  shows "wf_response (set_att_checksum c r)" "wf_response (set_topo_pathindex p r)"
    "wf_response (set_topo_max_leaf_rank m r)" "wf_response (set_topo_checksum c r)"
    "i < MAX_PATH_NODES \<Longrightarrow> wf_response (set_path_at i v r)"
  using assms by (simp_all add: fld_defs UNION_SIZE_def size_defs)

lemma wf_response_pkt_type [simp]: "wf_response (r\<lparr>pkt_type := t\<rparr>) = wf_response r"
  by (simp add: wf_response_def)

lemma pkt_type_set_topology [simp]:
  "pkt_type (set_att_checksum c r) = pkt_type r" "pkt_type (set_topo_pathindex p r) = pkt_type r"
  "pkt_type (set_topo_max_leaf_rank m r) = pkt_type r"
  "pkt_type (set_topo_checksum c r) = pkt_type r" "pkt_type (set_path_at i v r) = pkt_type r"
  by (simp_all add: fld_defs)

lemma get_fld_pkt_type [simp]: "get_fld off n (r\<lparr>pkt_type := t\<rparr>) = get_fld off n r"
  by (simp add: get_fld_def)

lemma fields_pkt_type [simp]:
  "att_checksum (r\<lparr>pkt_type := t\<rparr>) = att_checksum r"
  "topo_pathindex (r\<lparr>pkt_type := t\<rparr>) = topo_pathindex r"
  "topo_max_leaf_rank (r\<lparr>pkt_type := t\<rparr>) = topo_max_leaf_rank r"
  "topo_checksum (r\<lparr>pkt_type := t\<rparr>) = topo_checksum r"
  "path_at i (r\<lparr>pkt_type := t\<rparr>) = path_at i r"
  by (simp_all add: fld_defs)

lemma fields_set_path_at [simp]:
  assumes "wf_response r" and "i < MAX_PATH_NODES"
  shows "topo_pathindex (set_path_at i v r) = topo_pathindex r"
    "topo_max_leaf_rank (set_path_at i v r) = topo_max_leaf_rank r"
    "topo_checksum (set_path_at i v r) = topo_checksum r"
  using assms by (simp_all add: fld_defs UNION_SIZE_def size_defs get_fld_disjoint)

lemma path_at_set_path_at [simp]:
  assumes "wf_response r" and "i < MAX_PATH_NODES" and "j < MAX_PATH_NODES"
  shows "path_at j (set_path_at i v r) = (if j = i then v else path_at j r)"
  using assms
  by (auto simp: fld_defs UNION_SIZE_def size_defs get_set_fld intro!: get_fld_disjoint)

lemma path_at_set_other [simp]:
  assumes "wf_response r" and "i < MAX_PATH_NODES"
  shows "path_at i (set_topo_pathindex p r) = path_at i r"
    "path_at i (set_topo_max_leaf_rank m r) = path_at i r"
    "path_at i (set_topo_checksum c r) = path_at i r"
  using assms by (simp_all add: fld_defs UNION_SIZE_def size_defs get_fld_disjoint)

lemmas [simp] = att.get_put topo_ck.get_put idx_rank.a.get_put idx_rank.b.get_put
  idx_rank.get_a_put_b idx_rank.get_b_put_a rank_ck.get_a_put_b rank_ck.get_b_put_a
  idx_ck.get_a_put_b idx_ck.get_b_put_a

text \<open>The first \<open>n\<close> entries of the path.\<close>

definition path_prefix :: "nat \<Rightarrow> response_pkt \<Rightarrow> u16 list" where
  "path_prefix n r = map (\<lambda>i. path_at i r) [0..<n]"

lemma length_path_prefix [simp]: "length (path_prefix n r) = n"
  by (simp add: path_prefix_def)

lemma path_prefix_Suc: "path_prefix (Suc n) r = path_prefix n r @ [path_at n r]"
  by (simp add: path_prefix_def)

lemma path_prefix_cong:
  "(\<And>i. i < n \<Longrightarrow> path_at i r = path_at i r') \<Longrightarrow> path_prefix n r = path_prefix n r'"
  by (simp add: path_prefix_def)

subsection \<open>Properties\<close>



text \<open>
  The members of the union of a response share their bytes: writing the
  checksum of an attestation response writes its low byte where a topology
  response has the length of its path and the next two bytes where it has the
  first id, and leaves the rest of the path, the rank and the other checksum.
\<close>

lemma union_members_overlap:
  assumes "wf_response r"
  shows "topo_pathindex (set_att_checksum c r) = ucast c \<and>
    path_at 0 (set_att_checksum c r) = ucast (drop_bit 8 c) \<and>
    topo_max_leaf_rank (set_att_checksum c r) = topo_max_leaf_rank r \<and>
    topo_checksum (set_att_checksum c r) = topo_checksum r"
proof -
  have len: "length (pkt r) = 31" using assms by (simp add: wf_response_def UNION_SIZE_def size_defs)
  then have "pkt (set_att_checksum c r) = le_bytes 8 c @ drop 8 (pkt r)"
    by (simp add: set_att_checksum_def set_fld_def splice_def)
  moreover have "le_bytes 8 c = map (\<lambda>i. ucast (drop_bit (8 * i) c)) [0, 1, 2, 3, 4, 5, 6, 7]"
    by (simp add: le_bytes_def upt_rec)
  ultimately have "topo_pathindex (set_att_checksum c r) = ucast (ucast c :: u8)"
    and "path_at 0 (set_att_checksum c r) =
      ucast (ucast (drop_bit 8 c) :: u8) OR push_bit 8 (ucast (ucast (drop_bit 16 c) :: u8))"
    by (simp_all add: topo_pathindex_def path_at_def get_fld_def slice_def)
  moreover have "ucast (ucast (drop_bit 8 c) :: u8) OR push_bit 8 (ucast (ucast (drop_bit 16 c) :: u8))
      = (ucast (drop_bit 8 c) :: u16)"
    by (rule bit_word_eqI) (auto simp: bit_or_iff bit_push_bit_iff bit_ucast_iff bit_drop_bit_eq)
  ultimately show ?thesis
    using assms by (simp add: fld_defs UNION_SIZE_def size_defs get_fld_disjoint)
qed

lemma union_members_overlap_witness:
  "topo_pathindex (set_att_checksum 0x1205 zero_response) = 5"
  using union_members_overlap [OF wf_zero_response, where c = "0x1205"] by simp

end
