(* ===== verification/Platform.thy ===== *)
theory Platform
  imports Packets
begin

text \<open>
  \<open>utility-functions.c\<close>: node identities, the checksum of the own memory, the
  rank, and sending a response to the parents. What the functions read from
  Contiki (the uid of the board, the RPL instance, the neighbour table, the
  random generator, the clock rate, whether \<open>udp_new\<close> finds a free connection,
  the contents of uninitialised stack variables) is the record \<open>env\<close>, an
  argument of the definitions. What they ask Contiki to do is a list of
  \<open>effect\<close>s, in order. Log output and the static counter of
  \<open>send_to_parents\<close>, which nothing reads, are not modelled.
\<close>

subsection \<open>The environment\<close>

type_synonym ipaddr = "u8 list"  \<comment> \<open>\<open>uip_ipaddr_t\<close>, 16 bytes\<close>

record rpl_parent =
  p_rank :: u16
  p_addr :: ipaddr

record env =
  iotlab_uid :: u16
  dag_rank :: u16  \<comment> \<open>\<open>rpl_get_default_instance()->current_dag->rank\<close>\<close>
  rpl_parents :: "rpl_parent list"  \<comment> \<open>in the order of \<open>nbr_table_next\<close>\<close>
  random_rand :: u16
  clock_second :: nat
  min_hoprankinc :: nat  \<comment> \<open>\<open>RPL_MIN_HOPRANKINC\<close>\<close>
  udp_new_ok :: "nat \<Rightarrow> bool"  \<comment> \<open>does \<open>udp_new\<close> succeed after \<open>n\<close> earlier calls\<close>
  mcast_add_ok :: bool  \<comment> \<open>does \<open>uip_ds6_maddr_add\<close> return an entry\<close>
  stack_response :: "nat \<Rightarrow> response_pkt"
    \<comment> \<open>contents of an uninitialised \<open>struct response_pkt\<close> local, by the number of
      effects emitted when it is declared\<close>

definition wf_env :: "env \<Rightarrow> bool" where
  "wf_env e \<longleftrightarrow> (\<forall>n. wf_response (stack_response e n)) \<and> 0 < min_hoprankinc e"

lemma wf_env_stack [simp]: "wf_env e \<Longrightarrow> wf_response (stack_response e n)"
  by (simp add: wf_env_def)

subsection \<open>Effects\<close>

datatype callback =
    Call_send_attestation_resp
  | Call_send_topology_resp
  | Call_broadcast_to_parents
  | Call_network_settled

datatype ctimer_id = Periodic_timer | P_timer | Rpl_timer

datatype effect =
    Udp_new
  | Udp_bind nat
  | Unicast_sendto ipaddr "u8 list"  \<comment> \<open>to \<open>PARENT_UDP_CHECKSUM_PORT\<close>\<close>
  | Broadcast_sendto "u8 list"  \<comment> \<open>to the link-local all-nodes group, \<open>CHECKSUM_PORT\<close>\<close>
  | Sink_sendto "u8 list"  \<comment> \<open>to \<open>router_addr\<close>, \<open>UNICAST_SECREQ_PORT\<close>\<close>
  | Mcast_sendto "u8 list"  \<comment> \<open>to the multicast group of the leaves\<close>
  | Mcast_join "u16 list"  \<comment> \<open>\<open>uip_ds6_maddr_add\<close> of the address with these groups\<close>
  | Register nat  \<comment> \<open>\<open>simple_udp_register\<close> on a port\<close>
  | Ctimer_set ctimer_id nat callback
  | Ctimer_reset ctimer_id

definition udp_new_count :: "effect list \<Rightarrow> nat" where
  "udp_new_count os = length (filter (\<lambda>f. f = Udp_new) os)"

lemma udp_new_count_append [simp]:
  "udp_new_count (xs @ ys) = udp_new_count xs + udp_new_count ys"
  by (simp add: udp_new_count_def)

lemma udp_new_count_simps [simp]:
  "udp_new_count [] = 0"
  "udp_new_count (f # fs) = (if f = Udp_new then 1 else 0) + udp_new_count fs"
  by (simp_all add: udp_new_count_def)

fun is_send :: "effect \<Rightarrow> bool" where
  "is_send (Unicast_sendto a bs) = True"
| "is_send (Broadcast_sendto bs) = True"
| "is_send (Sink_sendto bs) = True"
| "is_send (Mcast_sendto bs) = True"
| "is_send _ = False"

subsection \<open>Identities\<close>

definition get_my_id :: "env \<Rightarrow> u16" where
  "get_my_id e = iotlab_uid e"

definition get_id_from_addr :: "ipaddr \<Rightarrow> u16" where
  "get_id_from_addr uid = push_bit 8 (ucast (uid ! 14)) OR ucast (uid ! 15)"

lemma get_id_from_addr_inject:
  "get_id_from_addr a = get_id_from_addr b \<longleftrightarrow> a ! 14 = b ! 14 \<and> a ! 15 = b ! 15"
proof
  assume eq: "get_id_from_addr a = get_id_from_addr b"
  have "bit (a ! 15) k = bit (b ! 15) k \<and> bit (a ! 14) k = bit (b ! 14) k" if "k < 8" for k
  proof -
    from that have "\<not> bit (a ! 15) (k + 8)" "\<not> bit (b ! 15) (k + 8)"
      by (auto dest: bit_imp_le_length)
    moreover have "bit (get_id_from_addr a) k = bit (get_id_from_addr b) k"
      and "bit (get_id_from_addr a) (k + 8) = bit (get_id_from_addr b) (k + 8)"
      using eq by simp_all
    ultimately show ?thesis
      using that by (simp add: get_id_from_addr_def bit_or_iff bit_push_bit_iff bit_ucast_iff)
  qed
  then show "a ! 14 = b ! 14 \<and> a ! 15 = b ! 15"
    by (auto intro!: bit_word_eqI)
qed (simp add: get_id_from_addr_def)

subsection \<open>The checksum of the own memory\<close>

text \<open>
  The call of \<open>attestation\<close> is commented out in the source; the function
  returns a constant mixed with the node's id and always succeeds.
\<close>

definition attest_memory :: "env \<Rightarrow> u32 \<Rightarrow> int \<times> u64" where
  "attest_memory e nonce = (1, 0x11e108b7 XOR ucast (get_my_id e))"

definition own_checksum :: "env \<Rightarrow> u64" where
  "own_checksum e = 0x11e108b7 XOR ucast (iotlab_uid e)"

lemma attest_memory_own: "attest_memory e nonce = (1, own_checksum e)"
  by (simp add: attest_memory_def own_checksum_def get_my_id_def)

lemma own_checksum_inject: "own_checksum e = own_checksum e' \<longleftrightarrow> iotlab_uid e = iotlab_uid e'"
proof
  assume "own_checksum e = own_checksum e'"
  then have "(0x11e108b7 XOR own_checksum e) = (0x11e108b7 XOR own_checksum e')" by simp
  then have "(ucast (iotlab_uid e) :: u64) = ucast (iotlab_uid e')"
    by (simp only: own_checksum_def xor_self_left)
  then have "(ucast (ucast (iotlab_uid e) :: u64) :: u16) = ucast (ucast (iotlab_uid e') :: u64)"
    by simp
  then show "iotlab_uid e = iotlab_uid e'"
    by (simp only: ucast_down_up)
qed (simp add: own_checksum_def)

subsection \<open>Ranks and parents\<close>

definition get_rank :: "env \<Rightarrow> u16" where
  "get_rank e = dag_rank e"

definition rpl_neighbor_is_parent :: "env \<Rightarrow> rpl_parent option \<Rightarrow> u8 \<Rightarrow> bool" where
  "rpl_neighbor_is_parent e nbr is_client =
     (if is_client \<noteq> 0 then True
      else case nbr of None \<Rightarrow> False | Some n \<Rightarrow> p_rank n < get_rank e)"

definition PARENT_UDP_CHECKSUM_PORT :: nat where "PARENT_UDP_CHECKSUM_PORT = 4005"
definition MY_UDP_CHECKSUM_PORT :: nat where "MY_UDP_CHECKSUM_PORT = 4005"

text \<open>
  Every call allocates a connection; none is ever removed. \<open>udp_bind\<close> of the
  result is an effect whether or not the allocation succeeded, as in the source.
\<close>

definition get_parent_conn :: "env \<Rightarrow> effect list \<Rightarrow> bool \<times> effect list" where
  "get_parent_conn e os =
     (udp_new_ok e (udp_new_count os), os @ [Udp_new, Udp_bind MY_UDP_CHECKSUM_PORT])"

fun send_each_parent :: "env \<Rightarrow> response_pkt \<Rightarrow> u8 \<Rightarrow> rpl_parent list \<Rightarrow> effect list \<Rightarrow> effect list"
where
  "send_each_parent e packet is_client [] os = os"
| "send_each_parent e packet is_client (p # ps) os =
     send_each_parent e packet is_client ps
       (if rpl_neighbor_is_parent e (Some p) is_client
        then os @ [Unicast_sendto (p_addr p) (response_bytes packet)] else os)"

definition send_to_parents :: "env \<Rightarrow> response_pkt \<Rightarrow> u8 \<Rightarrow> effect list \<Rightarrow> effect list" where
  "send_to_parents e packet is_client os =
     (let (ok, os') = get_parent_conn e os
      in if \<not> ok then os' else send_each_parent e packet is_client (rpl_parents e) os')"

subsection \<open>What is sent to whom\<close>

definition parent_sends :: "env \<Rightarrow> u8 \<Rightarrow> response_pkt \<Rightarrow> effect list" where
  "parent_sends e is_client packet =
     map (\<lambda>p. Unicast_sendto (p_addr p) (response_bytes packet))
       (filter (\<lambda>p. is_client \<noteq> 0 \<or> p_rank p < dag_rank e) (rpl_parents e))"

lemma send_each_parent_eq:
  "send_each_parent e packet c ps os =
     os @ map (\<lambda>p. Unicast_sendto (p_addr p) (response_bytes packet))
       (filter (\<lambda>p. c \<noteq> 0 \<or> p_rank p < dag_rank e) ps)"
  by (induction ps arbitrary: os) (auto simp: rpl_neighbor_is_parent_def get_rank_def)

lemma send_to_parents_eq:
  "send_to_parents e packet c os =
     os @ [Udp_new, Udp_bind MY_UDP_CHECKSUM_PORT] @
       (if udp_new_ok e (udp_new_count os) then parent_sends e c packet else [])"
  by (simp add: send_to_parents_def get_parent_conn_def send_each_parent_eq parent_sends_def)

lemma udp_new_count_parent_sends [simp]: "udp_new_count (parent_sends e c packet) = 0"
  by (auto simp: udp_new_count_def parent_sends_def filter_empty_conv)

lemma udp_new_count_send_to_parents [simp]:
  "udp_new_count (send_to_parents e packet c os) = Suc (udp_new_count os)"
  by (simp add: send_to_parents_eq)

subsection \<open>A network to instantiate the properties\<close>

definition sample_ip :: "u8 \<Rightarrow> ipaddr" where
  "sample_ip n = replicate 15 0 @ [n]"

definition sample_env :: "u16 \<Rightarrow> u16 \<Rightarrow> rpl_parent list \<Rightarrow> env" where
  "sample_env uid rank nbrs = \<lparr>iotlab_uid = uid, dag_rank = rank, rpl_parents = nbrs,
     random_rand = 7, clock_second = 1000, min_hoprankinc = 256, udp_new_ok = (\<lambda>n. True),
     mcast_add_ok = True, stack_response = (\<lambda>n. zero_response)\<rparr>"

lemma sample_ip_id [simp]: "get_id_from_addr (sample_ip n) = ucast n"
  by (simp add: get_id_from_addr_def sample_ip_def nth_append)

lemma sample_env_simps [simp]:
  "iotlab_uid (sample_env u r n) = u" "dag_rank (sample_env u r n) = r"
  "rpl_parents (sample_env u r n) = n" "wf_env (sample_env u r n)"
  "udp_new_ok (sample_env u r n) = (\<lambda>n. True)" "clock_second (sample_env u r n) = 1000"
  "min_hoprankinc (sample_env u r n) = 256"
  by (simp_all add: sample_env_def wf_env_def)

definition send_responses :: "env \<Rightarrow> response_pkt list \<Rightarrow> effect list \<Rightarrow> effect list" where
  "send_responses e rs os = fold (\<lambda>r os. send_to_parents e r 0 os) rs os"

lemma sends_of_parents: "filter is_send (parent_sends e c r) = parent_sends e c r"
  by (auto simp: parent_sends_def intro!: filter_True)

subsection \<open>Properties\<close>

text \<open>
  The checksum of a node is a function of its id alone: no request changes
  it, two nodes have the same checksum exactly if they have the same id, and the
  id can be read off it.
\<close>

lemma attest_memory_identifies_node:
  "attest_memory e nonce = attest_memory e nonce' \<and>
    (snd (attest_memory e nonce) = snd (attest_memory e' nonce') \<longleftrightarrow> get_my_id e = get_my_id e') \<and>
    ucast (0x11e108b7 XOR snd (attest_memory e nonce)) = get_my_id e"
proof -
  have "ucast (0x11e108b7 XOR own_checksum e) = iotlab_uid e"
    unfolding own_checksum_def xor_self_left by (rule ucast_down_up)
  then show ?thesis
    by (simp add: attest_memory_own own_checksum_inject get_my_id_def)
qed

text \<open>
  Every response allocates a UDP connection and none is given back: with a
  pool of \<open>k\<close> connections the first \<open>k\<close> responses reach the parents and all
  later ones are lost.
\<close>

lemma connection_pool_exhausted:
  assumes "udp_new_ok e = (\<lambda>n. n < k)" and "udp_new_count os \<le> k"
  shows "filter is_send (send_responses e rs os) =
    filter is_send os @ concat (map (parent_sends e 0) (take (k - udp_new_count os) rs))"
  using assms(2)
proof (induction rs arbitrary: os)
  case Nil
  then show ?case by (simp add: send_responses_def)
next
  case (Cons r rs)
  have step: "send_responses e (r # rs) os = send_responses e rs (send_to_parents e r 0 os)" for os
    by (simp add: send_responses_def)
  have dry: "filter is_send (send_responses e rs os) = filter is_send os" if "k \<le> udp_new_count os" for os
    using that assms(1)
    by (induction rs arbitrary: os) (simp_all add: send_responses_def send_to_parents_eq [of e _ 0])
  show ?case
  proof (cases "udp_new_count os < k")
    case True
    then have "k - udp_new_count os = Suc (k - Suc (udp_new_count os))" by simp
    then show ?thesis
      using Cons.IH [of "send_to_parents e r 0 os"] True assms(1)
      by (simp add: step send_to_parents_eq [of e r] sends_of_parents)
  next
    case False
    then show ?thesis
      using Cons.prems dry [of "send_to_parents e r 0 os"] assms(1)
      by (simp add: step send_to_parents_eq [of e r])
  qed
qed

lemma connection_pool_exhausted_witness:
  "filter is_send (send_responses
      ((sample_env 3 512 [\<lparr>p_rank = 256, p_addr = sample_ip 9\<rparr>])\<lparr>udp_new_ok := (\<lambda>n. n < 1)\<rparr>)
      [zero_response, zero_response] []) =
    [Unicast_sendto (sample_ip 9) (response_bytes zero_response)]"
  by (subst connection_pool_exhausted [where k = 1])
    (simp_all add: udp_new_count_def parent_sends_def)

end
