(* ===== verification/Child_List.thy ===== *)
theory Child_List
  imports Platform
begin

text \<open>
  \<open>relay-node/list_utility.c\<close>: the table of the children of a relay, and
  \<open>is_leaf\<close> of \<open>utility-functions.c\<close>. The C list is the list of its nodes in
  the order of \<open>list_head\<close> and \<open>list_item_next\<close>. \<open>memb_alloc\<close> and
  \<open>list_add\<close> are Contiki's: they are the record \<open>contiki_lib\<close>, an argument of
  the two functions that fill the table.
\<close>

record child_node =
  child_id :: u16
  received_pkt :: u8

record child_table =
  child_list :: "child_node list"
  num_nodes :: nat
  memb_used :: nat  \<comment> \<open>blocks of \<open>nodememb\<close> in use\<close>

record contiki_lib =
  memb_alloc_ok :: "nat \<Rightarrow> nat \<Rightarrow> bool"  \<comment> \<open>blocks in the pool, blocks in use\<close>
  list_add :: "child_node list \<Rightarrow> child_node \<Rightarrow> child_node list"

definition MAX_CHILD_NODES :: nat where "MAX_CHILD_NODES = MAX_CHILD"

subsection \<open>Filling the table\<close>

fun fill_child_entries ::
  "contiki_lib \<Rightarrow> env \<Rightarrow> rpl_parent list \<Rightarrow> child_table \<Rightarrow> child_table res" where
  "fill_child_entries lib e [] t = Inr t"
| "fill_child_entries lib e (p # ps) t =
     (if dag_rank e < p_rank p then
        if \<not> memb_alloc_ok lib MAX_CHILD_NODES (memb_used t) then Inl Null_pointer
        else fill_child_entries lib e ps
          (t\<lparr>child_list := list_add lib (child_list t)
                \<lparr>child_id = get_id_from_addr (p_addr p), received_pkt = 0\<rparr>,
             num_nodes := num_nodes t + 1, memb_used := memb_used t + 1\<rparr>)
      else fill_child_entries lib e ps t)"

definition init_child_list :: "contiki_lib \<Rightarrow> env \<Rightarrow> child_table \<Rightarrow> child_table res" where
  "init_child_list lib e t =
     fill_child_entries lib e (rpl_parents e) (t\<lparr>num_nodes := 0, memb_used := 0, child_list := []\<rparr>)"

subsection \<open>Queries and updates\<close>

fun is_child_set_in :: "child_node list \<Rightarrow> u16 \<Rightarrow> bool" where
  "is_child_set_in [] c = False"
| "is_child_set_in (l # ls) c =
     (if child_id l = c \<and> received_pkt l \<noteq> 0 then True else is_child_set_in ls c)"

definition is_child_set :: "child_table \<Rightarrow> u16 \<Rightarrow> bool" where
  "is_child_set t = is_child_set_in (child_list t)"

definition rest_child_list :: "child_table \<Rightarrow> child_table" where
  "rest_child_list t = t\<lparr>child_list := map (\<lambda>l. l\<lparr>received_pkt := 0\<rparr>) (child_list t)\<rparr>"

fun is_all_child_set_in :: "child_node list \<Rightarrow> bool" where
  "is_all_child_set_in [] = True"
| "is_all_child_set_in (l # ls) = (if received_pkt l = 0 then False else is_all_child_set_in ls)"

definition is_all_child_set :: "child_table \<Rightarrow> bool" where
  "is_all_child_set t = is_all_child_set_in (child_list t)"

fun is_child_in :: "child_node list \<Rightarrow> u16 \<Rightarrow> bool" where
  "is_child_in [] c = False"
| "is_child_in (l # ls) c = (if child_id l = c then True else is_child_in ls c)"

definition is_child :: "child_table \<Rightarrow> u16 \<Rightarrow> bool" where
  "is_child t = is_child_in (child_list t)"

text \<open>The first entry with the id is marked; the result says whether there was one.\<close>

fun set_received_in :: "child_node list \<Rightarrow> u16 \<Rightarrow> bool \<times> child_node list" where
  "set_received_in [] c = (False, [])"
| "set_received_in (l # ls) c =
     (if child_id l = c then (True, l\<lparr>received_pkt := 1\<rparr> # ls)
      else let (r, ls') = set_received_in ls c in (r, l # ls'))"

definition child_set_pkt_received :: "child_table \<Rightarrow> u16 \<Rightarrow> bool \<times> child_table" where
  "child_set_pkt_received t c =
     (let (r, ls) = set_received_in (child_list t) c in (r, t\<lparr>child_list := ls\<rparr>))"

definition get_child_count :: "child_table \<Rightarrow> u8" where
  "get_child_count t = of_nat (num_nodes t)"

text \<open>
  \<open>print_child_list\<close>: the id and the mark it prints in the line of each child,
  after a heading.
\<close>

fun print_child_list_from :: "child_node list \<Rightarrow> (u16 \<times> u8) list" where
  "print_child_list_from [] = []"
| "print_child_list_from (l # ls) = (child_id l, received_pkt l) # print_child_list_from ls"

definition print_child_list :: "child_table \<Rightarrow> (u16 \<times> u8) list" where
  "print_child_list t = print_child_list_from (child_list t)"

text \<open>\<open>is_leaf\<close> of \<open>utility-functions.c\<close>.\<close>

definition is_leaf :: "child_table \<Rightarrow> bool" where
  "is_leaf t = (if get_child_count t \<noteq> 0 then False else True)"

subsection \<open>The table as a set of ids with a mark\<close>

definition child_ids :: "child_table \<Rightarrow> u16 list" where
  "child_ids t = map child_id (child_list t)"

definition marked_in :: "child_node list \<Rightarrow> u16 list" where
  "marked_in ls = map child_id (filter (\<lambda>l. received_pkt l \<noteq> 0) ls)"

definition marked :: "child_table \<Rightarrow> u16 set" where
  "marked t = set (marked_in (child_list t))"

definition wf_children :: "child_table \<Rightarrow> bool" where
  "wf_children t \<longleftrightarrow> distinct (child_ids t) \<and> num_nodes t = length (child_list t)
     \<and> length (child_list t) \<le> MAX_CHILD"

lemma marked_in_simps [simp]:
  "marked_in [] = []"
  "marked_in (l # ls) = (if received_pkt l = 0 then marked_in ls else child_id l # marked_in ls)"
  by (simp_all add: marked_in_def)

lemma set_marked_in: "set (marked_in ls) \<subseteq> child_id ` set ls"
  by (auto simp: marked_in_def)

lemma is_child_iff: "is_child t c \<longleftrightarrow> c \<in> set (child_ids t)"
proof -
  have "is_child_in ls c \<longleftrightarrow> c \<in> child_id ` set ls" for ls
    by (induction ls) auto
  then show ?thesis by (simp add: is_child_def child_ids_def)
qed

lemma is_child_set_iff: "is_child_set t c \<longleftrightarrow> c \<in> marked t"
proof -
  have "is_child_set_in ls c \<longleftrightarrow> (\<exists>l\<in>set ls. child_id l = c \<and> received_pkt l \<noteq> 0)" for ls
    by (induction ls) auto
  then show ?thesis by (auto simp: is_child_set_def marked_def marked_in_def)
qed

lemma marked_subset: "marked t \<subseteq> set (child_ids t)"
  by (auto simp: marked_def marked_in_def child_ids_def)

lemma is_all_child_set_in_iff:
  "distinct (map child_id ls) \<Longrightarrow>
     is_all_child_set_in ls \<longleftrightarrow> set (marked_in ls) = child_id ` set ls"
proof (induction ls)
  case Nil
  then show ?case by simp
next
  case (Cons l ls)
  then have notin: "child_id l \<notin> child_id ` set ls" by auto
  then have "child_id l \<notin> set (marked_in ls)" using set_marked_in by blast
  with Cons notin show ?case by (simp add: insert_ident) blast
qed

lemma is_all_child_set_iff:
  "distinct (child_ids t) \<Longrightarrow> is_all_child_set t \<longleftrightarrow> marked t = set (child_ids t)"
  by (simp add: is_all_child_set_def marked_def child_ids_def is_all_child_set_in_iff)

lemma child_ids_rest [simp]: "child_ids (rest_child_list t) = child_ids t"
  by (simp add: rest_child_list_def child_ids_def comp_def)

lemma marked_rest [simp]: "marked (rest_child_list t) = {}"
  by (auto simp: rest_child_list_def marked_def marked_in_def)

lemma num_nodes_rest [simp]: "num_nodes (rest_child_list t) = num_nodes t"
  by (simp add: rest_child_list_def)

lemma wf_children_rest [simp]: "wf_children (rest_child_list t) = wf_children t"
  by (simp add: wf_children_def) (simp add: rest_child_list_def)

lemma set_received_in_ids [simp]: "map child_id (snd (set_received_in ls c)) = map child_id ls"
  by (induction ls) (auto split: prod.splits)

lemma set_received_in_length [simp]: "length (snd (set_received_in ls c)) = length ls"
  by (metis length_map set_received_in_ids)

lemma set_received_in_result: "fst (set_received_in ls c) \<longleftrightarrow> c \<in> child_id ` set ls"
  by (induction ls) (auto split: prod.splits)

lemma set_received_in_set:
  "set (marked_in (snd (set_received_in ls c))) =
     set (marked_in ls) \<union> (if c \<in> child_id ` set ls then {c} else {})"
proof (induction ls)
  case Nil
  then show ?case by simp
next
  case (Cons l ls)
  show ?case
  proof (cases "child_id l = c")
    case True
    then show ?thesis by simp
  next
    case False
    then have "snd (set_received_in (l # ls) c) = l # snd (set_received_in ls c)"
      by (simp split: prod.split)
    then show ?thesis using Cons.IH False by (simp only: marked_in_simps) auto
  qed
qed

lemma child_ids_set [simp]: "child_ids (snd (child_set_pkt_received t c)) = child_ids t"
  by (simp add: child_set_pkt_received_def child_ids_def split: prod.split)
     (metis set_received_in_ids snd_conv)

lemma num_nodes_set [simp]: "num_nodes (snd (child_set_pkt_received t c)) = num_nodes t"
  by (simp add: child_set_pkt_received_def split: prod.split)

lemma length_child_ids: "length (child_ids t) = length (child_list t)"
  by (simp add: child_ids_def)

lemma wf_children_set [simp]:
  "wf_children (snd (child_set_pkt_received t c)) = wf_children t"
  by (simp add: wf_children_def flip: length_child_ids)

lemma marked_set:
  "marked (snd (child_set_pkt_received t c)) = marked t \<union> (if c \<in> set (child_ids t) then {c} else {})"
proof -
  have "child_list (snd (child_set_pkt_received t c)) = snd (set_received_in (child_list t) c)"
    by (simp add: child_set_pkt_received_def split: prod.split)
  then show ?thesis
    by (simp add: marked_def child_ids_def set_received_in_set)
qed

subsection \<open>The interface the relay uses\<close>

locale child_register =
  fixes inv :: "'t \<Rightarrow> bool"
    and members :: "'t \<Rightarrow> 'c list"
    and marks :: "'t \<Rightarrow> 'c set"
    and mark :: "'t \<Rightarrow> 'c \<Rightarrow> 't"
    and clear :: "'t \<Rightarrow> 't"
    and complete :: "'t \<Rightarrow> bool"
  assumes marks_members: "inv t \<Longrightarrow> marks t \<subseteq> set (members t)"
    and inv_mark: "inv t \<Longrightarrow> inv (mark t c)"
    and inv_clear: "inv t \<Longrightarrow> inv (clear t)"
    and members_mark: "members (mark t c) = members t"
    and members_clear: "members (clear t) = members t"
    and marks_mark: "marks (mark t c) = marks t \<union> (if c \<in> set (members t) then {c} else {})"
    and marks_clear: "marks (clear t) = {}"
    and complete_iff: "inv t \<Longrightarrow> complete t \<longleftrightarrow> marks t = set (members t)"
begin

lemma inv_marks: "inv t \<Longrightarrow> inv (foldl mark t cs)"
  by (induction cs arbitrary: t) (auto simp: inv_mark)

lemma members_marks: "members (foldl mark t cs) = members t"
  by (induction cs arbitrary: t) (auto simp: members_mark)

lemma marks_marks: "marks (foldl mark t cs) = marks t \<union> (set cs \<inter> set (members t))"
  by (induction cs arbitrary: t) (auto simp: marks_mark members_mark)

text \<open>
  After a clear, the register is complete exactly when every member has been
  marked, in whatever order and however often.
\<close>

lemma complete_marks_iff:
  "inv t \<Longrightarrow> complete (foldl mark (clear t) cs) \<longleftrightarrow> set (members t) \<subseteq> set cs"
  by (auto simp: complete_iff inv_marks inv_clear members_marks members_clear marks_marks
      marks_clear)

end

interpretation children: child_register
  "\<lambda>t. distinct (child_ids t)" child_ids marked
  "\<lambda>t c. snd (child_set_pkt_received t c)" rest_child_list is_all_child_set
  by unfold_locales (auto simp: marked_set is_all_child_set_iff dest: subsetD [OF marked_subset])

subsection \<open>What filling the table gives\<close>

text \<open>The documented behaviour of Contiki's memory pools and lists.\<close>

definition contiki_lib_ok :: "contiki_lib \<Rightarrow> bool" where
  "contiki_lib_ok lib \<longleftrightarrow>
     (\<forall>cap used. memb_alloc_ok lib cap used \<longleftrightarrow> used < cap) \<and>
     (\<forall>ls l. list_add lib ls l = ls @ [l])"

definition child_nbrs :: "env \<Rightarrow> rpl_parent list" where
  "child_nbrs e = filter (\<lambda>p. dag_rank e < p_rank p) (rpl_parents e)"

definition fresh_child :: "rpl_parent \<Rightarrow> child_node" where
  "fresh_child p = \<lparr>child_id = get_id_from_addr (p_addr p), received_pkt = 0\<rparr>"

lemma fill_child_entries_eq:
  assumes "contiki_lib_ok lib" and "memb_used t \<le> MAX_CHILD"
  shows "fill_child_entries lib e ps t =
    (let cs = filter (\<lambda>p. dag_rank e < p_rank p) ps
     in if memb_used t + length cs \<le> MAX_CHILD
        then Inr (t\<lparr>child_list := child_list t @ map fresh_child cs,
                    num_nodes := num_nodes t + length cs, memb_used := memb_used t + length cs\<rparr>)
        else Inl Null_pointer)"
  using assms
  by (induction ps arbitrary: t)
     (auto simp: contiki_lib_ok_def MAX_CHILD_NODES_def Let_def fresh_child_def)

lemma init_child_list_eq:
  assumes "contiki_lib_ok lib"
  shows "init_child_list lib e t =
    (if length (child_nbrs e) \<le> MAX_CHILD
     then Inr (t\<lparr>child_list := map fresh_child (child_nbrs e),
                 num_nodes := length (child_nbrs e), memb_used := length (child_nbrs e)\<rparr>)
     else Inl Null_pointer)"
  using assms by (simp add: init_child_list_def fill_child_entries_eq child_nbrs_def Let_def)

subsection \<open>Properties\<close>

definition sample_lib :: contiki_lib where
  "sample_lib = \<lparr>memb_alloc_ok = (\<lambda>cap used. used < cap), list_add = (\<lambda>ls l. ls @ [l])\<rparr>"

lemma sample_lib_ok [simp]: "contiki_lib_ok sample_lib"
  by (simp add: sample_lib_def contiki_lib_ok_def)

text \<open>
  C25: When the network has settled, the table holds exactly the neighbours of a
  higher rank, in the order of the neighbour table and none marked; with more
  than \<open>MAX_CHILD\<close> of them the allocator returns a null pointer that
  \<open>init_child_list\<close> writes through.
\<close>

theorem init_child_list_table:
  assumes "contiki_lib_ok lib"
  shows "case init_child_list lib e t of
      Inl f \<Rightarrow> f = Null_pointer \<and> MAX_CHILD < length (child_nbrs e)
    | Inr t' \<Rightarrow> length (child_nbrs e) \<le> MAX_CHILD \<and>
        child_ids t' = map (\<lambda>p. get_id_from_addr (p_addr p)) (child_nbrs e) \<and> marked t' = {} \<and>
        unat (get_child_count t') = length (child_nbrs e) \<and>
        (is_leaf t' \<longleftrightarrow> child_nbrs e = [])"
proof (cases "length (child_nbrs e) \<le> MAX_CHILD")
  case True
  let ?n = "length (child_nbrs e)"
  have n: "unat (of_nat ?n :: u8) = ?n" using True by (simp add: size_defs unat_of_nat)
  have "(of_nat ?n :: u8) = 0 \<longleftrightarrow> unat (of_nat ?n :: u8) = 0" by (simp only: unsigned_eq_0_iff)
  with n have "(of_nat ?n :: u8) = 0 \<longleftrightarrow> child_nbrs e = []" by simp
  with n show ?thesis
    using True assms
    by (simp add: init_child_list_eq child_ids_def fresh_child_def marked_def marked_in_def
        get_child_count_def is_leaf_def comp_def)
next
  case False
  with assms show ?thesis by (simp add: init_child_list_eq)
qed

lemma init_child_list_table_witness:
  "case init_child_list sample_lib
        (sample_env 3 512 [\<lparr>p_rank = 768, p_addr = sample_ip 5\<rparr>, \<lparr>p_rank = 256, p_addr = sample_ip 9\<rparr>])
        \<lparr>child_list = [], num_nodes = 0, memb_used = 0\<rparr> of
      Inl f \<Rightarrow> False
    | Inr t' \<Rightarrow> child_ids t' = [5] \<and> marked t' = {}"
  using init_child_list_table [OF sample_lib_ok, where
      e = "sample_env 3 512 [\<lparr>p_rank = 768, p_addr = sample_ip 5\<rparr>, \<lparr>p_rank = 256, p_addr = sample_ip 9\<rparr>]"
      and t = "\<lparr>child_list = [], num_nodes = 0, memb_used = 0\<rparr>"]
  by (simp add: child_nbrs_def size_defs split: sum.splits)

text \<open>
  C26: After a reset the table reports that all children have answered exactly
  when each of them has been marked, in any order, however often, and whatever
  other ids were marked in between.
\<close>

theorem all_children_answered:
  assumes "distinct (child_ids t)"
  shows "is_all_child_set
      (foldl (\<lambda>t c. snd (child_set_pkt_received t c)) (rest_child_list t) cs) \<longleftrightarrow>
    (\<forall>c. is_child t c \<longrightarrow> c \<in> set cs)"
  using children.complete_marks_iff [of t cs] assms by (auto simp: is_child_iff)

lemma all_children_answered_witness:
  "\<not> is_all_child_set (foldl (\<lambda>t c. snd (child_set_pkt_received t c))
      (rest_child_list \<lparr>child_list = [\<lparr>child_id = 1, received_pkt = 1\<rparr>, \<lparr>child_id = 2, received_pkt = 1\<rparr>],
         num_nodes = 2, memb_used = 2\<rparr>) [1, 7, 1])"
  by (subst all_children_answered) (auto simp: child_ids_def is_child_def)

end
