(* ===== verification/Relay.thy ===== *)
theory Relay
  imports Child_List "HOL-Library.Signed_Division"
begin

text \<open>
  \<open>relay-node/udp-relay.c\<close>: the relay collects the responses of its children,
  combines their checksums with its own by exclusive-or, and forwards one
  response to its parents. One definition per function of the file, in its
  order, over the record \<open>relay\<close> of its static variables; the initialisation
  and the event dispatch of the process come last. A \<open>build\<close> argument selects
  the code between \<open>#if\<close> and \<open>#endif\<close>.
\<close>

subsection \<open>State\<close>

record relay =
  checksum_children :: "u64 list"
  sec_checksum_children :: "u64 list"
  max_index :: u8
  first_round_completed :: u8
  my_checksum :: u64
  paths :: "u16 list"
  cur_loc :: nat
  paths_loc :: nat
  first_child :: bool
  max_leaf_rank :: u16
  ctimer_resp :: response_pkt
  send_pkt_count :: nat
  children :: child_table
  outs :: "effect list"

definition initial_relay :: relay where
  "initial_relay = \<lparr>
     checksum_children = replicate MAX_CHILD 0, sec_checksum_children = replicate MAX_CHILD 0,
     max_index = 0, first_round_completed = 1, my_checksum = 0,
     paths = replicate MAX_PATH_NODES 0, cur_loc = 0, paths_loc = 0, first_child = True,
     max_leaf_rank = 0, ctimer_resp = zero_response, send_pkt_count = 0,
     children = \<lparr>child_list = [], num_nodes = 0, memb_used = 0\<rparr>, outs = []\<rparr>"

definition emit :: "effect \<Rightarrow> relay \<Rightarrow> relay" where
  "emit f s = s\<lparr>outs := outs s @ [f]\<rparr>"

subsection \<open>Combining the checksums\<close>

definition reset_variable :: "relay \<Rightarrow> relay" where
  "reset_variable s = s\<lparr>
     first_round_completed := 1,
     max_index := of_nat (cur_loc s),
     sec_checksum_children := checksum_children s,
     cur_loc := 0, paths_loc := 0, first_child := True,
     paths := replicate MAX_PATH_NODES 0,
     children := rest_child_list (children s)\<rparr>"

function xor_children :: "u64 list \<Rightarrow> nat \<Rightarrow> nat \<Rightarrow> u64 \<Rightarrow> u64 res" where
  "xor_children cs n c_index acc =
     (if c_index < n
      then rbind (arr_get cs c_index) (\<lambda>c. xor_children cs n (Suc c_index) (acc XOR c))
      else Inr acc)"
  by pat_completeness auto
termination
  by (relation "measure (\<lambda>(cs, n, c_index, acc). n - c_index)") auto

declare xor_children.simps [simp del]

definition get_combined_checksum :: "env \<Rightarrow> relay \<Rightarrow> (u64 \<times> relay) res" where
  "get_combined_checksum e s =
     rbind (xor_children (checksum_children s) (cur_loc s) 0 0) (\<lambda>combined.
       let (ok, m) = attest_memory e (ucast combined);
           s' = s\<lparr>my_checksum := m\<rparr>
       in if ok \<noteq> 0 then Inr (combined XOR m, s') else Inr (0, s'))"

subsection \<open>Timeouts\<close>

text \<open>C's \<open>int\<close> division truncates towards zero, the conversion to \<open>uint8_t\<close> wraps.\<close>

definition get_attestation_timeout :: "env \<Rightarrow> relay \<Rightarrow> u8" where
  "get_attestation_timeout e s =
     word_of_int ((uint (max_leaf_rank s) sdiv int (min_hoprankinc e)
       - uint (get_rank e) sdiv int (min_hoprankinc e)) sdiv 3)"

definition get_topology_timeout :: "env \<Rightarrow> u8" where
  "get_topology_timeout e =
     word_of_int (NUM_NODES - (uint (get_rank e) sdiv int (min_hoprankinc e) - 1) sdiv 3)"

subsection \<open>Sending a response to the parents\<close>

definition broadcast_to_parents :: "relay \<Rightarrow> relay" where
  "broadcast_to_parents s = emit (Broadcast_sendto (response_bytes (ctimer_resp s))) s"

definition send_attestation_resp :: "build \<Rightarrow> env \<Rightarrow> relay \<Rightarrow> relay res" where
  "send_attestation_resp b e s =
     rbind (get_combined_checksum e s) (\<lambda>(combined, s).
       if combined \<noteq> 0 then
         let resp = set_att_checksum combined
               ((stack_response e (length (outs s)))\<lparr>pkt_type := ATTESTATION\<rparr>)
         in rbind
           (if broadcast_to_parents_on b then
              let s = s\<lparr>ctimer_resp := resp\<rparr>
              in if binary_tree b then
                   if get_my_id e mod 2 = 0 then Inr (broadcast_to_parents s)
                   else Inr (emit (Ctimer_set P_timer (90 * (clock_second e div 1000))
                          Call_broadcast_to_parents) s)
                 else
                   let m = unat (get_my_id e) + FRAME_LENGTH * 10 * (clock_second e div 1000)
                   in if m = 0 then Inl Div_by_zero
                      else Inr (emit (Ctimer_set P_timer (unat (random_rand e) mod m)
                             Call_broadcast_to_parents) s)
            else Inr (s\<lparr>outs := send_to_parents e resp 0 (outs s)\<rparr>))
           (\<lambda>s. Inr (reset_variable s))
       else Inr s)"

function copy_path :: "u16 list \<Rightarrow> nat \<Rightarrow> nat \<Rightarrow> response_pkt \<Rightarrow> response_pkt res" where
  "copy_path ps n i r =
     (if i < n
      then rbind (arr_get ps i) (\<lambda>v. rbind (set_topo_path i v r) (\<lambda>r. copy_path ps n (Suc i) r))
      else Inr r)"
  by pat_completeness auto
termination
  by (relation "measure (\<lambda>(ps, n, i, r). n - i)") auto

declare copy_path.simps [simp del]

definition send_topology_resp :: "env \<Rightarrow> relay \<Rightarrow> relay res" where
  "send_topology_resp e s =
     rbind (get_combined_checksum e s) (\<lambda>(combined, s).
       let resp = set_topo_max_leaf_rank (max_leaf_rank s) (set_topo_checksum combined
             ((stack_response e (length (outs s)))\<lparr>pkt_type := TOPOLOGY\<rparr>))
       in rbind (copy_path (paths s) (paths_loc s) 0 resp) (\<lambda>resp.
          rbind
            (if MAX_PATH_NODES - 1 \<le> paths_loc s then Inr resp
             else rbind (set_topo_path (paths_loc s) (get_my_id e) resp)
                    (\<lambda>resp. Inr (set_topo_pathindex (of_nat (paths_loc s + 1)) resp)))
            (\<lambda>resp. Inr (reset_variable (s\<lparr>outs := send_to_parents e resp 0 (outs s)\<rparr>)))))"

subsection \<open>A child's response\<close>

definition process_attestation_req ::
  "build \<Rightarrow> env \<Rightarrow> response_pkt \<Rightarrow> u16 \<Rightarrow> relay \<Rightarrow> relay res" where
  "process_attestation_req b e resp child s =
     rbind (arr_set (checksum_children s) (cur_loc s) (att_checksum resp)) (\<lambda>cs.
       let s = s\<lparr>checksum_children := cs, cur_loc := cur_loc s + 1\<rparr>
       in if \<not> is_child (children s) child then Inr s
          else if broadcast_to_parents_on b then
            if first_child s then
              Inr ((emit (Ctimer_set Periodic_timer
                     (unat (get_attestation_timeout e s) * 10 * FRAME_LENGTH
                        * (clock_second e div 1000))
                     Call_send_attestation_resp) s)\<lparr>first_child := False\<rparr>)
            else Inr s
          else
            let s = s\<lparr>children := snd (child_set_pkt_received (children s) child)\<rparr>
            in if is_all_child_set (children s) then send_attestation_resp b e s else Inr s)"

function is_present_from :: "u16 list \<Rightarrow> nat \<Rightarrow> u16 \<Rightarrow> nat \<Rightarrow> bool res" where
  "is_present_from ps n recv_id i =
     (if i < n
      then rbind (arr_get ps i)
             (\<lambda>p. if p = recv_id then Inr True else is_present_from ps n recv_id (Suc i))
      else Inr False)"
  by pat_completeness auto
termination
  by (relation "measure (\<lambda>(ps, n, recv_id, i). n - i)") auto

declare is_present_from.simps [simp del]

definition is_present_paths :: "relay \<Rightarrow> u16 \<Rightarrow> bool res" where
  "is_present_paths s recv_id = is_present_from (paths s) (paths_loc s) recv_id 0"

text \<open>
  The loop over the path of the received packet, \<open>j\<close> in the list of indexes
  that are left; \<open>i\<close> is the next free place of \<open>paths\<close>.
\<close>

fun merge_paths :: "env \<Rightarrow> response_pkt \<Rightarrow> nat list \<Rightarrow> nat \<Rightarrow> relay \<Rightarrow> (nat \<times> relay) res" where
  "merge_paths e resp [] i s = Inr (i, s)"
| "merge_paths e resp (j # js) i s =
     rbind (topo_path resp j) (\<lambda>v.
     rbind (is_present_paths s v) (\<lambda>present.
       if present then merge_paths e resp js i s
       else rbind (arr_set (paths s) i v) (\<lambda>ps.
         let s = s\<lparr>paths := ps\<rparr>; i = i + 1
         in if MAX_PATH_NODES - 2 \<le> i then
              rbind (send_topology_resp e (s\<lparr>paths_loc := i\<rparr>)) (\<lambda>s.
                merge_paths e resp js 0 (reset_variable s))
            else merge_paths e resp js i s)))"

definition process_topology_req :: "env \<Rightarrow> response_pkt \<Rightarrow> u16 \<Rightarrow> relay \<Rightarrow> relay res" where
  "process_topology_req e resp child s =
     (if \<not> is_child (children s) child then Inr s
      else
        let s = emit (Ctimer_reset Periodic_timer) s;
            s = s\<lparr>children := snd (child_set_pkt_received (children s) child)\<rparr>
        in rbind (arr_set (checksum_children s) (cur_loc s) (topo_checksum resp)) (\<lambda>cs.
           let s = s\<lparr>checksum_children := cs, cur_loc := cur_loc s + 1\<rparr>
           in rbind (merge_paths e resp [0..<unat (topo_pathindex resp)] (paths_loc s) s)
                (\<lambda>(i, s).
                  let s = s\<lparr>paths_loc := i\<rparr>;
                      s = (if max_leaf_rank s < topo_max_leaf_rank resp
                           then s\<lparr>max_leaf_rank := topo_max_leaf_rank resp\<rparr> else s)
                  in if cur_loc s = unat (get_child_count (children s))
                     then send_topology_resp e s
                     else Inr (emit (Ctimer_set Periodic_timer
                            (unat (get_topology_timeout e) * clock_second e)
                            Call_send_topology_resp) s))))"

subsection \<open>Input\<close>

definition checksum_receiver ::
  "build \<Rightarrow> env \<Rightarrow> ipaddr \<Rightarrow> u8 list \<Rightarrow> relay \<Rightarrow> relay res" where
  "checksum_receiver b e sender data s =
     (let resp = response_of_bytes data
      in if pkt_type resp = TOPOLOGY
         then process_topology_req e resp (get_id_from_addr sender) s
         else if pkt_type resp = ATTESTATION
         then process_attestation_req b e resp (get_id_from_addr sender) s
         else Inr s)"

definition tcpip_handler ::
  "build \<Rightarrow> env \<Rightarrow> bool \<Rightarrow> ipaddr \<Rightarrow> u8 list \<Rightarrow> relay \<Rightarrow> relay res" where
  "tcpip_handler b e newdata src data s =
     (if newdata then
        let resp = response_of_bytes data
        in if pkt_type resp = TOPOLOGY then
             process_topology_req e resp (get_id_from_addr src)
               (s\<lparr>send_pkt_count := send_pkt_count s + 1\<rparr>)
           else if pkt_type resp = ATTESTATION then
             process_attestation_req b e resp (get_id_from_addr src)
               (s\<lparr>send_pkt_count := send_pkt_count s + 1\<rparr>)
           else Inr s
      else Inr s)"

text \<open>A relay without children answers the multicast request itself.\<close>

definition create_response ::
  "env \<Rightarrow> request_packet \<Rightarrow> response_pkt \<Rightarrow> bool \<times> response_pkt" where
  "create_response e mpkt resp =
     (let (ok, checksum) = attest_memory e (seed mpkt)
      in if ok \<noteq> 0 then
           (True,
            if req_pkt_type mpkt = TOPOLOGY then
              set_topo_max_leaf_rank (get_rank e) (set_topo_checksum checksum
                (set_topo_pathindex 1 (set_path_at 0 (get_my_id e)
                  (resp\<lparr>pkt_type := TOPOLOGY\<rparr>))))
            else if req_pkt_type mpkt = ATTESTATION then
              set_att_checksum checksum (resp\<lparr>pkt_type := ATTESTATION\<rparr>)
            else resp)
         else (False, resp))"

definition unicast_send_to_sink :: "relay \<Rightarrow> relay" where
  "unicast_send_to_sink s =
     emit (Sink_sendto (sec_rnd_bytes
       \<lparr>sr_max_index = max_index s, sr_checksum = my_checksum s\<rparr>)) s"

definition udp_secreq_callback :: "u8 list \<Rightarrow> relay \<Rightarrow> relay" where
  "udp_secreq_callback data s =
     (if req_pkt_type (request_of_bytes data) = SECOND_ROUND then
        if first_round_completed s \<noteq> 0 then unicast_send_to_sink s else s
      else s)"

definition mcast_tcpip_handler :: "build \<Rightarrow> env \<Rightarrow> bool \<Rightarrow> u8 list \<Rightarrow> relay \<Rightarrow> relay" where
  "mcast_tcpip_handler b e newdata data s =
     (if newdata then
        let mpkt = request_of_bytes data;
            (ok, resp) = create_response e mpkt zero_response
        in if ok then
             if attestation_time_test b then
               if req_pkt_type mpkt = TOPOLOGY
               then s\<lparr>outs := send_to_parents e resp 1 (outs s)\<rparr>
               else if req_pkt_type mpkt = ATTESTATION
               then broadcast_to_parents (s\<lparr>ctimer_resp := resp\<rparr>)
               else s
             else s\<lparr>outs := send_to_parents e resp 0 (outs s)\<rparr>
           else s
      else s)"

subsection \<open>The process\<close>

definition MCAST_SINK_UDP_PORT :: nat where "MCAST_SINK_UDP_PORT = 5001"
definition UNICAST_SECREQ_PORT :: nat where "UNICAST_SECREQ_PORT = 12345"
definition CHECKSUM_PORT :: nat where "CHECKSUM_PORT = 4010"

definition join_mcast_group :: "env \<Rightarrow> relay \<Rightarrow> bool \<times> relay" where
  "join_mcast_group e s =
     (mcast_add_ok e, emit (Mcast_join [0xFF1E, 0, 0, 0, 0, 0, 0x89, 0xABCA]) s)"

definition network_settled :: "contiki_lib \<Rightarrow> env \<Rightarrow> relay \<Rightarrow> relay res" where
  "network_settled lib e s =
     rbind (init_child_list lib e (children s)) (\<lambda>t.
       let s = s\<lparr>children := t\<rparr>
       in if is_leaf (children s) then
            let (rv, s) = join_mcast_group e s
            in if \<not> rv then Inr s
               else Inr (emit (Udp_bind MCAST_SINK_UDP_PORT) (emit Udp_new s))
          else Inr s)"

definition create_broadcast_conn :: "relay \<Rightarrow> relay" where
  "create_broadcast_conn s = emit (Register CHECKSUM_PORT) s"

definition start_relay :: "build \<Rightarrow> env \<Rightarrow> relay \<Rightarrow> relay" where
  "start_relay b e s =
     (let s = (if broadcast_to_parents_on b then create_broadcast_conn s
               else emit (Udp_bind PARENT_UDP_CHECKSUM_PORT) (emit Udp_new s));
          s = (if attestation_time_test b
               then emit (Udp_bind PARENT_UDP_CHECKSUM_PORT) (emit Udp_new s) else s);
          s = emit (Register UNICAST_SECREQ_PORT) s
      in emit (Ctimer_set Rpl_timer (STOP_PARENT_SWITCH * clock_second e)
           Call_network_settled) s)"

declare create_broadcast_conn_def [simp]

fun run_callback :: "build \<Rightarrow> contiki_lib \<Rightarrow> env \<Rightarrow> callback \<Rightarrow> relay \<Rightarrow> relay res" where
  "run_callback b lib e Call_send_attestation_resp s = send_attestation_resp b e s"
| "run_callback b lib e Call_send_topology_resp s = send_topology_resp e s"
| "run_callback b lib e Call_broadcast_to_parents s = Inr (broadcast_to_parents s)"
| "run_callback b lib e Call_network_settled s = network_settled lib e s"

datatype relay_event =
    Checksum_rx ipaddr "u8 list"  \<comment> \<open>a datagram on \<open>broadcast_conn\<close>\<close>
  | Tcpip_event bool ipaddr "u8 list"  \<comment> \<open>\<open>tcpip_event\<close> posted to the process\<close>
  | Secreq_rx "u8 list"  \<comment> \<open>a datagram on \<open>secreq_conn\<close>\<close>
  | Timer_expired callback

fun relay_step :: "build \<Rightarrow> contiki_lib \<Rightarrow> env \<Rightarrow> relay_event \<Rightarrow> relay \<Rightarrow> relay res" where
  "relay_step b lib e (Checksum_rx sender data) s = checksum_receiver b e sender data s"
| "relay_step b lib e (Tcpip_event newdata src data) s =
     (if is_leaf (children s) then Inr (mcast_tcpip_handler b e newdata data s)
      else tcpip_handler b e newdata src data s)"
| "relay_step b lib e (Secreq_rx data) s = Inr (udp_secreq_callback data s)"
| "relay_step b lib e (Timer_expired cb) s = run_callback b lib e cb s"

end
