(* ===== verification/Relay_Facts.thy ===== *)
theory Relay_Facts
  imports Relay
begin

text \<open>
  The functional behaviour of the relay's operations: closed forms of its
  loops, the packet that \<open>send_topology_resp\<close> builds, the exact conditions
  under which an operation leaves the arrays of the program, and the invariant
  of the static variables in every reachable state.
\<close>

subsection \<open>Loops\<close>

lemma xor_children_eq:
  assumes "n \<le> length cs" and "i \<le> n"
  shows "xor_children cs n i acc = Inr (acc XOR xor_list (take (n - i) (drop i cs)))"
  using assms
proof (induction cs n i acc rule: xor_children.induct)
  case (1 cs n i acc)
  show ?case
  proof (cases "i < n")
    case True
    with 1 have "take (n - i) (drop i cs) = cs ! i # take (n - Suc i) (drop (Suc i) cs)"
      by (metis Cons_nth_drop_Suc Suc_diff_Suc order.strict_trans2 take_Suc_Cons)
    with 1 True show ?thesis
      by (subst xor_children.simps) (simp add: xor.assoc)
  next
    case False
    with 1 show ?thesis by (subst xor_children.simps) simp
  qed
qed

lemma xor_children_fault:
  assumes "length cs < n" and "i \<le> length cs"
  shows "xor_children cs n i acc = Inl Out_of_bounds"
  using assms
proof (induction cs n i acc rule: xor_children.induct)
  case (1 cs n i acc)
  then show ?case
    by (cases "i < length cs") (subst xor_children.simps, simp)+
qed

lemma is_present_from_eq:
  assumes "n \<le> length ps" and "i \<le> n"
  shows "is_present_from ps n v i = Inr (v \<in> set (take (n - i) (drop i ps)))"
  using assms
proof (induction ps n v i rule: is_present_from.induct)
  case (1 ps n v i)
  show ?case
  proof (cases "i < n")
    case True
    with 1 have "take (n - i) (drop i ps) = ps ! i # take (n - Suc i) (drop (Suc i) ps)"
      by (metis Cons_nth_drop_Suc Suc_diff_Suc order.strict_trans2 take_Suc_Cons)
    with 1 True show ?thesis
      by (subst is_present_from.simps) auto
  next
    case False
    with 1 show ?thesis by (subst is_present_from.simps) simp
  qed
qed

lemma copy_path_ok:
  assumes "n \<le> length ps" and "n \<le> MAX_PATH_NODES" and "i \<le> n" and "wf_response r"
  obtains r' where "copy_path ps n i r = Inr r'" and "wf_response r'"
    and "pkt_type r' = pkt_type r" and "topo_checksum r' = topo_checksum r"
    and "topo_max_leaf_rank r' = topo_max_leaf_rank r"
    and "\<And>k. k < MAX_PATH_NODES \<Longrightarrow>
           path_at k r' = (if i \<le> k \<and> k < n then ps ! k else path_at k r)"
  using assms
proof (induction ps n i r arbitrary: thesis rule: copy_path.induct)
  case (1 ps n i r)
  show ?case
  proof (cases "i < n")
    case True
    with "1.prems" have i: "i < MAX_PATH_NODES" "i < length ps" by auto
    define r1 where "r1 = set_path_at i (ps ! i) r"
    have r1: "wf_response r1" "set_topo_path i (ps ! i) r = Inr r1" "Suc i \<le> n"
      using i True "1.prems" by (simp_all add: r1_def set_topo_path_def)
    obtain r' where r': "copy_path ps n (Suc i) r1 = Inr r'" "wf_response r'"
      "pkt_type r' = pkt_type r1" "topo_checksum r' = topo_checksum r1"
      "topo_max_leaf_rank r' = topo_max_leaf_rank r1"
      "\<And>k. k < MAX_PATH_NODES \<Longrightarrow>
           path_at k r' = (if Suc i \<le> k \<and> k < n then ps ! k else path_at k r1)"
      using "1.IH" [OF True, of "ps ! i" r1] "1.prems" i r1 by auto
    have "copy_path ps n i r = Inr r'"
      using True i r1 r' by (subst copy_path.simps) simp
    then show ?thesis
      using "1.prems"(2-5) True i r' by (intro "1.prems"(1) [of r']) (auto simp: r1_def)
  next
    case False
    with "1.prems"(2-5) show ?thesis
      by (intro "1.prems"(1) [of r]) (subst copy_path.simps, auto)
  qed
qed

subsection \<open>The static variables between two operations\<close>

definition relay_arrays :: "relay \<Rightarrow> bool" where
  "relay_arrays s \<longleftrightarrow>
     length (checksum_children s) = MAX_CHILD \<and> length (sec_checksum_children s) = MAX_CHILD \<and>
     length (paths s) = MAX_PATH_NODES \<and> cur_loc s \<le> MAX_CHILD \<and> wf_response (ctimer_resp s)"

definition relay_inv :: "relay \<Rightarrow> bool" where
  "relay_inv s \<longleftrightarrow> relay_arrays s \<and> paths_loc s < MAX_PATH_NODES - 2"

text \<open>The checksums received and the ids collected since the last reset.\<close>

definition received :: "relay \<Rightarrow> u64 list" where
  "received s = take (cur_loc s) (checksum_children s)"

definition collected :: "relay \<Rightarrow> u16 list" where
  "collected s = take (paths_loc s) (paths s)"

lemma relay_inv_initial [simp]: "relay_inv initial_relay"
  by (simp add: relay_inv_def relay_arrays_def initial_relay_def size_defs)

lemma emit_simps [simp]:
  "outs (emit f s) = outs s @ [f]" "children (emit f s) = children s"
  "checksum_children (emit f s) = checksum_children s" "cur_loc (emit f s) = cur_loc s"
  "paths (emit f s) = paths s" "paths_loc (emit f s) = paths_loc s"
  "max_leaf_rank (emit f s) = max_leaf_rank s" "first_child (emit f s) = first_child s"
  "sec_checksum_children (emit f s) = sec_checksum_children s"
  "ctimer_resp (emit f s) = ctimer_resp s" "my_checksum (emit f s) = my_checksum s"
  "max_index (emit f s) = max_index s"
  "first_round_completed (emit f s) = first_round_completed s"
  by (simp_all add: emit_def)

lemma reset_variable_simps [simp]:
  "outs (reset_variable s) = outs s" "children (reset_variable s) = rest_child_list (children s)"
  "checksum_children (reset_variable s) = checksum_children s" "cur_loc (reset_variable s) = 0"
  "paths (reset_variable s) = replicate MAX_PATH_NODES 0" "paths_loc (reset_variable s) = 0"
  "max_leaf_rank (reset_variable s) = max_leaf_rank s" "first_child (reset_variable s)"
  "sec_checksum_children (reset_variable s) = checksum_children s"
  "ctimer_resp (reset_variable s) = ctimer_resp s" "my_checksum (reset_variable s) = my_checksum s"
  "max_index (reset_variable s) = of_nat (cur_loc s)"
  "first_round_completed (reset_variable s) = 1"
  by (simp_all add: reset_variable_def)

lemma relay_arrays_reset [simp]: "relay_arrays s \<Longrightarrow> relay_arrays (reset_variable s)"
  by (simp add: relay_arrays_def)

lemma relay_inv_reset [simp]: "relay_arrays s \<Longrightarrow> relay_inv (reset_variable s)"
  by (simp add: relay_inv_def size_defs)

lemma relay_arrays_emit [simp]: "relay_arrays (emit f s) = relay_arrays s"
  by (simp add: relay_arrays_def)

lemma relay_inv_emit [simp]: "relay_inv (emit f s) = relay_inv s"
  by (simp add: relay_inv_def)

lemma relay_arrays_lengths:
  assumes "relay_arrays s"
  shows "length (checksum_children s) = MAX_CHILD" "length (sec_checksum_children s) = MAX_CHILD"
    "length (paths s) = MAX_PATH_NODES" "cur_loc s \<le> MAX_CHILD" "wf_response (ctimer_resp s)"
  using assms by (simp_all add: relay_arrays_def)

lemma relay_arrays_updates [simp]:
  "relay_arrays (s\<lparr>outs := x\<rparr>) = relay_arrays s"
  "relay_arrays (s\<lparr>my_checksum := c\<rparr>) = relay_arrays s"
  "relay_arrays (s\<lparr>children := t\<rparr>) = relay_arrays s"
  "relay_arrays (s\<lparr>paths_loc := n\<rparr>) = relay_arrays s"
  "relay_arrays (s\<lparr>max_leaf_rank := m\<rparr>) = relay_arrays s"
  "relay_arrays (s\<lparr>first_child := b\<rparr>) = relay_arrays s"
  "relay_arrays (s\<lparr>send_pkt_count := k\<rparr>) = relay_arrays s"
  "relay_arrays s \<Longrightarrow> wf_response r \<Longrightarrow> relay_arrays (s\<lparr>ctimer_resp := r\<rparr>)"
  "relay_arrays s \<Longrightarrow> length ps = MAX_PATH_NODES \<Longrightarrow> relay_arrays (s\<lparr>paths := ps\<rparr>)"
  "relay_arrays s \<Longrightarrow> length cs = MAX_CHILD \<Longrightarrow> n \<le> MAX_CHILD \<Longrightarrow>
     relay_arrays (s\<lparr>checksum_children := cs, cur_loc := n\<rparr>)"
  by (simp_all add: relay_arrays_def)

lemma relay_inv_updates [simp]:
  "relay_inv (s\<lparr>outs := x\<rparr>) = relay_inv s"
  "relay_inv (s\<lparr>my_checksum := c\<rparr>) = relay_inv s"
  "relay_inv (s\<lparr>children := t\<rparr>) = relay_inv s"
  "relay_inv (s\<lparr>max_leaf_rank := m\<rparr>) = relay_inv s"
  "relay_inv (s\<lparr>first_child := b\<rparr>) = relay_inv s"
  "relay_inv (s\<lparr>send_pkt_count := k\<rparr>) = relay_inv s"
  "relay_inv s \<Longrightarrow> wf_response r \<Longrightarrow> relay_inv (s\<lparr>ctimer_resp := r\<rparr>)"
  "relay_inv s \<Longrightarrow> length ps = MAX_PATH_NODES \<Longrightarrow> relay_inv (s\<lparr>paths := ps\<rparr>)"
  "relay_inv s \<Longrightarrow> length cs = MAX_CHILD \<Longrightarrow> n \<le> MAX_CHILD \<Longrightarrow>
     relay_inv (s\<lparr>checksum_children := cs, cur_loc := n\<rparr>)"
  by (simp_all add: relay_inv_def)

subsection \<open>The combined checksum\<close>

lemma get_combined_checksum_eq:
  "relay_arrays s \<Longrightarrow> get_combined_checksum e s =
     Inr (xor_list (received s) XOR own_checksum e, s\<lparr>my_checksum := own_checksum e\<rparr>)"
  by (simp add: get_combined_checksum_def xor_children_eq relay_arrays_def attest_memory_own
      received_def)

subsection \<open>The packet of a topology response\<close>

text \<open>What the receiver reads from a topology response.\<close>

definition path_of :: "response_pkt \<Rightarrow> u16 list" where
  "path_of r = path_prefix (unat (topo_pathindex r)) r"

definition topology_packet :: "u64 \<Rightarrow> u16 list \<Rightarrow> u16 \<Rightarrow> response_pkt \<Rightarrow> bool" where
  "topology_packet ck path leaf_rank r \<longleftrightarrow>
     wf_response r \<and> pkt_type r = TOPOLOGY \<and> topo_checksum r = ck \<and>
     unat (topo_pathindex r) = length path \<and> path_of r = path \<and> topo_max_leaf_rank r = leaf_rank"

lemma send_topology_resp_spec:
  assumes arrays: "relay_arrays s" and loc: "paths_loc s < MAX_PATH_NODES - 1" and "wf_env e"
  obtains r where
    "send_topology_resp e s = Inr (reset_variable (s\<lparr>my_checksum := own_checksum e,
       outs := send_to_parents e r 0 (outs s)\<rparr>))"
    and "topology_packet (xor_list (received s) XOR own_checksum e)
           (collected s @ [iotlab_uid e]) (max_leaf_rank s) r"
proof -
  let ?c = "xor_list (received s) XOR own_checksum e"
  let ?n = "paths_loc s"
  define r0 where "r0 = set_topo_max_leaf_rank (max_leaf_rank s) (set_topo_checksum ?c
             ((stack_response e (length (outs s)))\<lparr>pkt_type := TOPOLOGY\<rparr>))"
  have r0: "wf_response r0" "pkt_type r0 = TOPOLOGY" "topo_checksum r0 = ?c"
    "topo_max_leaf_rank r0 = max_leaf_rank s"
    using assms by (simp_all add: r0_def)
  have n: "?n \<le> length (paths s)" "?n < MAX_PATH_NODES"
    using arrays loc by (auto simp: relay_arrays_def)
  obtain r1 where r1: "copy_path (paths s) ?n 0 r0 = Inr r1" "wf_response r1"
    "pkt_type r1 = TOPOLOGY" "topo_checksum r1 = ?c" "topo_max_leaf_rank r1 = max_leaf_rank s"
    and path1: "\<And>k. k < MAX_PATH_NODES \<Longrightarrow>
           path_at k r1 = (if k < ?n then paths s ! k else path_at k r0)"
    using copy_path_ok [of ?n "paths s" 0 r0] n r0 by auto
  define r where "r = set_topo_pathindex (of_nat (?n + 1)) (set_path_at ?n (iotlab_uid e) r1)"
  have idx: "unat (of_nat (?n + 1) :: u8) = ?n + 1"
    using n by (simp add: size_defs unat_of_nat del: of_nat_add of_nat_Suc)
  have wf: "wf_response (set_path_at ?n (iotlab_uid e) r1)"
    using n r1 by simp
  have pidx: "topo_pathindex r = of_nat (?n + 1)"
    using wf by (simp add: r_def)
  have "path_at k r = (collected s @ [iotlab_uid e]) ! k" if "k < ?n + 1" for k
    using that n r1 wf by (auto simp: r_def path1 collected_def nth_append)
  moreover have "path_of r = path_prefix (?n + 1) r"
    by (simp only: path_of_def pidx idx)
  ultimately have "path_of r = collected s @ [iotlab_uid e]"
    using n by (simp add: path_prefix_def list_eq_iff_nth_eq collected_def del: upt_Suc)
  then have "topology_packet ?c (collected s @ [iotlab_uid e]) (max_leaf_rank s) r"
    using n r1 wf pidx idx
    by (simp add: topology_packet_def r_def collected_def del: of_nat_add of_nat_Suc)
  moreover have "send_topology_resp e s = Inr (reset_variable (s\<lparr>my_checksum := own_checksum e,
       outs := send_to_parents e r 0 (outs s)\<rparr>))"
    using arrays loc n r1
    by (simp add: send_topology_resp_def get_combined_checksum_eq set_topo_path_def get_my_id_def
        flip: r0_def) (simp add: r_def)
  ultimately show ?thesis using that by blast
qed

subsection \<open>The response of a leaf\<close>

lemma create_response_fst [simp]: "fst (create_response e mpkt resp)"
  by (simp add: create_response_def attest_memory_own)

lemma wf_create_response [simp]:
  "wf_response resp \<Longrightarrow> wf_response (snd (create_response e mpkt resp))"
  by (simp add: create_response_def attest_memory_own size_defs)

lemma create_response_topology:
  assumes "req_pkt_type mpkt = TOPOLOGY" and "wf_response resp"
  shows "topology_packet (own_checksum e) [iotlab_uid e] (dag_rank e)
           (snd (create_response e mpkt resp))"
proof -
  have "0 < MAX_PATH_NODES" by (simp add: size_defs)
  with assms show ?thesis
    by (simp add: create_response_def attest_memory_own topology_packet_def path_of_def
        path_prefix_def get_rank_def get_my_id_def)
qed

subsection \<open>Merging the path of a child\<close>

lemma is_present_paths_eq:
  "relay_arrays s \<Longrightarrow> paths_loc s \<le> MAX_PATH_NODES \<Longrightarrow>
     is_present_paths s v = Inr (v \<in> set (collected s))"
  by (simp add: is_present_paths_def is_present_from_eq relay_arrays_def collected_def)

lemma send_topology_resp_arrays:
  assumes "relay_arrays s" and "paths_loc s < MAX_PATH_NODES - 1" and "wf_env e"
  obtains u where "send_topology_resp e s = Inr u" and "relay_arrays u"
  by (rule send_topology_resp_spec [OF assms], erule that) (use assms(1) in simp)

text \<open>One turn of the loop: the id is known, is stored, or fills \<open>paths\<close>, which is then sent.\<close>

lemma merge_paths_step:
  assumes "relay_inv s" and "i < MAX_PATH_NODES - 2" and "wf_env e" and "j < MAX_PATH_NODES"
  obtains (known) "path_at j resp \<in> set (collected s)"
      "merge_paths e resp (j # js) i s = merge_paths e resp js i s"
  | (store) t where "t = s\<lparr>paths := (paths s)[i := path_at j resp]\<rparr>" "relay_inv t"
      "Suc i < MAX_PATH_NODES - 2" "merge_paths e resp (j # js) i s = merge_paths e resp js (Suc i) t"
  | (flush) t u where "t = s\<lparr>paths := (paths s)[i := path_at j resp], paths_loc := Suc i\<rparr>"
      "relay_arrays t" "paths_loc t < MAX_PATH_NODES - 1" "MAX_PATH_NODES - 2 \<le> Suc i"
      "send_topology_resp e t = Inr u" "relay_arrays u" "merge_paths e resp (j # js) i s = merge_paths e resp js 0 (reset_variable u)"
proof -
  let ?v = "path_at j resp"
  let ?s = "s\<lparr>paths := (paths s)[i := ?v]\<rparr>" and ?t = "s\<lparr>paths := (paths s)[i := ?v], paths_loc := Suc i\<rparr>"
  have arr: "relay_arrays s" and loc: "paths_loc s < MAX_PATH_NODES - 2"
    using assms(1) by (simp_all add: relay_inv_def)
  have j: "topo_path resp j = Inr ?v" using assms(4) by (simp add: topo_path_def)
  have pres: "is_present_paths s ?v = Inr (?v \<in> set (collected s))"
    using arr loc by (simp add: is_present_paths_eq size_defs)
  have set: "arr_set (paths s) i ?v = Inr ((paths s)[i := ?v])"
    using arr assms(2) by (simp add: relay_arrays_def)
  have s: "relay_inv ?s" and t: "relay_arrays ?t" "paths_loc ?t < MAX_PATH_NODES - 1"
    using arr loc assms(2) relay_arrays_lengths(3) [OF arr] by (simp_all add: relay_inv_def size_defs)
  obtain u where u: "send_topology_resp e ?t = Inr u" "relay_arrays u"
    using send_topology_resp_arrays [OF t assms(3)] .
  show ?thesis
  proof (cases "?v \<in> set (collected s)")
    case True
    then show ?thesis using known j pres by simp
  next
    case False
    then show ?thesis
      using store [OF _ s] flush [OF _ t _ u] j pres set u(1)
      by (cases "Suc i < MAX_PATH_NODES - 2") (simp_all add: Let_def)
  qed
qed

text \<open>
  The loop never leaves \<open>paths\<close>: it is flushed before it is full. It faults
  exactly if the packet announces more entries than its path has, and keeps what
  storing an id and sending a response keep.
\<close>

lemma merge_paths_keeps:
  assumes "relay_inv s" and "i < MAX_PATH_NODES - 2" and "wf_env e" and "P s"
    and stored: "\<And>s i v. P s \<Longrightarrow> P (s\<lparr>paths := (paths s)[i := v]\<rparr>)"
    and flushed: "\<And>s n t u. P s \<Longrightarrow> t = s\<lparr>paths_loc := n\<rparr> \<Longrightarrow> relay_arrays t \<Longrightarrow>
      paths_loc t < MAX_PATH_NODES - 1 \<Longrightarrow> send_topology_resp e t = Inr u \<Longrightarrow> P (reset_variable u)"
  shows "case merge_paths e resp js i s of
      Inl f \<Rightarrow> f = Out_of_bounds \<and> \<not> (\<forall>j\<in>set js. j < MAX_PATH_NODES)
    | Inr (i', s') \<Rightarrow> (\<forall>j\<in>set js. j < MAX_PATH_NODES) \<and> i' < MAX_PATH_NODES - 2 \<and> relay_inv s' \<and> P s'"
  using assms(1-4)
proof (induction js arbitrary: i s)
  case (Cons j js)
  show ?case
  proof (cases "j < MAX_PATH_NODES")
    case False
    then show ?thesis by (simp add: topo_path_def)
  next
    case True
    from Cons.prems(1-3) this show ?thesis
    proof (cases rule: merge_paths_step [where resp = resp and js = js])
      case known
      then show ?thesis using Cons.IH [OF Cons.prems] True by (auto split: sum.splits)
    next
      case (store t)
      then show ?thesis
        using Cons.IH [of t "Suc i"] Cons.prems(3,4) stored True by (auto split: sum.splits)
    next
      case (flush t u)
      have "P (reset_variable u)"
        using flushed [OF stored [OF Cons.prems(4)] _ flush(2,3,5)] flush(1) by simp
      then show ?thesis
        using Cons.IH [of "reset_variable u" 0] Cons.prems(3) flush(6,7) True
        by (auto simp: size_defs split: sum.splits)
    qed
  qed
qed simp

lemma merge_paths_defined:
  assumes "relay_inv s" and "i < MAX_PATH_NODES - 2" and "wf_env e"
    and "\<forall>j\<in>set js. j < MAX_PATH_NODES"
  obtains i' s' where "merge_paths e resp js i s = Inr (i', s')"
    and "i' < MAX_PATH_NODES - 2" and "relay_inv s'"
  using merge_paths_keeps [OF assms(1-3), where P = "\<lambda>s. True" and js = js and resp = resp] assms(4)
  by (auto split: sum.splits)

lemma merge_paths_fault:
  assumes "relay_inv s" and "i < MAX_PATH_NODES - 2" and "wf_env e" and "MAX_PATH_NODES < n"
  shows "merge_paths e resp [0..<n] i s = Inl Out_of_bounds"
  using merge_paths_keeps [OF assms(1-3), where P = "\<lambda>s. True" and js = "[0..<n]" and resp = resp] assms(4)
  by (auto split: sum.splits)

end
