(* ===== verification/Relay_Safety.thy ===== *)
theory Relay_Safety
  imports Relay_Facts
begin

text \<open>
  The relay as a transition system: the invariant of its static arrays in every
  reachable state, and the exact inputs that drive it out of them. Then the
  frame properties of the second round and of the timers.
\<close>

subsection \<open>The operations keep the invariant\<close>

definition backoff_modulus :: "env \<Rightarrow> nat" where
  "backoff_modulus e = unat (iotlab_uid e) + FRAME_LENGTH * 10 * (clock_second e div 1000)"

lemma send_attestation_resp_cases:
  assumes "relay_inv s" and "wf_env e"
  shows "case send_attestation_resp b e s of
      Inl f \<Rightarrow> f = Div_by_zero \<and> broadcast_to_parents_on b \<and> \<not> binary_tree b
        \<and> backoff_modulus e = 0 \<and> xor_list (received s) \<noteq> own_checksum e
    | Inr s' \<Rightarrow> relay_inv s' \<and> \<not> (broadcast_to_parents_on b \<and> \<not> binary_tree b
        \<and> backoff_modulus e = 0 \<and> xor_list (received s) \<noteq> own_checksum e)"
proof -
  have arr: "relay_arrays s" using assms by (simp add: relay_inv_def)
  have nz: "x XOR y = 0 \<longleftrightarrow> x = y" for x y :: u64
    by (metis xor_self_left xor.right_neutral xor_self_eq)
  show ?thesis
    using assms arr
    by (auto simp: send_attestation_resp_def get_combined_checksum_eq Let_def backoff_modulus_def
        get_my_id_def broadcast_to_parents_def nz)
qed

lemma send_topology_resp_inv:
  assumes "relay_inv s" and "wf_env e"
  obtains s' where "send_topology_resp e s = Inr s'" and "relay_inv s'"
proof -
  have "relay_arrays s" and "paths_loc s < MAX_PATH_NODES - 1"
    using assms by (auto simp: relay_inv_def)
  then obtain r where "send_topology_resp e s = Inr (reset_variable (s\<lparr>my_checksum := own_checksum e,
       outs := send_to_parents e r 0 (outs s)\<rparr>))"
    using send_topology_resp_spec assms(2) by metis
  with \<open>relay_arrays s\<close> show ?thesis using that by simp
qed

definition response_fault :: "response_pkt \<Rightarrow> u16 \<Rightarrow> relay \<Rightarrow> fault option" where
  "response_fault resp child s =
     (if pkt_type resp = TOPOLOGY then
        if is_child (children s) child \<and>
          (cur_loc s = MAX_CHILD \<or> MAX_PATH_NODES < unat (topo_pathindex resp))
        then Some Out_of_bounds else None
      else if pkt_type resp = ATTESTATION then
        if cur_loc s = MAX_CHILD then Some Out_of_bounds else None
      else None)"

lemma process_topology_req_ok:
  assumes inv: "relay_inv s" and env: "wf_env e" and child: "is_child (children s) child"
    and room: "cur_loc s < MAX_CHILD" and n: "unat (topo_pathindex resp) \<le> MAX_PATH_NODES"
  obtains s' where "process_topology_req e resp child s = Inr s'" and "relay_inv s'"
proof -
  let ?s = "(emit (Ctimer_reset Periodic_timer) s)
       \<lparr>children := snd (child_set_pkt_received (children s) child),
        checksum_children := (checksum_children s)[cur_loc s := topo_checksum resp],
        cur_loc := Suc (cur_loc s)\<rparr>"
  have len: "length (checksum_children s) = MAX_CHILD" and loc: "paths_loc s < MAX_PATH_NODES - 2"
    using inv by (simp_all add: relay_inv_def relay_arrays_def)
  have "relay_inv ?s" using inv len room by simp
  then obtain i s' where m: "merge_paths e resp [0..<unat (topo_pathindex resp)] (paths_loc s) ?s = Inr (i, s')"
    and i: "i < MAX_PATH_NODES - 2" and s': "relay_inv s'"
    using merge_paths_defined [of ?s "paths_loc s" e "[0..<unat (topo_pathindex resp)]"] loc env n by auto
  define u where "u = s'\<lparr>paths_loc := i,
    max_leaf_rank := (if max_leaf_rank s' < topo_max_leaf_rank resp
      then topo_max_leaf_rank resp else max_leaf_rank s')\<rparr>"
  have u: "relay_inv u"
    using i s' by (simp add: u_def relay_inv_def)
  have "process_topology_req e resp child s =
    (if cur_loc u = unat (get_child_count (children u)) then send_topology_resp e u
     else Inr (emit (Ctimer_set Periodic_timer
            (unat (get_topology_timeout e) * clock_second e) Call_send_topology_resp) u))"
    using len child room m by (simp add: process_topology_req_def Let_def u_def)
  moreover obtain s'' where "send_topology_resp e u = Inr s''" "relay_inv s''"
    using send_topology_resp_inv u env .
  ultimately show ?thesis
    using u that [of s''] that [of "emit (Ctimer_set Periodic_timer
      (unat (get_topology_timeout e) * clock_second e) Call_send_topology_resp) u"]
    by (cases "cur_loc u = unat (get_child_count (children u))") simp_all
qed

lemma process_topology_req_fault:
  assumes "relay_inv s" and "wf_env e" and "is_child (children s) child"
    and "cur_loc s = MAX_CHILD \<or> MAX_PATH_NODES < unat (topo_pathindex resp)"
  shows "process_topology_req e resp child s = Inl Out_of_bounds"
proof (cases "cur_loc s = MAX_CHILD")
  case True
  with assms show ?thesis by (simp add: process_topology_req_def Let_def relay_inv_def relay_arrays_def)
next
  case False
  let ?s = "(emit (Ctimer_reset Periodic_timer) s)
       \<lparr>children := snd (child_set_pkt_received (children s) child),
        checksum_children := (checksum_children s)[cur_loc s := topo_checksum resp],
        cur_loc := Suc (cur_loc s)\<rparr>"
  have len: "length (checksum_children s) = MAX_CHILD" "cur_loc s < MAX_CHILD" "paths_loc s < MAX_PATH_NODES - 2"
    using assms(1) False by (simp_all add: relay_inv_def relay_arrays_def)
  then have "relay_inv ?s" using assms(1) by simp
  then have "merge_paths e resp [0..<unat (topo_pathindex resp)] (paths_loc s) ?s = Inl Out_of_bounds"
    using len(3) assms(2,4) False by (intro merge_paths_fault) simp_all
  then show ?thesis using len assms(3) by (simp add: process_topology_req_def Let_def)
qed

lemma process_topology_req_cases:
  assumes inv: "relay_inv s" and env: "wf_env e"
  shows "case process_topology_req e resp child s of
      Inl f \<Rightarrow> f = Out_of_bounds \<and> is_child (children s) child \<and>
        (cur_loc s = MAX_CHILD \<or> MAX_PATH_NODES < unat (topo_pathindex resp))
    | Inr s' \<Rightarrow> relay_inv s' \<and> \<not> (is_child (children s) child \<and>
        (cur_loc s = MAX_CHILD \<or> MAX_PATH_NODES < unat (topo_pathindex resp)))"
proof -
  consider (alien) "\<not> is_child (children s) child"
    | (fault) "is_child (children s) child" "cur_loc s = MAX_CHILD \<or> MAX_PATH_NODES < unat (topo_pathindex resp)"
    | (ok) "is_child (children s) child" "cur_loc s < MAX_CHILD" "unat (topo_pathindex resp) \<le> MAX_PATH_NODES"
    using inv by (force simp: relay_inv_def relay_arrays_def)
  then show ?thesis
  proof cases
    case alien
    then show ?thesis using inv by (simp add: process_topology_req_def)
  next
    case fault
    then show ?thesis using process_topology_req_fault [OF inv env fault] by simp
  next
    case ok
    then show ?thesis using process_topology_req_ok [OF inv env ok] by fastforce
  qed
qed

lemma process_attestation_req_cases:
  assumes "relay_inv s" and "wf_env e" and "broadcast_to_parents_on b"
  shows "case process_attestation_req b e resp child s of
      Inl f \<Rightarrow> f = Out_of_bounds \<and> cur_loc s = MAX_CHILD
    | Inr s' \<Rightarrow> relay_inv s' \<and> cur_loc s < MAX_CHILD"
proof (cases "cur_loc s < MAX_CHILD")
  case True
  with assms show ?thesis
    by (auto simp: process_attestation_req_def Let_def relay_inv_def relay_arrays_def)
next
  case False
  with assms show ?thesis
    by (auto simp: process_attestation_req_def relay_inv_def relay_arrays_def)
qed

lemma relay_inv_mcast_tcpip_handler:
  "relay_inv s \<Longrightarrow> relay_inv (mcast_tcpip_handler b e newdata data s)"
  by (simp add: mcast_tcpip_handler_def broadcast_to_parents_def Let_def case_prod_unfold)

lemma relay_inv_udp_secreq_callback:
  "relay_inv s \<Longrightarrow> relay_inv (udp_secreq_callback data s)"
  by (simp add: udp_secreq_callback_def unicast_send_to_sink_def)

subsection \<open>Exactly which steps are undefined\<close>

fun step_fault :: "env \<Rightarrow> relay_event \<Rightarrow> relay \<Rightarrow> fault option" where
  "step_fault e (Checksum_rx sender data) s =
     response_fault (response_of_bytes data) (get_id_from_addr sender) s"
| "step_fault e (Tcpip_event newdata src data) s =
     (if is_leaf (children s) \<or> \<not> newdata then None
      else response_fault (response_of_bytes data) (get_id_from_addr src) s)"
| "step_fault e (Secreq_rx data) s = None"
| "step_fault e (Timer_expired Call_send_attestation_resp) s =
     (if backoff_modulus e = 0 \<and> xor_list (received s) \<noteq> own_checksum e
      then Some Div_by_zero else None)"
| "step_fault e (Timer_expired Call_network_settled) s =
     (if MAX_CHILD < length (child_nbrs e) then Some Null_pointer else None)"
| "step_fault e (Timer_expired _) s = None"

lemma response_cases:
  assumes "relay_inv s" and "wf_env e" and "broadcast_to_parents_on b"
  shows "case (if pkt_type resp = TOPOLOGY then process_topology_req e resp c s
         else if pkt_type resp = ATTESTATION then process_attestation_req b e resp c s
         else Inr s) of
      Inl f \<Rightarrow> response_fault resp c s = Some f
    | Inr s' \<Rightarrow> relay_inv s' \<and> response_fault resp c s = None"
  using process_topology_req_cases [OF assms(1,2), where resp = resp and child = c]
    process_attestation_req_cases [OF assms, where resp = resp and child = c] assms(1)
  by (auto simp: response_fault_def split: sum.splits)

lemma tcpip_step_cases:
  assumes inv: "relay_inv s" and env: "wf_env e" and b: "broadcast_to_parents_on b"
  shows "case relay_step b lib e (Tcpip_event newdata src data) s of
      Inl f \<Rightarrow> step_fault e (Tcpip_event newdata src data) s = Some f
    | Inr s' \<Rightarrow> relay_inv s' \<and> step_fault e (Tcpip_event newdata src data) s = None"
proof (cases "is_leaf (children s) \<or> \<not> newdata")
  case True
  then show ?thesis
    using inv by (auto simp: relay_inv_mcast_tcpip_handler tcpip_handler_def)
next
  case False
  let ?s = "s\<lparr>send_pkt_count := send_pkt_count s + 1\<rparr>"
  let ?r = "response_of_bytes data" and ?c = "get_id_from_addr src"
  have "relay_inv ?s" using inv by simp
  note rc = response_cases [OF this env b, of ?r ?c]
  have fault: "response_fault ?r ?c ?s = response_fault ?r ?c s"
    by (simp add: response_fault_def)
  have step: "relay_step b lib e (Tcpip_event newdata src data) s =
      (if pkt_type ?r = TOPOLOGY then process_topology_req e ?r ?c ?s
       else if pkt_type ?r = ATTESTATION then process_attestation_req b e ?r ?c ?s else Inr s)"
    "step_fault e (Tcpip_event newdata src data) s = response_fault ?r ?c s"
    using False by (simp_all add: tcpip_handler_def Let_def)
  show ?thesis
  proof (cases "pkt_type ?r = TOPOLOGY \<or> pkt_type ?r = ATTESTATION")
    case True
    then show ?thesis using rc unfolding step fault by auto
  next
    case other: False
    then show ?thesis using inv unfolding step by (simp add: response_fault_def)
  qed
qed

lemma timer_step_cases:
  assumes inv: "relay_inv s" and env: "wf_env e" and lib: "contiki_lib_ok lib"
    and b: "broadcast_to_parents_on b" "\<not> binary_tree b"
  shows "case relay_step b lib e (Timer_expired cb) s of
      Inl f \<Rightarrow> step_fault e (Timer_expired cb) s = Some f
    | Inr s' \<Rightarrow> relay_inv s' \<and> step_fault e (Timer_expired cb) s = None"
proof (cases cb)
  case Call_send_attestation_resp
  then show ?thesis
    using send_attestation_resp_cases [OF inv env, of b] b by (auto split: sum.splits)
next
  case Call_send_topology_resp
  obtain s' where "send_topology_resp e s = Inr s'" "relay_inv s'"
    using send_topology_resp_inv inv env .
  then show ?thesis using Call_send_topology_resp by simp
next
  case Call_broadcast_to_parents
  then show ?thesis using inv by (simp add: broadcast_to_parents_def)
next
  case Call_network_settled
  then show ?thesis
    using inv lib by (auto simp: network_settled_def init_child_list_eq Let_def join_mcast_group_def
        split: prod.splits)
qed

lemma relay_step_cases:
  assumes inv: "relay_inv s" and env: "wf_env e" and lib: "contiki_lib_ok lib"
    and b: "broadcast_to_parents_on b" "\<not> binary_tree b"
  shows "case relay_step b lib e ev s of
      Inl f \<Rightarrow> step_fault e ev s = Some f
    | Inr s' \<Rightarrow> relay_inv s' \<and> step_fault e ev s = None"
proof (cases ev)
  case (Checksum_rx sender data)
  show ?thesis
    unfolding Checksum_rx relay_step.simps step_fault.simps checksum_receiver_def Let_def
    by (rule response_cases [OF inv env b(1)])
next
  case (Tcpip_event newdata src data)
  show ?thesis unfolding Tcpip_event by (rule tcpip_step_cases [OF inv env b(1)])
next
  case (Secreq_rx data)
  then show ?thesis using inv by (simp add: relay_inv_udp_secreq_callback)
next
  case (Timer_expired cb)
  show ?thesis unfolding Timer_expired by (rule timer_step_cases [OF inv env lib b])
qed

subsection \<open>Reachable states\<close>

text \<open>
  A callback can run only if a timer was set to it last. The environment (ranks,
  neighbours, random numbers, stack contents) may change from step to step.
\<close>

fun timer_callback :: "ctimer_id \<Rightarrow> effect list \<Rightarrow> callback option" where
  "timer_callback t [] = None"
| "timer_callback t (f # fs) =
     (case timer_callback t fs of
        Some cb \<Rightarrow> Some cb
      | None \<Rightarrow> (case f of Ctimer_set t' _ cb \<Rightarrow> if t' = t then Some cb else None | _ \<Rightarrow> None))"

lemma timer_callback_append:
  "timer_callback t (xs @ ys) =
     (case timer_callback t ys of Some cb \<Rightarrow> Some cb | None \<Rightarrow> timer_callback t xs)"
  by (induction xs) (auto split: option.splits)

definition enabled :: "relay_event \<Rightarrow> relay \<Rightarrow> bool" where
  "enabled ev s \<longleftrightarrow> (case ev of
      Timer_expired cb \<Rightarrow> \<exists>t \<in> {Periodic_timer, P_timer, Rpl_timer}. timer_callback t (outs s) = Some cb
    | _ \<Rightarrow> True)"

definition relay_starts :: "build \<Rightarrow> relay \<Rightarrow> bool" where
  "relay_starts b s \<longleftrightarrow> (\<exists>e. wf_env e \<and> s = start_relay b e initial_relay)"

definition relay_machine :: "build \<Rightarrow> contiki_lib \<Rightarrow> env \<times> relay_event \<Rightarrow> relay \<Rightarrow> relay res" where
  "relay_machine b lib ev = relay_step b lib (fst ev) (snd ev)"

definition relay_possible :: "env \<times> relay_event \<Rightarrow> relay \<Rightarrow> bool" where
  "relay_possible ev s \<longleftrightarrow> wf_env (fst ev) \<and> enabled (snd ev) s"

abbreviation relay_reachable :: "build \<Rightarrow> contiki_lib \<Rightarrow> relay \<Rightarrow> bool" where
  "relay_reachable b lib \<equiv> reachable (relay_starts b) relay_possible (relay_machine b lib)"

lemma relay_inv_start: "relay_inv s \<Longrightarrow> relay_inv (start_relay b e s)"
  by (simp add: start_relay_def Let_def)

text \<open>
  The invariant for every build that broadcasts with the timer, as the shipped
  one does, on a Contiki that keeps to its documentation.
\<close>

interpretation relay_states: machine_invariant "relay_starts b" relay_possible "relay_machine b lib"
    "\<lambda>s. contiki_lib_ok lib \<and> broadcast_to_parents_on b \<and> \<not> binary_tree b \<longrightarrow> relay_inv s" for b lib
proof unfold_locales
  show "contiki_lib_ok lib \<and> broadcast_to_parents_on b \<and> \<not> binary_tree b \<longrightarrow> relay_inv s"
    if "relay_starts b s" for s
    using that by (auto simp: relay_starts_def relay_inv_start)
next
  fix s s' ev
  assume "contiki_lib_ok lib \<and> broadcast_to_parents_on b \<and> \<not> binary_tree b \<longrightarrow> relay_inv s"
    and "relay_possible ev s" and "relay_machine b lib ev s = Inr s'"
  then show "contiki_lib_ok lib \<and> broadcast_to_parents_on b \<and> \<not> binary_tree b \<longrightarrow> relay_inv s'"
    using relay_step_cases [of s "fst ev" lib b "snd ev"]
    by (auto simp: relay_possible_def relay_machine_def)
qed

lemma relay_reachable_inv:
  assumes "relay_reachable shipped_build lib s" and "contiki_lib_ok lib"
  shows "relay_inv s"
  using relay_states.holds [OF assms(1)] assms(2) by simp

lemma relay_reachable_start: "wf_env e \<Longrightarrow> relay_reachable b lib (start_relay b e initial_relay)"
  by (rule reachable.start) (auto simp: relay_starts_def)

subsection \<open>Properties\<close>



text \<open>
  C16: In every reachable state of a relay the checksum arrays have ten entries
  and at most ten checksums are stored, the path has ten entries and at most
  seven are in use (so that the own id and one more always fit), the packet
  waiting for the broadcast timer is well-formed.
\<close>

theorem relay_state_bounds:
  assumes "relay_reachable shipped_build lib s" and "contiki_lib_ok lib"
  shows "length (checksum_children s) = MAX_CHILD \<and> cur_loc s \<le> MAX_CHILD \<and>
    length (paths s) = MAX_PATH_NODES \<and> paths_loc s + 3 \<le> MAX_PATH_NODES \<and>
    wf_response (ctimer_resp s)"
  using relay_reachable_inv [OF assms]
  by (simp add: relay_inv_def relay_arrays_def size_defs)

lemma relay_state_bounds_witness:
  "paths_loc (start_relay shipped_build (sample_env 3 512 []) initial_relay) + 3 \<le> MAX_PATH_NODES"
proof -
  have "relay_reachable shipped_build sample_lib (start_relay shipped_build (sample_env 3 512 []) initial_relay)"
    by (rule relay_reachable_start) simp
  from relay_state_bounds [OF this] show ?thesis by simp
qed

end
