(* ===== verification/Relay_Round.thy ===== *)
theory Relay_Round
  imports Relay_Safety
begin

text \<open>
  A topology round of one relay. The abstract specification is a record of what
  a round has gathered: the checksums received, the ids collected, the rank of
  the farthest leaf. The relay refines it packet by packet, and after the
  response of the last child it sends one packet with the exclusive-or of
  everything.
\<close>

subsection \<open>The abstract round\<close>

record round_state =
  r_checksums :: "u64 list"
  r_ids :: "u16 list"
  r_leaf_rank :: u16

definition merge_ids :: "u16 list \<Rightarrow> u16 list \<Rightarrow> u16 list" where
  "merge_ids acc new = acc @ filter (\<lambda>v. v \<notin> set acc) new"

definition round_add :: "response_pkt \<Rightarrow> round_state \<Rightarrow> round_state" where
  "round_add resp r = \<lparr>
     r_checksums = r_checksums r @ [topo_checksum resp],
     r_ids = merge_ids (r_ids r) (path_of resp),
     r_leaf_rank = max (r_leaf_rank r) (topo_max_leaf_rank resp)\<rparr>"

definition abs_round :: "relay \<Rightarrow> round_state" where
  "abs_round s = \<lparr>r_checksums = received s, r_ids = collected s, r_leaf_rank = max_leaf_rank s\<rparr>"

definition fits :: "round_state \<Rightarrow> bool" where
  "fits r \<longleftrightarrow> length (r_ids r) < MAX_PATH_NODES - 2"

lemma merge_ids_length: "length acc \<le> length (merge_ids acc new)"
  by (simp add: merge_ids_def)

lemma fits_round_add: "fits (round_add resp r) \<Longrightarrow> fits r"
  using merge_ids_length [of "r_ids r" "path_of resp"]
  by (simp add: fits_def round_add_def)

lemma fits_rounds: "fits (fold round_add rs r) \<Longrightarrow> fits r"
  by (induction rs arbitrary: r) (auto dest: fits_round_add)

lemma set_merge_ids: "set (merge_ids acc new) = set acc \<union> set new"
  by (auto simp: merge_ids_def)

lemma merge_ids_disjoint: "set acc \<inter> set new = {} \<Longrightarrow> merge_ids acc new = acc @ new"
  by (auto simp: merge_ids_def intro!: filter_True)

lemma rounds_checksums:
  "r_checksums (fold round_add rs r) = r_checksums r @ map topo_checksum rs"
  by (induction rs arbitrary: r) (simp_all add: round_add_def)

lemma rounds_ids: "r_ids (fold round_add rs r) = foldl merge_ids (r_ids r) (map path_of rs)"
  by (induction rs arbitrary: r) (simp_all add: round_add_def)

subsection \<open>One response\<close>

lemma merge_paths_fits:
  assumes "relay_arrays s" and "paths_loc s \<le> i"
    and "\<forall>j\<in>set js. j < MAX_PATH_NODES"
    and "new = filter (\<lambda>v. v \<notin> set (collected s)) (map (\<lambda>j. path_at j resp) js)"
    and "i + length new < MAX_PATH_NODES - 2"
  shows "\<exists>ps. merge_paths e resp js i s = Inr (i + length new, s\<lparr>paths := ps\<rparr>)
    \<and> length ps = MAX_PATH_NODES \<and> take (i + length new) ps = take i (paths s) @ new"
  using assms
proof (induction js arbitrary: i s new)
  case Nil
  then show ?case by (auto simp: relay_arrays_lengths intro!: exI [of _ "paths s"])
next
  case (Cons j js)
  let ?v = "path_at j resp"
  have j: "topo_path resp j = Inr ?v" and js: "\<forall>j\<in>set js. j < MAX_PATH_NODES"
    using Cons.prems by (simp_all add: topo_path_def)
  have pres: "is_present_paths s ?v = Inr (?v \<in> set (collected s))"
    using Cons.prems by (intro is_present_paths_eq) auto
  show ?case
  proof (cases "?v \<in> set (collected s)")
    case True
    then show ?thesis using Cons.IH [OF Cons.prems(1,2) js] Cons.prems j pres by simp
  next
    case False
    define new' where
      "new' = filter (\<lambda>v. v \<notin> set (collected s)) (map (\<lambda>j. path_at j resp) js)"
    let ?s = "s\<lparr>paths := (paths s)[i := ?v]\<rparr>"
    have new: "new = ?v # new'" using False Cons.prems(4) by (simp add: new'_def)
    have len: "length (paths s) = MAX_PATH_NODES"
      using Cons.prems(1) by (rule relay_arrays_lengths)
    have coll: "collected ?s = collected s"
      using Cons.prems(2) by (simp add: collected_def)
    have "\<exists>ps. merge_paths e resp js (Suc i) ?s = Inr (Suc i + length new', ?s\<lparr>paths := ps\<rparr>)
      \<and> length ps = MAX_PATH_NODES \<and> take (Suc i + length new') ps = take (Suc i) (paths ?s) @ new'"
      using Cons.prems len new js coll
      by (intro Cons.IH) (simp_all add: new'_def)
    then obtain ps where "merge_paths e resp js (Suc i) ?s
        = Inr (Suc i + length new', ?s\<lparr>paths := ps\<rparr>)"
      and "length ps = MAX_PATH_NODES"
      and "take (Suc i + length new') ps = take (Suc i) ((paths s)[i := ?v]) @ new'"
      by auto
    moreover have "take (Suc i) ((paths s)[i := ?v]) = take i (paths s) @ [?v]"
      using len Cons.prems(5) by (intro take_list_update_Suc) simp
    ultimately show ?thesis
      using False j pres len new Cons.prems(5)
      by (intro exI [of _ ps]) (simp add: Let_def)
  qed
qed

text \<open>
  What a response does before the relay decides whether the round is complete:
  the abstract round advances by \<open>round_add\<close>, nothing is sent.
\<close>

definition advances :: "response_pkt \<Rightarrow> u16 \<Rightarrow> relay \<Rightarrow> relay \<Rightarrow> bool" where
  "advances resp child s u \<longleftrightarrow>
     relay_inv u \<and> abs_round u = round_add resp (abs_round s) \<and> cur_loc u = Suc (cur_loc s) \<and>
     children u = snd (child_set_pkt_received (children s) child) \<and>
     outs u = outs s @ [Ctimer_reset Periodic_timer] \<and> max_index u = max_index s"

lemma process_topology_req_advances:
  assumes inv: "relay_inv s" and child: "is_child (children s) child"
    and room: "cur_loc s < MAX_CHILD" and idx: "unat (topo_pathindex resp) \<le> MAX_PATH_NODES"
    and fit: "fits (round_add resp (abs_round s))"
  obtains u where "advances resp child s u"
    and "process_topology_req e resp child s =
      (if cur_loc u = unat (get_child_count (children u)) then send_topology_resp e u
       else Inr (emit (Ctimer_set Periodic_timer
              (unat (get_topology_timeout e) * clock_second e) Call_send_topology_resp) u))"
proof -
  let ?n = "unat (topo_pathindex resp)"
  let ?t = "(emit (Ctimer_reset Periodic_timer) s)
       \<lparr>children := snd (child_set_pkt_received (children s) child)\<rparr>"
  let ?s = "?t\<lparr>checksum_children := (checksum_children s)[cur_loc s := topo_checksum resp],
       cur_loc := Suc (cur_loc s)\<rparr>"
  define new where "new = filter (\<lambda>v. v \<notin> set (collected s)) (path_of resp)"
  have arr: "relay_arrays s" and loc: "paths_loc s < MAX_PATH_NODES - 2"
    using inv by (simp_all add: relay_inv_def)
  note len = relay_arrays_lengths [OF arr]
  have coll: "collected ?s = collected s" by (simp add: collected_def)
  have "length (collected s) = paths_loc s"
    using len loc by (simp add: collected_def)
  then have fit': "paths_loc s + length new < MAX_PATH_NODES - 2"
    using fit by (simp add: fits_def round_add_def abs_round_def merge_ids_def new_def)
  have "\<exists>ps. merge_paths e resp [0..<?n] (paths_loc s) ?s
      = Inr (paths_loc s + length new, ?s\<lparr>paths := ps\<rparr>) \<and> length ps = MAX_PATH_NODES
      \<and> take (paths_loc s + length new) ps = take (paths_loc s) (paths ?s) @ new"
    using inv len room fit' idx unfolding new_def path_of_def path_prefix_def
    by (intro merge_paths_fits) (simp_all add: relay_inv_def coll)
  then obtain ps where m: "merge_paths e resp [0..<?n] (paths_loc s) ?s
      = Inr (paths_loc s + length new, ?s\<lparr>paths := ps\<rparr>)"
    and ps: "length ps = MAX_PATH_NODES"
      "take (paths_loc s + length new) ps = collected s @ new"
    by (auto simp: collected_def)
  define u where "u = (let u = ?s\<lparr>paths := ps, paths_loc := paths_loc s + length new\<rparr>
    in if max_leaf_rank u < topo_max_leaf_rank resp
       then u\<lparr>max_leaf_rank := topo_max_leaf_rank resp\<rparr> else u)"
  have "relay_inv u"
    using inv len room ps fit' by (simp add: u_def Let_def relay_inv_def relay_arrays_def)
  moreover have "received u = received s @ [topo_checksum resp]"
    using len room by (simp add: received_def u_def Let_def take_list_update_Suc)
  moreover have "collected u = merge_ids (collected s) (path_of resp)"
    using ps by (simp add: collected_def u_def Let_def merge_ids_def new_def)
  ultimately have "advances resp child s u"
    by (auto simp: advances_def abs_round_def round_add_def u_def Let_def max_def)
  moreover have "process_topology_req e resp child s =
      (if cur_loc u = unat (get_child_count (children u)) then send_topology_resp e u
       else Inr (emit (Ctimer_set Periodic_timer
              (unat (get_topology_timeout e) * clock_second e) Call_send_topology_resp) u))"
    using len child room m by (simp add: process_topology_req_def Let_def u_def)
  ultimately show ?thesis using that by blast
qed

subsection \<open>All responses of a round\<close>

text \<open>
  The responses as UDP datagrams: \<open>tcpip_event\<close> with new data, the source
  address of the child in the header.
\<close>

fun feed :: "build \<Rightarrow> contiki_lib \<Rightarrow> env \<Rightarrow> (ipaddr \<times> response_pkt) list \<Rightarrow> relay \<Rightarrow> relay res" where
  "feed b lib e [] s = Inr s"
| "feed b lib e ((src, resp) # rs) s =
     rbind (relay_step b lib e (Tcpip_event True src (response_bytes resp)) s) (feed b lib e rs)"

definition topology_from :: "relay \<Rightarrow> ipaddr \<Rightarrow> response_pkt \<Rightarrow> bool" where
  "topology_from s src r \<longleftrightarrow> is_child (children s) (get_id_from_addr src) \<and> wf_response r
     \<and> pkt_type r = TOPOLOGY \<and> unat (topo_pathindex r) \<le> MAX_PATH_NODES"

definition sends :: "relay \<Rightarrow> effect list" where
  "sends s = filter is_send (outs s)"

lemma sends_emit [simp]: "sends (emit f s) = (if is_send f then sends s @ [f] else sends s)"
  by (simp add: sends_def)

lemma sends_reset [simp]: "sends (reset_variable s) = sends s"
  by (simp add: sends_def)

lemma filter_parent_sends [simp]: "filter is_send (parent_sends e c r) = parent_sends e c r"
  by (auto simp: parent_sends_def intro!: filter_True)

definition ready :: "relay \<Rightarrow> bool" where
  "ready s \<longleftrightarrow> relay_inv s \<and> cur_loc s < num_nodes (children s) \<and> num_nodes (children s) \<le> MAX_CHILD"

lemma child_count_small:
  "num_nodes t \<le> MAX_CHILD \<Longrightarrow> unat (get_child_count t) = num_nodes t"
  by (simp add: get_child_count_def size_defs unat_of_nat)

text \<open>
  What a complete round leaves: one packet \<open>r\<close> that carries the abstract round
  \<open>final\<close> together with the relay's own checksum and id, sent to every parent
  and nothing else, and a relay that starts the next round from nothing.
\<close>

definition round_sent :: "env \<Rightarrow> relay \<Rightarrow> round_state \<Rightarrow> response_pkt \<Rightarrow> relay \<Rightarrow> bool" where
  "round_sent e s final r s' \<longleftrightarrow>
    topology_packet (xor_list (r_checksums final) XOR own_checksum e)
      (r_ids final @ [iotlab_uid e]) (r_leaf_rank final) r \<and>
    sends s' = sends s @ (if udp_new_ok e (udp_new_count (outs s)) then parent_sends e 0 r else []) \<and>
    abs_round s' = \<lparr>r_checksums = [], r_ids = [], r_leaf_rank = r_leaf_rank final\<rparr> \<and>
    relay_inv s' \<and> child_ids (children s') = child_ids (children s) \<and>
    num_nodes (children s') = num_nodes (children s) \<and> marked (children s') = {} \<and>
    unat (max_index s') = num_nodes (children s) \<and> my_checksum s' = own_checksum e \<and>
    first_round_completed s' = 1 \<and> first_child s'"

lemma ready_not_leaf: "ready s \<Longrightarrow> \<not> is_leaf (children s)"
  using child_count_small [of "children s"] by (auto simp: ready_def is_leaf_def)

lemma relay_step_topology:
  assumes "\<not> is_leaf (children s)" and "topology_from s src r"
  shows "relay_step b lib e (Tcpip_event True src (response_bytes r)) s =
    process_topology_req e r (get_id_from_addr src) (s\<lparr>send_pkt_count := send_pkt_count s + 1\<rparr>)"
  using assms by (simp add: tcpip_handler_def topology_from_def Let_def)

text \<open>What a response that does not fill the path leaves, before the relay decides whether to send.\<close>

definition counted :: "response_pkt \<Rightarrow> relay \<Rightarrow> relay \<Rightarrow> bool" where
  "counted r s u \<longleftrightarrow> relay_inv u \<and> abs_round u = round_add r (abs_round s) \<and>
     cur_loc u = Suc (cur_loc s) \<and> num_nodes (children u) = num_nodes (children s) \<and>
     child_ids (children u) = child_ids (children s) \<and> outs u = outs s @ [Ctimer_reset Periodic_timer]"

lemma step_counts:
  assumes "ready s" and "topology_from s a r" and "fits (round_add r (abs_round s))"
  obtains u where "counted r s u"
    and "relay_step b lib e (Tcpip_event True a (response_bytes r)) s =
      (if Suc (cur_loc s) = num_nodes (children s) then send_topology_resp e u
       else Inr (emit (Ctimer_set Periodic_timer
              (unat (get_topology_timeout e) * clock_second e) Call_send_topology_resp) u))"
proof -
  let ?s0 = "s\<lparr>send_pkt_count := send_pkt_count s + 1\<rparr>"
  have s: "relay_inv s" "cur_loc s < num_nodes (children s)" "num_nodes (children s) \<le> MAX_CHILD"
    using assms(1) by (simp_all add: ready_def)
  have abs0: "abs_round ?s0 = abs_round s" by (simp add: abs_round_def received_def collected_def)
  obtain u where u: "advances r (get_id_from_addr a) ?s0 u" and process:
    "process_topology_req e r (get_id_from_addr a) ?s0 =
      (if cur_loc u = unat (get_child_count (children u)) then send_topology_resp e u
       else Inr (emit (Ctimer_set Periodic_timer
              (unat (get_topology_timeout e) * clock_second e) Call_send_topology_resp) u))"
    using process_topology_req_advances [of ?s0 "get_id_from_addr a" r e] s assms(2,3) abs0
    by (auto simp: topology_from_def)
  have "counted r s u" using u abs0 by (simp add: counted_def advances_def)
  moreover have "unat (get_child_count (children u)) = num_nodes (children s)"
    using s(3) calculation child_count_small by (simp add: counted_def)
  ultimately show ?thesis
    using that relay_step_topology [OF ready_not_leaf [OF assms(1)] assms(2)] process
    by (simp add: counted_def)
qed

lemma timer_callback_sends [simp]: "timer_callback t (parent_sends e c r) = None"
proof -
  have "timer_callback t (map (\<lambda>p. Unicast_sendto (p_addr p) x) ps) = None" for x ps
    by (induction ps) simp_all
  then show ?thesis by (simp add: parent_sends_def)
qed

lemma timer_callback_send_to_parents [simp]:
  "timer_callback t (send_to_parents e r c os) = timer_callback t os"
  by (simp add: send_to_parents_eq timer_callback_append)

subsection \<open>Some of the responses\<close>

text \<open>What the relay is in after the responses \<open>rs\<close>, fewer than it waits for.\<close>

definition waits :: "(ipaddr \<times> response_pkt) list \<Rightarrow> relay \<Rightarrow> relay \<Rightarrow> bool" where
  "waits rs s v \<longleftrightarrow> ready v \<and> abs_round v = fold round_add (map snd rs) (abs_round s) \<and>
     cur_loc v = cur_loc s + length rs \<and> child_ids (children v) = child_ids (children s) \<and>
     num_nodes (children v) = num_nodes (children s) \<and> sends v = sends s \<and>
     udp_new_count (outs v) = udp_new_count (outs s) \<and>
     timer_callback Periodic_timer (outs v) =
       (if rs = [] then timer_callback Periodic_timer (outs s) else Some Call_send_topology_resp)"

lemma topology_from_cong:
  "child_ids (children v) = child_ids (children s) \<Longrightarrow> topology_from v = topology_from s"
  by (simp add: topology_from_def is_child_iff fun_eq_iff)

lemma feed_one:
  assumes "ready s" and "Suc (cur_loc s) < num_nodes (children s)" and "topology_from s a r"
    and "fits (round_add r (abs_round s))"
  shows "\<exists>v. relay_step b lib e (Tcpip_event True a (response_bytes r)) s = Inr v \<and> waits [(a, r)] s v"
proof -
  obtain u where u: "counted r s u" and step: "relay_step b lib e (Tcpip_event True a (response_bytes r)) s =
      (if Suc (cur_loc s) = num_nodes (children s) then send_topology_resp e u
       else Inr (emit (Ctimer_set Periodic_timer
              (unat (get_topology_timeout e) * clock_second e) Call_send_topology_resp) u))"
    using step_counts [OF assms(1,3,4)] .
  let ?v = "emit (Ctimer_set Periodic_timer
              (unat (get_topology_timeout e) * clock_second e) Call_send_topology_resp) u"
  have "abs_round ?v = abs_round u" by (simp add: abs_round_def received_def collected_def)
  then have "waits [(a, r)] s ?v"
    using u assms(1,2) by (simp add: counted_def waits_def ready_def timer_callback_append sends_def)
  then show ?thesis using step assms(2) by simp
qed

lemma waits_trans: "waits rs s v \<Longrightarrow> waits rs' v w \<Longrightarrow> waits (rs @ rs') s w"
  by (auto simp: waits_def)

lemma feed_partial:
  assumes "ready s" and "cur_loc s + length rs < num_nodes (children s)"
    and "\<forall>(a, r)\<in>set rs. topology_from s a r"
    and "fits (fold round_add (map snd rs) (abs_round s))"
  shows "\<exists>v. feed b lib e rs s = Inr v \<and> waits rs s v"
  using assms
proof (induction rs arbitrary: s)
  case Nil
  then show ?case by (simp add: waits_def)
next
  case (Cons ar rs)
  obtain a r where ar [simp]: "ar = (a, r)" by (cases ar)
  have "fits (round_add r (abs_round s))" using Cons.prems(4) fits_rounds by simp
  with Cons.prems feed_one [of s a r b lib e] obtain v
    where v: "relay_step b lib e (Tcpip_event True a (response_bytes r)) s = Inr v" "waits [(a, r)] s v"
    by auto
  then have "topology_from v = topology_from s" by (intro topology_from_cong) (simp add: waits_def)
  then obtain w where w: "feed b lib e rs v = Inr w" "waits rs v w"
    using Cons.IH [of v] Cons.prems v(2) by (auto simp: waits_def)
  then have "feed b lib e (ar # rs) s = Inr w" using v(1) by simp
  moreover have "waits (ar # rs) s w" using waits_trans [OF v(2) w(2)] by simp
  ultimately show ?case by blast
qed

subsection \<open>All of the responses\<close>

lemma feed_last:
  assumes "ready v" and "wf_env e" and "Suc (cur_loc v) = num_nodes (children v)" and "topology_from v a r"
    and "fits (round_add r (abs_round v))"
  shows "\<exists>p s'. relay_step b lib e (Tcpip_event True a (response_bytes r)) v = Inr s' \<and>
    round_sent e v (round_add r (abs_round v)) p s' \<and>
    timer_callback Periodic_timer (outs s') = timer_callback Periodic_timer (outs v)"
proof -
  obtain u where u: "counted r v u" and step: "relay_step b lib e (Tcpip_event True a (response_bytes r)) v =
      (if Suc (cur_loc v) = num_nodes (children v) then send_topology_resp e u
       else Inr (emit (Ctimer_set Periodic_timer
              (unat (get_topology_timeout e) * clock_second e) Call_send_topology_resp) u))"
    using step_counts [OF assms(1,4,5)] .
  have arr: "relay_arrays u" "paths_loc u < MAX_PATH_NODES - 1" using u by (auto simp: counted_def relay_inv_def)
  from send_topology_resp_spec [OF this assms(2)] obtain p where
    p: "send_topology_resp e u = Inr (reset_variable (u\<lparr>my_checksum := own_checksum e,
       outs := send_to_parents e p 0 (outs u)\<rparr>))" (is "_ = Inr ?s'")
    and pk: "topology_packet (xor_list (received u) XOR own_checksum e)
           (collected u @ [iotlab_uid e]) (max_leaf_rank u) p" .
  have abs: "abs_round u = round_add r (abs_round v)" using u by (simp add: counted_def)
  have final: "r_checksums (round_add r (abs_round v)) = received u"
    "r_ids (round_add r (abs_round v)) = collected u" "r_leaf_rank (round_add r (abs_round v)) = max_leaf_rank u"
    unfolding abs [symmetric] by (simp_all add: abs_round_def)
  have "num_nodes (children v) \<le> 10" using assms(1) by (simp add: ready_def size_defs)
  then have "unat (of_nat (num_nodes (children v)) :: u8) = num_nodes (children v)" by (simp add: unat_of_nat)
  then have "round_sent e v (round_add r (abs_round v)) p ?s'"
    using u arr pk assms(3)
    by (simp add: round_sent_def final counted_def sends_def send_to_parents_eq)
      (simp add: abs_round_def received_def collected_def)
  moreover have "timer_callback Periodic_timer (outs ?s') = timer_callback Periodic_timer (outs v)"
    using u by (simp add: counted_def timer_callback_append)
  ultimately show ?thesis using step p assms(3) by (intro exI [of _ p] exI [of _ ?s']) simp
qed

lemma feed_append: "feed b lib e (xs @ ys) s = rbind (feed b lib e xs s) (feed b lib e ys)"
proof (induction xs arbitrary: s)
  case (Cons x xs)
  then show ?case
    by (cases x; cases "relay_step b lib e (Tcpip_event True (fst x) (response_bytes (snd x))) s")
      (simp_all del: relay_step.simps)
qed simp

lemma feed_complete:
  assumes "ready s" and "wf_env e" and "length rs = num_nodes (children s) - cur_loc s"
    and "\<forall>(a, r)\<in>set rs. topology_from s a r"
    and "fits (fold round_add (map snd rs) (abs_round s))"
  shows "\<exists>p s'. feed b lib e rs s = Inr s' \<and>
    round_sent e s (fold round_add (map snd rs) (abs_round s)) p s' \<and>
    timer_callback Periodic_timer (outs s') =
      (if 2 \<le> length rs then Some Call_send_topology_resp else timer_callback Periodic_timer (outs s))"
proof -
  have "rs \<noteq> []" using assms(1,3) by (auto simp: ready_def)
  then obtain qs a r where rs: "rs = qs @ [(a, r)]" by (metis rev_exhaust surj_pair)
  have fit: "fits (round_add r (fold round_add (map snd qs) (abs_round s)))"
    using assms(5) by (simp add: rs)
  then have "fits (fold round_add (map snd qs) (abs_round s))" by (rule fits_round_add)
  moreover have "cur_loc s + length qs < num_nodes (children s)" using assms(3) by (simp add: rs)
  ultimately obtain v where v: "feed b lib e qs s = Inr v" and w: "waits qs s v"
    using feed_partial [of s qs b lib e] assms(1,4) by (auto simp: rs)
  have abs: "abs_round v = fold round_add (map snd qs) (abs_round s)"
    and same: "child_ids (children v) = child_ids (children s)" "num_nodes (children v) = num_nodes (children s)"
      "sends v = sends s" "udp_new_count (outs v) = udp_new_count (outs s)" "ready v"
    using w by (simp_all add: waits_def)
  have "Suc (cur_loc v) = num_nodes (children v)"
    using w assms(3) by (simp add: waits_def rs)
  moreover have "topology_from v a r"
    using assms(4) topology_from_cong [OF same(1)] by (simp add: rs)
  moreover have "fits (round_add r (abs_round v))" using fit abs by simp
  ultimately obtain p s' where
    step: "relay_step b lib e (Tcpip_event True a (response_bytes r)) v = Inr s'"
    and sent: "round_sent e v (round_add r (abs_round v)) p s'"
    and tm: "timer_callback Periodic_timer (outs s') = timer_callback Periodic_timer (outs v)"
    using feed_last [OF same(5) assms(2)] by blast
  have "feed b lib e rs s = Inr s'"
    using v step by (simp add: rs feed_append del: relay_step.simps)
  moreover have "round_sent e s (fold round_add (map snd rs) (abs_round s)) p s'"
    using sent same abs by (simp add: round_sent_def rs)
  moreover have "timer_callback Periodic_timer (outs s') =
      (if 2 \<le> length rs then Some Call_send_topology_resp else timer_callback Periodic_timer (outs s))"
    using tm w by (cases qs) (simp_all add: waits_def rs)
  ultimately show ?thesis by blast
qed

lemma feed_round:
  assumes "ready s" and "wf_env e"
    and "length rs = num_nodes (children s) - cur_loc s"
    and "\<forall>(a, r)\<in>set rs. topology_from s a r"
    and "fits (fold round_add (map snd rs) (abs_round s))"
    and "final = fold round_add (map snd rs) (abs_round s)"
  shows "\<exists>r s'. feed b lib e rs s = Inr s' \<and> round_sent e s final r s'"
  using feed_complete [OF assms(1-5), of b lib] assms(6) by blast

subsection \<open>A full path\<close>

text \<open>
  What the response \<open>r\<close> with the id \<open>v\<close> leaves when it fills the path: a packet \<open>p\<close>
  with all that was collected, and a relay that has forgotten the responses so
  far and waits for as many as it has children.
\<close>

definition flushed :: "env \<Rightarrow> relay \<Rightarrow> response_pkt \<Rightarrow> u16 \<Rightarrow> response_pkt \<Rightarrow> relay \<Rightarrow> bool" where
  "flushed e s r v p s' \<longleftrightarrow>
    topology_packet (xor_list (received s @ [topo_checksum r]) XOR own_checksum e)
      (collected s @ [v, iotlab_uid e]) (max_leaf_rank s) p \<and>
    sends s' = sends s @ (if udp_new_ok e (udp_new_count (outs s)) then parent_sends e 0 p else []) \<and>
    relay_inv s' \<and> cur_loc s' = 0 \<and> max_index s' = 0 \<and>
    abs_round s' = \<lparr>r_checksums = [], r_ids = [], r_leaf_rank = max (max_leaf_rank s) (topo_max_leaf_rank r)\<rparr> \<and>
    child_ids (children s') = child_ids (children s) \<and> num_nodes (children s') = num_nodes (children s) \<and>
    my_checksum s' = own_checksum e \<and> first_round_completed s' = 1 \<and>
    timer_callback Periodic_timer (outs s') = Some Call_send_topology_resp"

lemma merge_paths_flush:
  assumes "relay_arrays t" and "wf_env e" and "path_at 0 r = v" and "v \<notin> set (collected t)"
    and "paths_loc t + 3 = MAX_PATH_NODES"
  obtains p where "merge_paths e r [0] (paths_loc t) t =
      Inr (0, reset_variable (reset_variable (t\<lparr>paths := (paths t)[paths_loc t := v],
        paths_loc := Suc (paths_loc t), my_checksum := own_checksum e,
        outs := send_to_parents e p 0 (outs t)\<rparr>)))"
    and "topology_packet (xor_list (received t) XOR own_checksum e)
      (collected t @ [v, iotlab_uid e]) (max_leaf_rank t) p"
proof -
  let ?u = "t\<lparr>paths := (paths t)[paths_loc t := v], paths_loc := Suc (paths_loc t)\<rparr>"
  note len = relay_arrays_lengths [OF assms(1)]
  have pres: "is_present_paths t v = Inr False"
    using assms(1,4,5) is_present_paths_eq [of t v] by simp
  have "relay_arrays ?u" "paths_loc ?u < MAX_PATH_NODES - 1" using assms(1,5) len(3) by simp_all
  then obtain p where p: "send_topology_resp e ?u = Inr (reset_variable (?u\<lparr>my_checksum := own_checksum e,
       outs := send_to_parents e p 0 (outs ?u)\<rparr>))"
    and pk: "topology_packet (xor_list (received ?u) XOR own_checksum e)
           (collected ?u @ [iotlab_uid e]) (max_leaf_rank ?u) p"
    using send_topology_resp_spec [OF _ _ assms(2)] by metis
  have "received ?u = received t" by (simp add: received_def)
  moreover have "collected ?u = collected t @ [v]"
    using len(3) assms(5) by (simp add: collected_def take_list_update_Suc)
  ultimately show ?thesis
    using that [of p] pk pres p len(3) assms(3,5) by (simp add: topo_path_def size_defs Let_def)
qed

lemma process_topology_req_flush:
  assumes "relay_inv s" and "wf_env e" and "topology_from s a r" and "path_of r = [v]"
    and "v \<notin> set (collected s)" and "paths_loc s + 3 = MAX_PATH_NODES" and "cur_loc s < MAX_CHILD"
    and "0 < num_nodes (children s)" and "num_nodes (children s) \<le> MAX_CHILD"
  shows "\<exists>p s'. process_topology_req e r (get_id_from_addr a) s = Inr s' \<and> flushed e s r v p s'"
proof -
  let ?t = "(emit (Ctimer_reset Periodic_timer) s)
       \<lparr>children := snd (child_set_pkt_received (children s) (get_id_from_addr a)),
        checksum_children := (checksum_children s)[cur_loc s := topo_checksum r],
        cur_loc := Suc (cur_loc s)\<rparr>"
  have arr: "relay_arrays s" using assms(1) by (simp add: relay_inv_def)
  note len = relay_arrays_lengths [OF arr]
  have idx: "unat (topo_pathindex r) = 1"
    using arg_cong [OF assms(4), of length] by (simp add: path_of_def)
  then have v: "path_at 0 r = v" using assms(4) by (simp add: path_of_def path_prefix_def)
  have t: "relay_arrays ?t" "collected ?t = collected s" "received ?t = received s @ [topo_checksum r]"
    using arr len(1) assms(7) by (simp_all add: collected_def received_def take_list_update_Suc)
  obtain p where m: "merge_paths e r [0] (paths_loc ?t) ?t =
      Inr (0, reset_variable (reset_variable (?t\<lparr>paths := (paths ?t)[paths_loc ?t := v],
        paths_loc := Suc (paths_loc ?t), my_checksum := own_checksum e,
        outs := send_to_parents e p 0 (outs ?t)\<rparr>)))"
    and pk: "topology_packet (xor_list (received ?t) XOR own_checksum e)
      (collected ?t @ [v, iotlab_uid e]) (max_leaf_rank ?t) p"
    using merge_paths_flush [OF t(1) assms(2) v] t(2) assms(5,6) by auto
  define s1 where "s1 = reset_variable (reset_variable (?t\<lparr>paths := (paths ?t)[paths_loc ?t := v],
        paths_loc := Suc (paths_loc ?t), my_checksum := own_checksum e,
        outs := send_to_parents e p 0 (outs ?t)\<rparr>))"
  have merge: "merge_paths e r [0..<unat (topo_pathindex r)] (paths_loc s) ?t = Inr (0, s1)"
    unfolding idx s1_def using m by (simp add: upt_rec del: merge_paths.simps)
  define s2 where "s2 = (if max_leaf_rank s1 < topo_max_leaf_rank r
    then s1\<lparr>paths_loc := 0, max_leaf_rank := topo_max_leaf_rank r\<rparr> else s1\<lparr>paths_loc := 0\<rparr>)"
  let ?s' = "emit (Ctimer_set Periodic_timer
      (unat (get_topology_timeout e) * clock_second e) Call_send_topology_resp) s2"
  have num: "num_nodes (children s2) = num_nodes (children s)" "cur_loc s2 = 0"
    by (simp_all add: s2_def s1_def)
  then have "0 \<noteq> unat (get_child_count (children s2))"
    using assms(8,9) child_count_small by simp
  then have "process_topology_req e r (get_id_from_addr a) s = Inr ?s'"
    using assms(3,7) len(1) merge num
    by (simp add: process_topology_req_def topology_from_def Let_def flip: s2_def)
  moreover have "relay_inv ?s'" using t(1) len(3) by (simp add: s2_def s1_def relay_inv_def size_defs)
  then have "flushed e s r v p ?s'"
    using pk t(2,3) num
    by (cases "max_leaf_rank s < topo_max_leaf_rank r")
      (auto simp: flushed_def s2_def s1_def sends_def send_to_parents_eq abs_round_def received_def
        collected_def timer_callback_append max_def)
  ultimately show ?thesis by blast
qed

subsection \<open>Properties\<close>

definition relay_of :: "u16 list \<Rightarrow> relay" where
  "relay_of cs = initial_relay\<lparr>children := \<lparr>
     child_list = map (\<lambda>c. \<lparr>child_id = c, received_pkt = 0\<rparr>) cs,
     num_nodes = length cs, memb_used = length cs\<rparr>\<rparr>"

lemma relay_of_simps [simp]:
  "relay_inv (relay_of cs)" "cur_loc (relay_of cs) = 0" "num_nodes (children (relay_of cs)) = length cs"
  "child_ids (children (relay_of cs)) = cs" "sends (relay_of cs) = []"
  "abs_round (relay_of cs) = \<lparr>r_checksums = [], r_ids = [], r_leaf_rank = 0\<rparr>"
  "received (relay_of cs) = []" "collected (relay_of cs) = []" "udp_new_count (outs (relay_of cs)) = 0"
  by (simp_all add: relay_of_def child_ids_def comp_def sends_def)
     (simp_all add: initial_relay_def abs_round_def received_def collected_def)

lemma ready_relay_of: "ready (relay_of cs) \<longleftrightarrow> cs \<noteq> [] \<and> length cs \<le> MAX_CHILD"
  by (simp add: ready_def)

definition sample_response :: response_pkt where
  "sample_response = snd (create_response (sample_env 1 768 []) \<lparr>req_pkt_type = TOPOLOGY, seed = 0\<rparr> zero_response)"

lemma sample_response_packet:
  "topology_packet (own_checksum (sample_env 1 768 [])) [1] 768 sample_response"
  unfolding sample_response_def
  using create_response_topology [of "\<lparr>req_pkt_type = TOPOLOGY, seed = 0\<rparr>" zero_response "sample_env 1 768 []"]
  by simp

lemma sample_response_from:
  "1 \<in> set cs \<Longrightarrow> topology_from (relay_of cs) (sample_ip 1) sample_response"
  using sample_response_packet
  by (simp add: topology_from_def is_child_iff topology_packet_def size_defs)



text \<open>
  C21: A round counts responses, not children: when one of two children answers
  twice, the relay takes the round for complete, the two equal checksums cancel,
  and it sends its own checksum with a path that lacks the other child.
\<close>

theorem repeated_response_ends_round:
  assumes "topology_packet ck [c] rk r" and "c \<noteq> d" and "wf_env e"
    and "get_id_from_addr a = c"
  shows "\<exists>p s'. feed b lib e [(a, r), (a, r)] (relay_of [c, d]) = Inr s' \<and>
    topo_checksum p = own_checksum e \<and> path_of p = [c, iotlab_uid e] \<and>
    filter is_send (outs s') = (if udp_new_ok e 0 then parent_sends e 0 p else [])"
proof -
  let ?s = "relay_of [c, d]"
  have r: "path_of r = [c]" "topo_checksum r = ck"
    using assms(1) by (simp_all add: topology_packet_def)
  have "ready ?s" by (simp add: ready_relay_of size_defs)
  moreover have "topology_from ?s a r"
    using assms(1,4) by (simp add: topology_from_def topology_packet_def is_child_iff size_defs)
  moreover have "fits (fold round_add [r, r] (abs_round ?s))"
    using r by (simp add: fits_def round_add_def merge_ids_def size_defs)
  ultimately obtain p s' where f: "feed b lib e [(a, r), (a, r)] ?s = Inr s'"
    and sent: "round_sent e ?s (fold round_add [r, r] (abs_round ?s)) p s'"
    using feed_round [of ?s e "[(a, r), (a, r)]" _ b lib] assms(3) by (auto simp del: feed.simps)
  then show ?thesis
    using r f by (intro exI [of _ p] exI [of _ s'])
      (simp add: round_sent_def topology_packet_def round_add_def merge_ids_def sends_def [symmetric]
        del: feed.simps)
qed

lemma repeated_response_ends_round_witness:
  "\<exists>p s'. feed shipped_build sample_lib (sample_env 3 512 [])
      [(sample_ip 1, sample_response), (sample_ip 1, sample_response)] (relay_of [1, 2]) = Inr s' \<and>
    topo_checksum p = own_checksum (sample_env 3 512 []) \<and> path_of p = [1, 3]"
  using repeated_response_ends_round [OF sample_response_packet, of 2 "sample_env 3 512 []" "sample_ip 1"
      shipped_build sample_lib] by auto

text \<open>
  The path of a relay has room for eight ids of other nodes: the response
  that brings the eighth makes the relay send at once, before all children have
  answered, and it resets its variables twice, so that it forgets how many
  checksums it has combined: asked in the second round, it reports no child.
\<close>

lemma full_path_forgets_children:
  assumes "relay_inv s" and "wf_env e" and "topology_from s a r" and "path_of r = [v]"
    and "v \<notin> set (collected s)" and "paths_loc s + 3 = MAX_PATH_NODES" and "cur_loc s < MAX_CHILD"
    and "0 < num_nodes (children s)" and "num_nodes (children s) \<le> MAX_CHILD"
  shows "\<exists>p s'. process_topology_req e r (get_id_from_addr a) s = Inr s' \<and>
    path_of p = collected s @ [v, iotlab_uid e] \<and>
    topo_checksum p = xor_list (received s @ [topo_checksum r]) XOR own_checksum e \<and>
    filter is_send (outs s') = filter is_send (outs s) @
      (if udp_new_ok e (udp_new_count (outs s)) then parent_sends e 0 p else []) \<and>
    outs (udp_secreq_callback (request_bytes \<lparr>req_pkt_type = SECOND_ROUND, seed = x\<rparr>) s') =
      outs s' @ [Sink_sendto (sec_rnd_bytes \<lparr>sr_max_index = 0, sr_checksum = own_checksum e\<rparr>)]"
proof -
  obtain p s' where "process_topology_req e r (get_id_from_addr a) s = Inr s'" "flushed e s r v p s'"
    using process_topology_req_flush [OF assms] by blast
  then show ?thesis
    by (intro exI [of _ p] exI [of _ s'])
      (simp add: flushed_def topology_packet_def sends_def udp_secreq_callback_def unicast_send_to_sink_def)
qed

lemma full_path_forgets_children_witness:
  "\<exists>p s'. process_topology_req (sample_env 3 512 []) sample_response 1
      ((relay_of [1, 2])\<lparr>paths := [10, 11, 12, 13, 14, 15, 16, 0, 0, 0], paths_loc := 7\<rparr>) = Inr s' \<and>
    path_of p = [10, 11, 12, 13, 14, 15, 16, 1, 3] \<and>
    outs (udp_secreq_callback (request_bytes \<lparr>req_pkt_type = SECOND_ROUND, seed = 0\<rparr>) s') =
      outs s' @ [Sink_sendto (sec_rnd_bytes
        \<lparr>sr_max_index = 0, sr_checksum = own_checksum (sample_env 3 512 [])\<rparr>)]"
proof -
  let ?s = "(relay_of [1, 2])\<lparr>paths := [10, 11, 12, 13, 14, 15, 16, 0, 0, 0], paths_loc := 7\<rparr>"
  have "relay_inv (relay_of [1, 2])" by simp
  then have "relay_inv ?s" by (simp add: relay_inv_def relay_arrays_def size_defs)
  moreover have "collected ?s = [10, 11, 12, 13, 14, 15, 16]" by (simp add: collected_def)
  moreover have "topology_from ?s (sample_ip 1) sample_response"
    using sample_response_from [of "[1, 2]"] by (simp add: topology_from_def)
  moreover have "path_of sample_response = [1]"
    using sample_response_packet by (simp add: topology_packet_def)
  ultimately show ?thesis
    using full_path_forgets_children [of ?s "sample_env 3 512 []" "sample_ip 1" sample_response 1 0]
    by (auto simp: size_defs simp del: One_nat_def)
qed

end
