(* ===== verification/Relay_Attestation.thy ===== *)
theory Relay_Attestation
  imports Relay_Round
begin

text \<open>
  An attestation round of one relay: the responses arrive on the broadcast
  connection, the timer of the first one ends the round, a second timer with a
  random delay sends the packet.
\<close>

fun hear :: "build \<Rightarrow> contiki_lib \<Rightarrow> env \<Rightarrow> (ipaddr \<times> response_pkt) list \<Rightarrow> relay \<Rightarrow> relay res" where
  "hear b lib e [] s = Inr s"
| "hear b lib e ((src, resp) # rs) s =
     rbind (relay_step b lib e (Checksum_rx src (response_bytes resp)) s) (hear b lib e rs)"

text \<open>The first packet broadcast.\<close>

fun first_broadcast :: "effect list \<Rightarrow> response_pkt option" where
  "first_broadcast [] = None"
| "first_broadcast (f # fs) =
     (case f of Broadcast_sendto bs \<Rightarrow> Some (response_of_bytes bs) | _ \<Rightarrow> first_broadcast fs)"

definition attestation_pkt :: "response_pkt \<Rightarrow> bool" where
  "attestation_pkt r \<longleftrightarrow> wf_response r \<and> pkt_type r = ATTESTATION"

definition att_timer :: "env \<Rightarrow> relay \<Rightarrow> effect" where
  "att_timer e s = Ctimer_set Periodic_timer
     (unat (get_attestation_timeout e s) * 10 * FRAME_LENGTH * (clock_second e div 1000))
     Call_send_attestation_resp"

lemma get_attestation_timeout_cong:
  "max_leaf_rank s = max_leaf_rank s' \<Longrightarrow> get_attestation_timeout e s = get_attestation_timeout e s'"
  by (simp add: get_attestation_timeout_def)

text \<open>
  The checksum of an attestation response is stored whoever sent it; only a
  child's response starts the timer.
\<close>

lemma hear_one:
  assumes "relay_inv s" and "cur_loc s < MAX_CHILD" and "broadcast_to_parents_on b"
    and "attestation_pkt r"
  shows "relay_step b lib e (Checksum_rx src (response_bytes r)) s =
    (let u = s\<lparr>checksum_children := (checksum_children s)[cur_loc s := att_checksum r],
               cur_loc := cur_loc s + 1\<rparr>
     in if is_child (children s) (get_id_from_addr src) \<and> first_child s
        then Inr ((emit (att_timer e s) u)\<lparr>first_child := False\<rparr>) else Inr u)"
  using assms
  by (simp add: checksum_receiver_def attestation_pkt_def process_attestation_req_def Let_def
      relay_inv_def relay_arrays_def att_timer_def get_attestation_timeout_def)

definition child_heard :: "(ipaddr \<times> response_pkt) list \<Rightarrow> relay \<Rightarrow> bool" where
  "child_heard rs s \<longleftrightarrow> (\<exists>(a, r)\<in>set rs. is_child (children s) (get_id_from_addr a))"

lemma child_heard_simps [simp]:
  "\<not> child_heard [] s"
  "child_heard (ar # rs) s \<longleftrightarrow> is_child (children s) (get_id_from_addr (fst ar)) \<or> child_heard rs s"
  by (auto simp: child_heard_def)

lemma child_heard_cong: "children v = children s \<Longrightarrow> child_heard rs v = child_heard rs s"
  by (simp add: child_heard_def)

definition heard :: "(ipaddr \<times> response_pkt) list \<Rightarrow> relay \<Rightarrow> relay \<Rightarrow> bool" where
  "heard rs s u \<longleftrightarrow> relay_inv u \<and> received u = received s @ map (att_checksum \<circ> snd) rs
     \<and> cur_loc u = cur_loc s + length rs \<and> sends u = sends s \<and> children u = children s
     \<and> max_leaf_rank u = max_leaf_rank s \<and> max_index u = max_index s \<and> collected u = collected s
     \<and> first_child u = (first_child s \<and> \<not> child_heard rs s)
     \<and> timer_callback Periodic_timer (outs u) =
         (if first_child s \<and> child_heard rs s then Some Call_send_attestation_resp
          else timer_callback Periodic_timer (outs s))"

lemma hear_heard:
  assumes "relay_inv s" and "cur_loc s + length rs \<le> MAX_CHILD" and "broadcast_to_parents_on b"
    and "\<forall>(a, r)\<in>set rs. attestation_pkt r"
  shows "\<exists>u. hear b lib e rs s = Inr u \<and> heard rs s u"
  using assms
proof (induction rs arbitrary: s)
  case Nil
  then show ?case by (simp add: heard_def)
next
  case (Cons ar rs)
  obtain a r where ar [simp]: "ar = (a, r)" by (cases ar)
  have r: "attestation_pkt r" "cur_loc s < MAX_CHILD" using Cons.prems by auto
  have len: "length (checksum_children s) = MAX_CHILD"
    using Cons.prems(1) by (simp add: relay_inv_def relay_arrays_def)
  obtain v where v: "relay_step b lib e (Checksum_rx a (response_bytes r)) s = Inr v"
    and hv: "heard [(a, r)] s v"
  proof -
    let ?u = "s\<lparr>checksum_children := (checksum_children s)[cur_loc s := att_checksum r],
               cur_loc := cur_loc s + 1\<rparr>"
    let ?w = "if is_child (children s) (get_id_from_addr a) \<and> first_child s
        then (emit (att_timer e s) ?u)\<lparr>first_child := False\<rparr> else ?u"
    have "relay_step b lib e (Checksum_rx a (response_bytes r)) s = Inr ?w"
      using hear_one [OF Cons.prems(1) r(2) Cons.prems(3) r(1)] by (simp add: Let_def)
    moreover have "relay_inv ?w" using Cons.prems(1) len r(2) by simp
    then have "heard [(a, r)] s ?w"
      using len r(2)
      by (auto simp: heard_def received_def collected_def sends_def take_list_update_Suc att_timer_def
          timer_callback_append)
    ultimately show ?thesis using that by blast
  qed
  have "\<exists>u. hear b lib e rs v = Inr u \<and> heard rs v u"
    using hv Cons.prems by (intro Cons.IH) (auto simp: heard_def)
  then obtain u where u: "hear b lib e rs v = Inr u" "heard rs v u" by blast
  then have "hear b lib e (ar # rs) s = Inr u" using v by simp
  moreover have "heard (ar # rs) s u"
    using u(2) hv child_heard_cong [of v s rs]
    by (cases "is_child (children s) (get_id_from_addr a)"; cases "first_child s") (simp_all add: heard_def)
  ultimately show ?case by blast
qed

text \<open>The timer.\<close>

definition att_response :: "env \<Rightarrow> relay \<Rightarrow> response_pkt" where
  "att_response e s = set_att_checksum (xor_list (received s) XOR own_checksum e)
     ((stack_response e (length (outs s)))\<lparr>pkt_type := ATTESTATION\<rparr>)"

lemma send_attestation_resp_broadcast:
  assumes "relay_arrays s" and "broadcast_to_parents_on b" and "\<not> binary_tree b"
    and "backoff_modulus e \<noteq> 0"
  shows "send_attestation_resp b e s = Inr
    (if xor_list (received s) XOR own_checksum e = 0 then s\<lparr>my_checksum := own_checksum e\<rparr>
     else reset_variable (emit (Ctimer_set P_timer (unat (random_rand e) mod backoff_modulus e)
            Call_broadcast_to_parents)
       (s\<lparr>my_checksum := own_checksum e, ctimer_resp := att_response e s\<rparr>)))"
  using assms
  by (auto simp: send_attestation_resp_def get_combined_checksum_eq Let_def backoff_modulus_def
      get_my_id_def att_response_def)

lemma att_response_simps:
  assumes "wf_env e"
  shows "attestation_pkt (att_response e s)"
    and "att_checksum (att_response e s) = xor_list (received s) XOR own_checksum e"
  using assms by (simp_all add: attestation_pkt_def att_response_def)

text \<open>The two expiries that end a round.\<close>

definition finish_attestation :: "build \<Rightarrow> contiki_lib \<Rightarrow> env \<Rightarrow> relay \<Rightarrow> relay res" where
  "finish_attestation b lib e s =
     rbind (relay_step b lib e (Timer_expired Call_send_attestation_resp) s)
       (relay_step b lib e (Timer_expired Call_broadcast_to_parents))"

lemma finish_attestation_sends:
  assumes "relay_inv s" and "wf_env e" and "broadcast_to_parents_on b" and "\<not> binary_tree b"
    and "backoff_modulus e \<noteq> 0" and "xor_list (received s) XOR own_checksum e \<noteq> 0"
  shows "\<exists>s'. finish_attestation b lib e s = Inr s' \<and>
    sends s' = sends s @ [Broadcast_sendto (response_bytes (att_response e s))] \<and>
    received s' = [] \<and> unat (max_index s') = cur_loc s \<and> my_checksum s' = own_checksum e"
proof -
  have arr: "relay_arrays s" "cur_loc s \<le> MAX_CHILD" using assms(1) by (simp_all add: relay_inv_def relay_arrays_def)
  have "unat (of_nat (cur_loc s) :: u8) = cur_loc s"
    using arr(2) by (simp add: size_defs unat_of_nat)
  then show ?thesis
    using send_attestation_resp_broadcast [OF arr(1) assms(3-5)] assms(6)
    by (simp add: finish_attestation_def broadcast_to_parents_def received_def sends_def)
qed

subsection \<open>Properties\<close>

text \<open>
  C12: An attestation round of a relay: the checksums it has heard, whoever sent
  them, are combined with its own when the timer expires, and after a second
  timer one packet with the result is broadcast.
\<close>

theorem relay_attestation_round:
  assumes "relay_inv s" and "wf_env e" and "cur_loc s = 0" and "length rs \<le> MAX_CHILD"
    and "\<forall>(a, r)\<in>set rs. attestation_pkt r" and "backoff_modulus e \<noteq> 0"
    and "xor_list (map (att_checksum \<circ> snd) rs) \<noteq> own_checksum e"
  shows "\<exists>r s'. rbind (hear shipped_build lib e rs s) (finish_attestation shipped_build lib e) = Inr s' \<and>
    pkt_type r = ATTESTATION \<and>
    att_checksum r = xor_list (map (att_checksum \<circ> snd) rs) XOR own_checksum e \<and>
    filter is_send (outs s') = filter is_send (outs s) @ [Broadcast_sendto (response_bytes r)] \<and>
    received s' = [] \<and> unat (max_index s') = length rs"
proof -
  obtain u where u: "hear shipped_build lib e rs s = Inr u" and h: "heard rs s u"
    using hear_heard [of s rs shipped_build lib e] assms(1,3,4,5) by auto
  have rec: "received u = map (att_checksum \<circ> snd) rs" "relay_inv u" "cur_loc u = length rs"
    "sends u = sends s"
    using h assms(3) by (auto simp: heard_def received_def)
  have "xor_list (received u) XOR own_checksum e \<noteq> 0"
    using assms(7) rec(1) by (metis xor.right_neutral xor_self_left)
  with finish_attestation_sends [of u e shipped_build lib] rec assms(2,6)
  obtain s' where "finish_attestation shipped_build lib e u = Inr s'"
    "sends s' = sends u @ [Broadcast_sendto (response_bytes (att_response e u))]"
    "received s' = []" "unat (max_index s') = cur_loc u"
    by auto
  then show ?thesis
    using u rec att_response_simps [OF assms(2), of u]
    by (intro exI [of _ "att_response e u"] exI [of _ s'])
      (simp add: attestation_pkt_def sends_def)
qed

definition sample_att :: "u64 \<Rightarrow> response_pkt" where
  "sample_att c = set_att_checksum c (zero_response\<lparr>pkt_type := ATTESTATION\<rparr>)"

lemma sample_att_simps [simp]: "attestation_pkt (sample_att c)" "att_checksum (sample_att c) = c"
  by (simp_all add: sample_att_def attestation_pkt_def)

lemma relay_attestation_round_witness:
  "\<exists>r s'. rbind (hear shipped_build sample_lib (sample_env 3 512 [])
      [(sample_ip 1, sample_att 5), (sample_ip 77, sample_att 6)] (relay_of [1, 2]))
      (finish_attestation shipped_build sample_lib (sample_env 3 512 [])) = Inr s' \<and>
    att_checksum r = 3 XOR own_checksum (sample_env 3 512 []) \<and>
    filter is_send (outs s') = [Broadcast_sendto (response_bytes r)]"
proof -
  have "backoff_modulus (sample_env 3 512 []) \<noteq> 0" by (simp add: backoff_modulus_def)
  then show ?thesis
    using relay_attestation_round [of "relay_of [1, 2]" "sample_env 3 512 []"
        "[(sample_ip 1, sample_att 5), (sample_ip 77, sample_att 6)]" sample_lib]
    by (auto simp: size_defs own_checksum_def sends_def [symmetric] simp del: hear.simps)
qed

text \<open>
  The array of checksums has no check: a relay runs past it exactly when
  more than ten attestation responses, of any nodes in radio range, arrive
  between two sends.
\<close>

lemma attestation_flood_overflows:
  assumes "relay_inv s" and "\<forall>(a, r)\<in>set rs. attestation_pkt r"
  shows "hear shipped_build lib e rs s = Inl Out_of_bounds \<longleftrightarrow> MAX_CHILD < cur_loc s + length rs"
  using assms
proof (induction rs arbitrary: s)
  case Nil
  then show ?case by (simp add: relay_inv_def relay_arrays_def)
next
  case (Cons ar rs)
  obtain a r where ar [simp]: "ar = (a, r)" by (cases ar)
  have r: "attestation_pkt r" using Cons.prems(2) by simp
  have len: "length (checksum_children s) = MAX_CHILD" "cur_loc s \<le> MAX_CHILD"
    using Cons.prems(1) by (simp_all add: relay_inv_def relay_arrays_def)
  show ?case
  proof (cases "cur_loc s < MAX_CHILD")
    case True
    then obtain u where u: "hear shipped_build lib e [(a, r)] s = Inr u" and h: "heard [(a, r)] s u"
      using hear_heard [of s "[(a, r)]" shipped_build lib e] Cons.prems(1) r by auto
    then have "hear shipped_build lib e (ar # rs) s = hear shipped_build lib e rs u"
      by (auto simp: rbind_Inr_iff)
    moreover have "relay_inv u" "cur_loc u = Suc (cur_loc s)" using h by (simp_all add: heard_def)
    ultimately show ?thesis using Cons.IH [of u] Cons.prems(2) by simp
  next
    case False
    then show ?thesis
      using len r by (simp add: checksum_receiver_def attestation_pkt_def process_attestation_req_def)
  qed
qed

lemma attestation_flood_overflows_witness:
  "hear shipped_build sample_lib (sample_env 3 512 []) (replicate 11 (sample_ip 77, sample_att 1))
     (relay_of [1]) = Inl Out_of_bounds"
  by (subst attestation_flood_overflows) (auto simp: size_defs)

subsection \<open>Timeouts\<close>

definition hops :: "env \<Rightarrow> u16 \<Rightarrow> int" where
  "hops e rank = uint rank div int (min_hoprankinc e)"

lemma sdiv_nonneg: "0 \<le> a \<Longrightarrow> 0 < b \<Longrightarrow> a sdiv b = a div b" for a b :: int
  by (simp add: signed_divide_int_def sgn_if)

lemma uint_word_of_int_u8: "0 \<le> x \<Longrightarrow> x < 256 \<Longrightarrow> uint (word_of_int x :: u8) = x"
  by (simp add: uint_word_of_int)

lemma uint_word_of_int_neg_u8:
  assumes "1 \<le> d" and "d \<le> 255"
  shows "uint (word_of_int (- d) :: u8) = 256 - d"
proof -
  have "(- d) mod 256 = 256 - d" using assms by (simp add: zmod_zminus1_eq_if)
  then show ?thesis by (simp only: uint_word_of_int) (simp del: word_of_int_minus)
qed

lemma topology_timeout_eq:
  assumes "wf_env e" and "1 \<le> hops e (dag_rank e)" and "hops e (dag_rank e) \<le> 63"
  shows "uint (get_topology_timeout e) = 20 - (hops e (dag_rank e) - 1) div 3"
proof -
  have m: "0 < int (min_hoprankinc e)" using assms(1) by (simp add: wf_env_def)
  have h: "uint (get_rank e) sdiv int (min_hoprankinc e) = hops e (dag_rank e)"
    using m by (simp add: sdiv_nonneg hops_def get_rank_def)
  have "get_topology_timeout e = word_of_int (20 - (hops e (dag_rank e) - 1) div 3)"
    unfolding get_topology_timeout_def NUM_NODES_def h using assms(2) by (simp add: sdiv_nonneg)
  moreover have "0 \<le> 20 - (hops e (dag_rank e) - 1) div 3" using assms(3) by presburger
  moreover have "20 - (hops e (dag_rank e) - 1) div 3 < 256" using assms(2) by presburger
  ultimately show ?thesis by (simp only: uint_word_of_int_u8)
qed

text \<open>
  A relay nearer to the root never waits shorter for its children's topology
  responses than one farther away, and waits longer when it is three or more
  hops nearer; up to 63 hops the timeout is between 0 and 20 seconds.
\<close>

lemma topology_timeout_decreases:
  assumes "wf_env e" and "wf_env e'" and "1 \<le> hops e (dag_rank e)"
    and "hops e (dag_rank e) \<le> hops e' (dag_rank e')" and "hops e' (dag_rank e') \<le> 63"
  shows "get_topology_timeout e' \<le> get_topology_timeout e \<and>
    (hops e (dag_rank e) + 3 \<le> hops e' (dag_rank e') \<longrightarrow> get_topology_timeout e' < get_topology_timeout e)
    \<and> get_topology_timeout e \<le> 20"
proof -
  have "uint (get_topology_timeout e) = 20 - (hops e (dag_rank e) - 1) div 3"
    and "uint (get_topology_timeout e') = 20 - (hops e' (dag_rank e') - 1) div 3"
    using assms by (auto intro!: topology_timeout_eq)
  moreover have "(hops e (dag_rank e) - 1) div 3 \<le> (hops e' (dag_rank e') - 1) div 3"
    using assms(4) by (intro zdiv_mono1) auto
  moreover have "hops e (dag_rank e) + 3 \<le> hops e' (dag_rank e') \<Longrightarrow>
      (hops e (dag_rank e) - 1) div 3 < (hops e' (dag_rank e') - 1) div 3"
    by presburger
  moreover have "0 \<le> (hops e (dag_rank e) - 1) div 3" using assms(3) by simp
  ultimately show ?thesis by (simp add: word_le_def word_less_def)
qed

lemma topology_timeout_decreases_witness:
  "get_topology_timeout (sample_env 1 1280 []) < get_topology_timeout (sample_env 2 512 [])"
  using topology_timeout_decreases [of "sample_env 2 512 []" "sample_env 1 1280 []"]
  by (simp add: hops_def initial_relay_def)



end
