(* ===== verification/Client.thy ===== *)
theory Client
  imports Relay_Facts
begin

text \<open>
  \<open>client-node/udp-client.c\<close>: a client answers every request it receives on the
  multicast group with its own checksum, and the requests of the second round
  over unicast. The record \<open>client\<close> holds its static variables.
\<close>

subsection \<open>State and operations\<close>

record client =
  checksum :: u64
  client_ctimer_resp :: response_pkt
  client_outs :: "effect list"

definition initial_client :: client where
  "initial_client = \<lparr>checksum = 0, client_ctimer_resp = zero_response, client_outs = []\<rparr>"

definition client_emit :: "effect \<Rightarrow> client \<Rightarrow> client" where
  "client_emit f s = s\<lparr>client_outs := client_outs s @ [f]\<rparr>"

text \<open>\<open>checksum_receiver\<close> only prints.\<close>

definition client_checksum_receiver :: "u8 list \<Rightarrow> client \<Rightarrow> client" where
  "client_checksum_receiver data s = s"

definition client_create_broadcast_conn :: "client \<Rightarrow> client" where
  "client_create_broadcast_conn s = client_emit (Register 4010) s"

definition client_broadcast_to_parents :: "client \<Rightarrow> client" where
  "client_broadcast_to_parents s =
     client_emit (Broadcast_sendto (response_bytes (client_ctimer_resp s))) s"

text \<open>The checksum is kept in the static variable for the second round.\<close>

definition client_create_response ::
  "env \<Rightarrow> request_packet \<Rightarrow> response_pkt \<Rightarrow> client \<Rightarrow> bool \<times> response_pkt \<times> client" where
  "client_create_response e mpkt resp s =
     (let (ok, c) = attest_memory e (seed mpkt); s = s\<lparr>checksum := c\<rparr>
      in if ok \<noteq> 0 then
           (True,
            if req_pkt_type mpkt = TOPOLOGY then
              set_topo_max_leaf_rank (get_rank e) (set_topo_checksum (checksum s)
                (set_topo_pathindex 1 (set_path_at 0 (get_my_id e)
                  (resp\<lparr>pkt_type := TOPOLOGY\<rparr>))))
            else if req_pkt_type mpkt = ATTESTATION then
              set_att_checksum (checksum s) (resp\<lparr>pkt_type := ATTESTATION\<rparr>)
            else resp, s)
         else (False, resp, s))"

definition client_unicast_send_to_sink :: "client \<Rightarrow> client" where
  "client_unicast_send_to_sink s =
     client_emit (Sink_sendto (sec_rnd_bytes \<lparr>sr_max_index = 0, sr_checksum = checksum s\<rparr>)) s"

definition client_udp_secreq_callback :: "u8 list \<Rightarrow> client \<Rightarrow> client" where
  "client_udp_secreq_callback data s =
     (if req_pkt_type (request_of_bytes data) = SECOND_ROUND
      then client_unicast_send_to_sink s else s)"

text \<open>
  The braces after \<open>if(create_response(...)) ctimer_resp = resp;\<close> are not part
  of the \<open>if\<close>: with \<open>BROADCAST_TO_PARENTS\<close> the client sends in either case.
\<close>

definition client_tcpip_handler :: "build \<Rightarrow> env \<Rightarrow> bool \<Rightarrow> u8 list \<Rightarrow> client \<Rightarrow> client" where
  "client_tcpip_handler b e newdata data s =
     (if newdata then
        let mpkt = request_of_bytes data;
            (ok, resp, s) = client_create_response e mpkt zero_response s
        in if broadcast_to_parents_on b then
             let s = (if ok then s\<lparr>client_ctimer_resp := resp\<rparr> else s)
             in if attestation_time_test b then
                  if req_pkt_type mpkt = TOPOLOGY
                  then s\<lparr>client_outs := send_to_parents e resp 1 (client_outs s)\<rparr>
                  else if binary_tree b then
                    if get_my_id e mod 2 = 0 then client_broadcast_to_parents s
                    else client_emit (Ctimer_set P_timer (90 * (clock_second e div 1000))
                           Call_broadcast_to_parents) s
                  else client_broadcast_to_parents s
                else client_broadcast_to_parents s
           else if ok then s\<lparr>client_outs := send_to_parents e resp 1 (client_outs s)\<rparr>
           else s
      else s)"

definition client_join_mcast_group :: "env \<Rightarrow> client \<Rightarrow> bool \<times> client" where
  "client_join_mcast_group e s = (mcast_add_ok e, 
      client_emit (Mcast_join [0xFF1E, 0, 0, 0, 0, 0, 0x89, 0xABCA]) s)"

text \<open>\<open>None\<close>: the process exits because it cannot join the group.\<close>

definition start_client :: "build \<Rightarrow> env \<Rightarrow> client \<Rightarrow> client option" where
  "start_client b e s =
     (let (rv, s) = client_join_mcast_group e s
      in if \<not> rv then None
         else
           let s = client_emit (Udp_bind 5001) (client_emit Udp_new s);
               s = client_emit (Register 12345) s;
               s = (if broadcast_to_parents_on b then client_create_broadcast_conn s else s)
           in Some (client_emit (Ctimer_set Rpl_timer (STOP_PARENT_SWITCH * clock_second e)
                Call_network_settled) s))"

datatype client_event =
    Client_checksum_rx "u8 list"
  | Client_tcpip_event bool "u8 list"
  | Client_secreq_rx "u8 list"
  | Client_broadcast_timer

fun client_step :: "build \<Rightarrow> env \<Rightarrow> client_event \<Rightarrow> client \<Rightarrow> client" where
  "client_step b e (Client_checksum_rx data) s = client_checksum_receiver data s"
| "client_step b e (Client_tcpip_event newdata data) s = client_tcpip_handler b e newdata data s"
| "client_step b e (Client_secreq_rx data) s = client_udp_secreq_callback data s"
| "client_step b e Client_broadcast_timer s = client_broadcast_to_parents s"

subsection \<open>What a client answers\<close>

lemma client_create_response_eq:
  "client_create_response e mpkt resp s =
     (True, snd (create_response e mpkt resp), s\<lparr>checksum := own_checksum e\<rparr>)"
  by (simp add: client_create_response_def create_response_def attest_memory_own Let_def)

text \<open>The answer of the shipped build to a request of type \<open>t\<close>.\<close>

definition client_answer :: "env \<Rightarrow> u8 \<Rightarrow> response_pkt" where
  "client_answer e t = snd (create_response e \<lparr>req_pkt_type = t, seed = 0\<rparr> zero_response)"

lemma create_response_seed:
  "create_response e mpkt resp = create_response e (mpkt\<lparr>seed := x\<rparr>) resp"
  by (simp add: create_response_def attest_memory_own)

lemma client_answer_eq:
  "snd (create_response e mpkt zero_response) = client_answer e (req_pkt_type mpkt)"
  unfolding client_answer_def
  by (subst create_response_seed [of e mpkt _ 0]) (cases mpkt, simp)

lemma client_tcpip_handler_eq:
  "client_tcpip_handler shipped_build e True data s =
     (let t = req_pkt_type (request_of_bytes data);
          s = s\<lparr>checksum := own_checksum e, client_ctimer_resp := client_answer e t\<rparr>
      in if t = TOPOLOGY
         then s\<lparr>client_outs := send_to_parents e (client_answer e t) 1 (client_outs s)\<rparr>
         else s\<lparr>client_outs := client_outs s @ [Broadcast_sendto (response_bytes (client_answer e t))]\<rparr>)"
  by (simp add: client_tcpip_handler_def client_create_response_eq client_answer_eq Let_def
      client_broadcast_to_parents_def client_emit_def)

lemma client_answer_topology:
  "topology_packet (own_checksum e) [iotlab_uid e] (dag_rank e) (client_answer e TOPOLOGY)"
  unfolding client_answer_def by (rule create_response_topology) simp_all

lemma client_answer_attestation:
  "pkt_type (client_answer e ATTESTATION) = ATTESTATION"
  "att_checksum (client_answer e ATTESTATION) = own_checksum e"
  by (simp_all add: client_answer_def create_response_def attest_memory_own)

lemma client_answer_other:
  "t \<noteq> TOPOLOGY \<Longrightarrow> t \<noteq> ATTESTATION \<Longrightarrow> client_answer e t = zero_response"
  by (simp add: client_answer_def create_response_def attest_memory_own)

subsection \<open>Properties\<close>

text \<open>
  What a client sends for a request of the border router: for a topology
  request its id, rank and checksum to every RPL neighbour, parent or not; for
  an attestation request its checksum by broadcast; for any other type, which no
  branch of the code treats, a broadcast packet of zeros all the same. In each
  case it keeps its checksum for the second round.
\<close>

lemma client_answers_request:
  "\<exists>r s'. client_tcpip_handler shipped_build e True (request_bytes \<lparr>req_pkt_type = t, seed = x\<rparr>) s = s' \<and>
    checksum s' = own_checksum e \<and>
    (if t = TOPOLOGY then
       topo_checksum r = own_checksum e \<and> path_of r = [iotlab_uid e] \<and> topo_max_leaf_rank r = dag_rank e \<and>
       filter is_send (client_outs s') = filter is_send (client_outs s) @
         (if udp_new_ok e (udp_new_count (client_outs s))
          then map (\<lambda>p. Unicast_sendto (p_addr p) (response_bytes r)) (rpl_parents e) else [])
     else
       client_outs s' = client_outs s @ [Broadcast_sendto (response_bytes r)] \<and>
       (if t = ATTESTATION then pkt_type r = ATTESTATION \<and> att_checksum r = own_checksum e
        else r = zero_response))"
proof -
  have "filter is_send (parent_sends e 1 r) = map (\<lambda>p. Unicast_sendto (p_addr p) (response_bytes r)) (rpl_parents e)" for r
    using sends_of_parents [of e 1 r] by (simp add: parent_sends_def)
  then show ?thesis
    using client_answer_topology [of e] client_answer_attestation [of e] client_answer_other [of t e]
    by (intro exI [of _ "client_answer e t"])
      (auto simp: client_tcpip_handler_eq Let_def topology_packet_def send_to_parents_eq)
qed

text \<open>
  C27: A relay without children stands in for a client: for topology and
  attestation requests it puts the same datagrams on the air. It ignores other
  requests, which a client answers with zeros.
\<close>

theorem leaf_relay_like_client:
  assumes "is_leaf (children s)" and "client_outs c = outs s"
  shows "\<exists>s'. relay_step shipped_build lib e (Tcpip_event True src (request_bytes \<lparr>req_pkt_type = t, seed = x\<rparr>)) s
      = Inr s' \<and>
    (let c' = client_tcpip_handler shipped_build e True (request_bytes \<lparr>req_pkt_type = t, seed = x\<rparr>) c
     in if t = TOPOLOGY \<or> t = ATTESTATION then outs s' = client_outs c'
        else outs s' = outs s \<and> client_outs c' = outs s @ [Broadcast_sendto (response_bytes zero_response)])"
proof -
  obtain ok r where cr: "create_response e \<lparr>req_pkt_type = t, seed = x\<rparr> zero_response = (ok, r)"
    by (cases "create_response e \<lparr>req_pkt_type = t, seed = x\<rparr> zero_response") auto
  then have ok and r: "r = client_answer e t"
    using create_response_fst [of e "\<lparr>req_pkt_type = t, seed = x\<rparr>" zero_response]
      client_answer_eq [of e "\<lparr>req_pkt_type = t, seed = x\<rparr>"] by simp_all
  then show ?thesis
    using assms cr client_answer_other [of t e]
    by (auto simp: client_tcpip_handler_eq Let_def mcast_tcpip_handler_def broadcast_to_parents_def)
qed

lemma leaf_relay_like_client_witness:
  "\<exists>s'. relay_step shipped_build sample_lib (sample_env 1 768 [])
      (Tcpip_event True (sample_ip 9) (request_bytes \<lparr>req_pkt_type = 40, seed = 1234\<rparr>)) initial_relay = Inr s' \<and>
    outs s' = client_outs (client_tcpip_handler shipped_build (sample_env 1 768 []) True
      (request_bytes \<lparr>req_pkt_type = 40, seed = 1234\<rparr>) initial_client)"
  using leaf_relay_like_client [of initial_relay initial_client sample_lib "sample_env 1 768 []" "sample_ip 9" 40 1234]
  by (simp add: initial_relay_def initial_client_def is_leaf_def get_child_count_def Let_def type_defs
      del: relay_step.simps)

text \<open>
  In the second round they differ: the client answers with its checksum, the
  relay without children with \<open>my_checksum\<close>, which only a relay with children
  ever computes and which is zero.
\<close>

lemma leaf_relay_second_round:
  assumes "is_leaf (children s)" and "my_checksum s = 0" and "first_round_completed s = 1"
    and "max_index s = 0"
  shows "rbind (relay_step b lib e (Tcpip_event True src (request_bytes q)) s)
      (relay_step b lib e (Secreq_rx (request_bytes \<lparr>req_pkt_type = SECOND_ROUND, seed = x\<rparr>))) =
    rbind (relay_step b lib e (Tcpip_event True src (request_bytes q)) s) (\<lambda>s'.
      Inr (emit (Sink_sendto (sec_rnd_bytes \<lparr>sr_max_index = 0, sr_checksum = 0\<rparr>)) s')) \<and>
    client_udp_secreq_callback (request_bytes \<lparr>req_pkt_type = SECOND_ROUND, seed = x\<rparr>)
        (client_tcpip_handler shipped_build e True (request_bytes q) c) =
      client_emit (Sink_sendto (sec_rnd_bytes \<lparr>sr_max_index = 0, sr_checksum = own_checksum e\<rparr>))
        (client_tcpip_handler shipped_build e True (request_bytes q) c)"
proof -
  have "checksum (client_tcpip_handler shipped_build e True (request_bytes q) c) = own_checksum e"
    by (simp add: client_tcpip_handler_eq Let_def)
  moreover have "my_checksum s' = 0 \<and> first_round_completed s' = 1 \<and> max_index s' = 0"
    if "s' = mcast_tcpip_handler b e True (request_bytes q) s" for s'
    using that assms(2-4)
    by (simp add: mcast_tcpip_handler_def case_prod_unfold Let_def broadcast_to_parents_def)
  ultimately show ?thesis
    using assms(1)
    by (simp add: udp_secreq_callback_def unicast_send_to_sink_def client_udp_secreq_callback_def
        client_unicast_send_to_sink_def)
qed

lemma leaf_relay_second_round_witness:
  "client_udp_secreq_callback (request_bytes \<lparr>req_pkt_type = SECOND_ROUND, seed = 0\<rparr>)
      (client_tcpip_handler shipped_build (sample_env 1 768 []) True
        (request_bytes \<lparr>req_pkt_type = 40, seed = 1234\<rparr>) initial_client) =
    client_emit (Sink_sendto (sec_rnd_bytes \<lparr>sr_max_index = 0, sr_checksum = own_checksum (sample_env 1 768 [])\<rparr>))
      (client_tcpip_handler shipped_build (sample_env 1 768 []) True
        (request_bytes \<lparr>req_pkt_type = 40, seed = 1234\<rparr>) initial_client)"
proof -
  have "is_leaf (children initial_relay)" "my_checksum initial_relay = 0"
    "first_round_completed initial_relay = 1" "max_index initial_relay = 0"
    by (simp_all add: initial_relay_def is_leaf_def get_child_count_def)
  from leaf_relay_second_round [OF this] show ?thesis by blast
qed

end
