(* ===== verification/Border_Router.thy ===== *)
theory Border_Router
  imports Platform
begin

text \<open>
  \<open>border-router-server/border-router.c\<close> without its web page: the requests of
  the verifier, the multicast to the nodes, the responses that come back, the
  prefix of the network and the process. The lines the border router prints for
  the verifier's scripts (\<open>LOG_DBG_PY\<close>, \<open>printf\<close>) are part of its output.
  The width of Contiki's \<open>clock_time_t\<close> is a type variable.
\<close>

subsection \<open>State\<close>

record br_req_pkt =
  req_type :: u8
  run_count :: u8

datatype br_output =
    Print_request u8
  | Print_agg_path "u16 list"
  | Print_checksum u32 u16
  | Print_received int
  | Print_start u32
  | Print_stop u8 u32 u32 u32  \<comment> \<open>run count, difference, first, second\<close>
  | Print_done
  | Mcast_out "u8 list"
  | Slip_out "u8 list"
  | Addr_add ipaddr
  | Set_root ipaddr
  | Set_rpl_prefix ipaddr nat
  | Mac_off
  | Mac_on
  | Listen nat
  | Open_mcast "u16 list" nat  \<comment> \<open>\<open>udp_new\<close> to the group with this address, and port\<close>
  | Etimer_set
  | Repair_root
  | Sensors_on
  | Orchestra_init
  | Print_heading  \<comment> \<open>\<open>Server IPv6 addresses:\<close>\<close>
  | Print_address ipaddr

record 't border =
  ct :: 't
  ct1 :: 't
  time_diff :: 't
  ct2 :: 't
  cnt :: int
  prefix :: ipaddr
  prefix_set :: u8
  br_out :: "br_output list"

text \<open>What the border router reads from Contiki: the entries of \<open>uip_ds6_if.addr_list\<close> among it.\<close>

datatype ds6_state = ADDR_TENTATIVE | ADDR_PREFERRED | ADDR_DEPRECATED

record ds6_addr =
  isused :: bool
  ds6_state :: ds6_state
  ds6_ipaddr :: ipaddr

record 't br_env =
  clock_time :: 't
  set_addr_iid :: "ipaddr \<Rightarrow> ipaddr"  \<comment> \<open>\<open>uip_ds6_set_addr_iid(., &uip_lladdr)\<close>\<close>
  set_root_ok :: bool  \<comment> \<open>does \<open>rpl_set_root\<close> return a dag\<close>
  addr_list :: "ds6_addr list"

definition br_emit :: "br_output \<Rightarrow> 't border \<Rightarrow> 't border" where
  "br_emit f s = s\<lparr>br_out := br_out s @ [f]\<rparr>"

definition initial_border :: "'c::len word border" where
  "initial_border = \<lparr>ct = 0, ct1 = 0, time_diff = 0, ct2 = 0, cnt = 0,
     prefix = replicate 16 0, prefix_set = 0, br_out = []\<rparr>"

subsection \<open>Towards the nodes\<close>

definition multicast_send :: "u8 \<Rightarrow> 't border \<Rightarrow> 't border" where
  "multicast_send token s =
     (let mpkt = \<lparr>req_pkt_type = token, seed = 1234\<rparr>
      in br_emit (Mcast_out (request_bytes mpkt)) s)"

subsection \<open>From the nodes\<close>

fun print_path :: "response_pkt \<Rightarrow> nat list \<Rightarrow> u16 list res" where
  "print_path resp [] = Inr []"
| "print_path resp (i # is) =
     rbind (topo_path resp i) (\<lambda>v. rbind (print_path resp is) (\<lambda>vs. Inr (v # vs)))"

definition udp_checksum_callback :: "ipaddr \<Rightarrow> u8 list \<Rightarrow> 't border \<Rightarrow> 't border res" where
  "udp_checksum_callback sender data s =
     (let resp = response_of_bytes data
      in if pkt_type resp = TOPOLOGY then
           rbind (print_path resp [0..<unat (topo_pathindex resp)]) (\<lambda>path.
             Inr (br_emit (Print_checksum (ucast (topo_checksum resp)) (get_id_from_addr sender))
               (br_emit (Print_agg_path path) s)))
         else if pkt_type resp = ATTESTATION then
           let s = s\<lparr>cnt := cnt s + 1\<rparr>
           in Inr (br_emit (Print_received (cnt s))
                (br_emit (Print_checksum (ucast (att_checksum resp)) (get_id_from_addr sender)) s))
         else Inr s)"

subsection \<open>From the verifier\<close>

definition br_req_of_bytes :: "u8 list \<Rightarrow> br_req_pkt" where
  "br_req_of_bytes bs = \<lparr>req_type = bs ! 0, run_count = bs ! 1\<rparr>"

text \<open>
  \<open>SECOND_TIME_DONE\<close> prints the address of the function \<open>clock_time\<close>, not its
  result; the output has no value for it.
\<close>

definition br_tcpip_handler :: "'c::len word br_env \<Rightarrow> u8 list \<Rightarrow> 'c::len word border \<Rightarrow> 'c::len word border" where
  "br_tcpip_handler e data s =
     (let rpkt = br_req_of_bytes data;
          s = br_emit (Print_request (req_type rpkt)) s;
          s = s\<lparr>cnt := 0\<rparr>
      in if req_type rpkt = TOPOLOGY \<or> req_type rpkt = ATTESTATION
         then multicast_send (req_type rpkt) s
         else if req_type rpkt = SECOND_TIME_START then
           let s = s\<lparr>ct := clock_time e\<rparr>;
               s = s\<lparr>ct2 := ct s\<rparr>
           in br_emit (Print_start (ucast (ct2 s))) s
         else if req_type rpkt = SECOND_TIME_STOP then
           let s = s\<lparr>ct1 := clock_time e\<rparr>;
               s = s\<lparr>time_diff := ct1 s - ct s\<rparr>;
               s = br_emit (Print_stop (run_count rpkt) (ucast (time_diff s)) (ucast (ct s))
                     (ucast (ct1 s))) s
           in s\<lparr>ct := ct1 s\<rparr>
         else if req_type rpkt = SECOND_TIME_DONE then br_emit Print_done s
         else s)"

subsection \<open>The prefix\<close>

definition request_prefix :: "'t border \<Rightarrow> 't border" where
  "request_prefix s = br_emit (Slip_out [of_nat (of_char CHR ''?''), of_nat (of_char CHR ''P'')]) s"

definition set_prefix_64 :: "'t br_env \<Rightarrow> ipaddr \<Rightarrow> 't border \<Rightarrow> 't border" where
  "set_prefix_64 e prefix_64 s =
     (let s = s\<lparr>prefix := prefix_64\<rparr>;
          ipaddr = prefix_64;
          s = s\<lparr>prefix_set := 1\<rparr>;
          ipaddr = set_addr_iid e ipaddr;
          s = br_emit (Addr_add ipaddr) s;
          s = br_emit (Set_root ipaddr) s
      in if set_root_ok e then br_emit (Set_rpl_prefix (prefix s) 64) s else s)"

subsection \<open>The process\<close>

text \<open>Where the process thread waits.\<close>

datatype br_phase = Boot | Awaiting_prefix | Running

definition br_verifier_port :: nat where "br_verifier_port = 12345"
definition br_checksum_port :: nat where "br_checksum_port = 4010"
definition br_mcast_port :: nat where "br_mcast_port = 5001"
definition br_unicast_checksum_port :: nat where "br_unicast_checksum_port = 4005"

definition create_broadcast_conn_server :: "'t border \<Rightarrow> 't border" where
  "create_broadcast_conn_server s = br_emit (Listen br_checksum_port) s"

definition prepare_mcast :: "'t border \<Rightarrow> 't border" where
  "prepare_mcast s = br_emit (Open_mcast [0xFF1E, 0, 0, 0, 0, 0, 0x89, 0xABCA] br_mcast_port) s"

fun print_addresses :: "ds6_addr list \<Rightarrow> 't border \<Rightarrow> 't border" where
  "print_addresses [] s = s"
| "print_addresses (a # as) s = print_addresses as
     (if isused a \<and> (ds6_state a = ADDR_TENTATIVE \<or> ds6_state a = ADDR_PREFERRED)
      then br_emit (Print_address (ds6_ipaddr a)) s else s)"

definition print_local_addresses :: "'t br_env \<Rightarrow> 't border \<Rightarrow> 't border" where
  "print_local_addresses e s = print_addresses (addr_list e) (br_emit Print_heading s)"

declare create_broadcast_conn_server_def [simp] prepare_mcast_def [simp]

definition br_start_running :: "build \<Rightarrow> 't br_env \<Rightarrow> 't border \<Rightarrow> 't border" where
  "br_start_running b e s =
     (let s = br_emit Mac_on s;
          s = br_emit Orchestra_init s;
          s = print_local_addresses e s;
          s = br_emit (Listen br_verifier_port) s;
          s = (if broadcast_to_parents_on b then create_broadcast_conn_server s
               else br_emit (Listen br_unicast_checksum_port) s);
          s = (if attestation_time_test b then br_emit (Listen br_unicast_checksum_port) s else s)
      in prepare_mcast s)"

text \<open>The head of the loop \<open>while(!prefix_set)\<close>.\<close>

definition br_prefix_loop :: "build \<Rightarrow> 't br_env \<Rightarrow> 't border \<Rightarrow> br_phase \<times> 't border" where
  "br_prefix_loop b e s =
     (if prefix_set s = 0 then (Awaiting_prefix, request_prefix (br_emit Etimer_set s))
      else (Running, br_start_running b e s))"

datatype br_event =
    Br_continue  \<comment> \<open>the process is polled after \<open>PROCESS_PAUSE\<close>\<close>
  | Br_timer  \<comment> \<open>\<open>et\<close> has expired\<close>
  | Br_prefix ipaddr  \<comment> \<open>\<open>set_prefix_64\<close> called by the SLIP bridge\<close>
  | Br_tcpip "u8 list"
  | Br_checksum ipaddr "u8 list"
  | Br_button

definition br_init :: "'t border \<Rightarrow> br_phase \<times> 't border" where
  "br_init s = (Boot, br_emit Mac_off (s\<lparr>prefix_set := 0\<rparr>))"

fun br_step :: "build \<Rightarrow> 'c::len word br_env \<Rightarrow> br_event \<Rightarrow> br_phase \<times> 'c::len word border
    \<Rightarrow> (br_phase \<times> 'c::len word border) res" where
  "br_step b e (Br_prefix p) (ph, s) = Inr (ph, set_prefix_64 e p s)"
| "br_step b e Br_continue (Boot, s) = Inr (br_prefix_loop b e (br_emit Sensors_on s))"
| "br_step b e Br_timer (Awaiting_prefix, s) = Inr (br_prefix_loop b e s)"
| "br_step b e (Br_tcpip data) (Running, s) = Inr (Running, br_tcpip_handler e data s)"
| "br_step b e (Br_checksum sender data) (Running, s) =
     rbind (udp_checksum_callback sender data s) (\<lambda>s. Inr (Running, s))"
| "br_step b e Br_button (Running, s) = Inr (Running, br_emit Repair_root s)"
| "br_step b e _ ps = Inr ps"

subsection \<open>Facts\<close>

lemma br_emit_simps [simp]:
  "ct (br_emit f s) = ct s" "ct1 (br_emit f s) = ct1 s" "ct2 (br_emit f s) = ct2 s"
  "time_diff (br_emit f s) = time_diff s" "cnt (br_emit f s) = cnt s"
  "prefix (br_emit f s) = prefix s" "prefix_set (br_emit f s) = prefix_set s"
  "br_out (br_emit f s) = br_out s @ [f]"
  by (simp_all add: br_emit_def)

lemma print_path_eq:
  "print_path resp is =
     (if \<forall>i\<in>set is. i < MAX_PATH_NODES then Inr (map (\<lambda>i. path_at i resp) is)
      else Inl Out_of_bounds)"
  by (induction "is") (auto simp: topo_path_def)

lemma udp_checksum_callback_topology:
  assumes "pkt_type r = TOPOLOGY" and "wf_response r"
  shows "udp_checksum_callback sender (response_bytes r) s =
    (if unat (topo_pathindex r) \<le> MAX_PATH_NODES
     then Inr (br_emit (Print_checksum (ucast (topo_checksum r)) (get_id_from_addr sender))
       (br_emit (Print_agg_path (path_prefix (unat (topo_pathindex r)) r)) s))
     else Inl Out_of_bounds)"
proof -
  have "(\<forall>i\<in>set [0..<n]. i < MAX_PATH_NODES) \<longleftrightarrow> n \<le> MAX_PATH_NODES" for n
    by (auto simp: not_less)
  with assms show ?thesis
    by (simp add: udp_checksum_callback_def print_path_eq path_prefix_def)
qed

lemma udp_checksum_callback_attestation:
  assumes "pkt_type r = ATTESTATION" and "wf_response r"
  shows "udp_checksum_callback sender (response_bytes r) s = Inr (
    br_emit (Print_received (cnt s + 1))
      (br_emit (Print_checksum (ucast (att_checksum r)) (get_id_from_addr sender))
        (s\<lparr>cnt := cnt s + 1\<rparr>)))"
  using assms by (simp add: udp_checksum_callback_def Let_def)

lemma type_distinct [simp]:
  "SECOND_TIME_START \<noteq> TOPOLOGY" "SECOND_TIME_START \<noteq> ATTESTATION"
  "SECOND_TIME_STOP \<noteq> TOPOLOGY" "SECOND_TIME_STOP \<noteq> ATTESTATION"
  "SECOND_TIME_STOP \<noteq> SECOND_TIME_START" "SECOND_TIME_START \<noteq> SECOND_TIME_STOP"
  "SECOND_TIME_DONE \<noteq> TOPOLOGY" "SECOND_TIME_DONE \<noteq> ATTESTATION"
  "SECOND_TIME_DONE \<noteq> SECOND_TIME_START" "SECOND_TIME_DONE \<noteq> SECOND_TIME_STOP"
  by (simp_all add: type_defs)

text \<open>The addresses in use that are printed, in the order of the table.\<close>

abbreviation shown_address :: "ds6_addr \<Rightarrow> bool" where
  "shown_address a \<equiv> isused a \<and> ds6_state a \<noteq> ADDR_DEPRECATED"

lemma print_addresses_eq:
  "print_addresses as s =
     s\<lparr>br_out := br_out s @ map (Print_address \<circ> ds6_ipaddr) (filter shown_address as)\<rparr>"
proof (induction as arbitrary: s)
  case (Cons a as)
  then show ?case by (cases "ds6_state a") (simp_all add: br_emit_def)
qed simp

lemma print_local_addresses_simps [simp]:
  "prefix_set (print_local_addresses e s) = prefix_set s"
  "br_out (print_local_addresses e s) = br_out s @ Print_heading #
     map (Print_address \<circ> ds6_ipaddr) (filter shown_address (addr_list e))"
  by (simp_all add: print_local_addresses_def print_addresses_eq)

subsection \<open>Timing the second round\<close>

text \<open>A session of the verifier: one start, then a stop after every run.\<close>

fun stop_runs :: "(u8 \<times> 'c::len word br_env) list \<Rightarrow> 'c::len word border \<Rightarrow> 'c::len word border" where
  "stop_runs [] s = s"
| "stop_runs ((n, e) # runs) s = stop_runs runs (br_tcpip_handler e [SECOND_TIME_STOP, n] s)"

fun diffs :: "'c::len word \<Rightarrow> 'c word list \<Rightarrow> 'c word list" where
  "diffs t [] = []"
| "diffs t (t' # ts) = (t' - t) # diffs t' ts"

definition reported :: "br_output list \<Rightarrow> (u8 \<times> u32) list" where
  "reported os = concat (map (\<lambda>f. case f of Print_stop n d _ _ \<Rightarrow> [(n, d)] | _ \<Rightarrow> []) os)"

lemma reported_append [simp]: "reported (xs @ ys) = reported xs @ reported ys"
  by (simp add: reported_def)

lemma sum_list_diffs: "sum_list (diffs t ts) = last (t # ts) - t"
  by (induction ts arbitrary: t) auto

lemma br_tcpip_handler_stop:
  "br_tcpip_handler e [SECOND_TIME_STOP, n] s =
     (let s' = br_emit (Print_request SECOND_TIME_STOP) s
      in (br_emit (Print_stop n (ucast (clock_time e - ct s)) (ucast (ct s)) (ucast (clock_time e))) s')
         \<lparr>cnt := 0, ct1 := clock_time e, time_diff := clock_time e - ct s, ct := clock_time e\<rparr>)"
  by (simp add: br_tcpip_handler_def br_req_of_bytes_def Let_def br_emit_def)

lemma stop_runs_reported:
  "reported (br_out (stop_runs runs s)) = reported (br_out s) @
     zip (map fst runs) (map ucast (diffs (ct s) (map (\<lambda>r. clock_time (snd r)) runs)))"
  by (induction runs s rule: stop_runs.induct)
    (simp_all add: br_tcpip_handler_stop Let_def reported_def)

subsection \<open>The prefix\<close>

lemma set_prefix_64_simps [simp]:
  "prefix (set_prefix_64 e p s) = p" "prefix_set (set_prefix_64 e p s) = 1"
  by (simp_all add: set_prefix_64_def Let_def)

fun is_radio_use :: "br_output \<Rightarrow> bool" where
  "is_radio_use Mac_on = True"
| "is_radio_use (Mcast_out bs) = True"
| "is_radio_use (Listen p) = True"
| "is_radio_use _ = False"

text \<open>The border router as a machine: an event comes with what Contiki supplies in it.\<close>

definition br_machine :: "build \<Rightarrow> 'c::len word br_env \<times> br_event \<Rightarrow> br_phase \<times> 'c word border
    \<Rightarrow> (br_phase \<times> 'c word border) res" where
  "br_machine b ev = br_step b (fst ev) (snd ev)"

definition br_start :: "br_phase \<times> 'c::len word border \<Rightarrow> bool" where
  "br_start ps \<longleftrightarrow> ps = br_init initial_border"

abbreviation br_reachable :: "build \<Rightarrow> br_phase \<times> 'c::len word border \<Rightarrow> bool" where
  "br_reachable b \<equiv> reachable br_start (\<lambda>ev ps. True) (br_machine b)"

definition br_inv :: "br_phase \<times> 't border \<Rightarrow> bool" where
  "br_inv ps \<longleftrightarrow> (case ps of (ph, s) \<Rightarrow>
     if ph = Running then prefix_set s = 1 \<and> Mac_on \<in> set (br_out s)
     else (prefix_set s = 0 \<or> prefix_set s = 1) \<and> (\<forall>f\<in>set (br_out s). \<not> is_radio_use f))"

lemma out_multicast_send [simp]:
  "prefix_set (multicast_send t s) = prefix_set s"
  "br_out (multicast_send t s) = br_out s @ [Mcast_out (request_bytes \<lparr>req_pkt_type = t, seed = 1234\<rparr>)]"
  by (simp_all add: multicast_send_def Let_def)

lemma br_tcpip_handler_keeps [simp]:
  "prefix_set (br_tcpip_handler e data s) = prefix_set s"
  "set (br_out s) \<subseteq> set (br_out (br_tcpip_handler e data s))"
  by (auto simp: br_tcpip_handler_def Let_def)

lemma udp_checksum_callback_keeps:
  "udp_checksum_callback a d s = Inr s' \<Longrightarrow>
     prefix_set s' = prefix_set s \<and> set (br_out s) \<subseteq> set (br_out s')"
  by (auto simp: udp_checksum_callback_def Let_def split: if_splits)

lemma br_inv_prefix_loop:
  "br_inv (ph, s) \<Longrightarrow> ph \<noteq> Running \<Longrightarrow> br_inv (br_prefix_loop b e s)"
  by (auto simp: br_inv_def br_prefix_loop_def br_start_running_def request_prefix_def Let_def)

lemma br_inv_sensors: "br_inv (Boot, s) \<Longrightarrow> br_inv (Boot, br_emit Sensors_on s)"
  by (auto simp: br_inv_def)

lemma br_inv_set_prefix: "br_inv (ph, s) \<Longrightarrow> br_inv (ph, set_prefix_64 e p s)"
  by (auto simp: br_inv_def set_prefix_64_def Let_def)

lemma br_step_inv: "br_inv ps \<Longrightarrow> br_step b e ev ps = Inr ps' \<Longrightarrow> br_inv ps'"
proof (induction b e ev ps rule: br_step.induct)
  case (1 b e p ph s)
  then show ?case by (auto simp: br_inv_set_prefix)
next
  case (2 b e s)
  then show ?case using br_inv_prefix_loop [OF br_inv_sensors, of s b e] by simp
next
  case (3 b e s)
  then show ?case using br_inv_prefix_loop [of Awaiting_prefix s b e] by simp
next
  case (4 b e data s)
  then show ?case by (auto simp: br_inv_def intro: subsetD [OF br_tcpip_handler_keeps(2)])
next
  case (5 b e sender data s)
  then show ?case by (auto simp: br_inv_def dest!: udp_checksum_callback_keeps)
qed (auto simp: br_inv_def)

interpretation br_states: machine_invariant br_start "\<lambda>ev ps. True" "br_machine b" br_inv for b
proof unfold_locales
  show "br_start ps \<Longrightarrow> br_inv ps" for ps :: "br_phase \<times> 'a word border"
    by (simp add: br_start_def br_init_def br_inv_def initial_border_def)
  show "br_inv ps \<Longrightarrow> br_machine b ev ps = Inr ps' \<Longrightarrow> br_inv ps'" for ev and ps ps' :: "br_phase \<times> 'a word border"
    unfolding br_machine_def by (rule br_step_inv)
qed

subsection \<open>Properties\<close>

text \<open>
  C28: A response on the checksum port is printed for the verifier: a topology
  response with its path and checksum, if the path is not longer than the array
  of the struct (the code reads past it otherwise), an attestation response with
  its checksum and the running number of responses; the checksums lose their
  upper half, and any other packet is ignored.
\<close>

theorem udp_checksum_callback_prints:
  assumes "wf_response r"
  shows "udp_checksum_callback sender (response_bytes r) s =
    (if pkt_type r = TOPOLOGY then
       if MAX_PATH_NODES < unat (topo_pathindex r) then Inl Out_of_bounds
       else Inr (s\<lparr>br_out := br_out s @
         [Print_agg_path (path_prefix (unat (topo_pathindex r)) r),
          Print_checksum (ucast (topo_checksum r)) (get_id_from_addr sender)]\<rparr>)
     else if pkt_type r = ATTESTATION then
       Inr (s\<lparr>cnt := cnt s + 1, br_out := br_out s @
         [Print_checksum (ucast (att_checksum r)) (get_id_from_addr sender), Print_received (cnt s + 1)]\<rparr>)
     else Inr s)"
  using assms udp_checksum_callback_topology [of r sender s] udp_checksum_callback_attestation [of r sender s]
  by (auto simp: br_emit_def) (simp add: udp_checksum_callback_def)

lemma udp_checksum_callback_prints_witness:
  "udp_checksum_callback (sample_ip 3) (response_bytes
      (set_topo_pathindex 11 (zero_response\<lparr>pkt_type := TOPOLOGY\<rparr>))) initial_border = Inl Out_of_bounds"
  by (subst udp_checksum_callback_prints) (simp_all add: size_defs)

text \<open>
  Between a start and the last of its stops the border router reports one
  duration per run, with the number of the run; each is the time since the
  previous stop, and together they make up the time since the start, modulo the
  width of the clock.
\<close>

lemma second_round_timing:
  "reported (br_out (stop_runs runs (br_tcpip_handler e [SECOND_TIME_START, n] s))) =
      reported (br_out s) @ zip (map fst runs)
        (map ucast (diffs (clock_time e) (map (\<lambda>r. clock_time (snd r)) runs))) \<and>
    sum_list (diffs (clock_time e) (map (\<lambda>r. clock_time (snd r)) runs)) =
      last (clock_time e # map (\<lambda>r. clock_time (snd r)) runs) - clock_time e"
proof -
  have "ct (br_tcpip_handler e [SECOND_TIME_START, n] s) = clock_time e"
    and "reported (br_out (br_tcpip_handler e [SECOND_TIME_START, n] s)) = reported (br_out s)"
    by (simp_all add: br_tcpip_handler_def br_req_of_bytes_def Let_def reported_def)
  then show ?thesis by (simp add: stop_runs_reported sum_list_diffs)
qed

text \<open>
  C29: As long as the host has not set the prefix, the border router neither
  turns its radio on nor listens nor sends; once the process runs, the prefix is
  set and the radio was turned on.
\<close>

theorem radio_silent_until_prefix:
  assumes "br_reachable b (ph, s)"
  shows "if ph = Running then prefix_set s = 1 \<and> Mac_on \<in> set (br_out s)
    else list_all (\<lambda>f. \<not> is_radio_use f) (br_out s)"
  using br_states.holds [OF assms] by (simp add: br_inv_def list_all_iff split: if_splits)

lemma radio_silent_until_prefix_witness:
  "list_all (\<lambda>f. \<not> is_radio_use f) (br_out (snd (br_init (initial_border :: 32 word border))))"
proof -
  obtain ph s where init: "br_init (initial_border :: 32 word border) = (ph, s)" by fastforce
  then have "ph = Boot" by (simp add: br_init_def)
  moreover have "br_reachable shipped_build (ph, s)"
    unfolding init [symmetric] by (rule reachable.start) (simp add: br_start_def)
  from radio_silent_until_prefix [OF this] have "ph \<noteq> Running \<Longrightarrow> list_all (\<lambda>f. \<not> is_radio_use f) (br_out s)"
    by simp
  ultimately show ?thesis unfolding init by simp
qed

end
