(* ===== verification/Network.thy ===== *)
theory Network
  imports Relay_Attestation Client Border_Router
begin

text \<open>
  The nodes together: a topology request answered by a tree of nodes. The
  leaves run \<open>udp-client.c\<close>, the inner nodes \<open>udp-relay.c\<close>, the border router
  receives what the top of a tree sends. Every packet goes through the bytes of
  its struct. The order of the subtrees in the tree is the order in which their
  responses arrive; it is any order of the children.
\<close>

subsection \<open>Running a tree\<close>

datatype node = Node (node_env: env) (node_ip: ipaddr) (kids: "node list")

fun first_unicast :: "effect list \<Rightarrow> response_pkt option" where
  "first_unicast [] = None"
| "first_unicast (f # fs) =
     (case f of Unicast_sendto a bs \<Rightarrow> Some (response_of_bytes bs) | _ \<Rightarrow> first_unicast fs)"

definition topology_request :: "u8 list" where
  "topology_request = request_bytes \<lparr>req_pkt_type = TOPOLOGY, seed = 1234\<rparr>"

definition relay_boot :: "contiki_lib \<Rightarrow> env \<Rightarrow> relay res" where
  "relay_boot lib e =
     relay_step shipped_build lib e (Timer_expired Call_network_settled)
       (start_relay shipped_build e initial_relay)"

definition topology_round :: "contiki_lib \<Rightarrow> env \<Rightarrow> (ipaddr \<times> response_pkt) list \<Rightarrow> relay res" where
  "topology_round lib e rs = rbind (relay_boot lib e) (feed shipped_build lib e rs)"

fun answer :: "contiki_lib \<Rightarrow> node \<Rightarrow> response_pkt option"
  and answers_of :: "contiki_lib \<Rightarrow> node list \<Rightarrow> (ipaddr \<times> response_pkt) list option" where
  "answer lib (Node e a ks) =
     (if ks = [] then
        first_unicast (client_outs
          (client_tcpip_handler shipped_build e True topology_request initial_client))
      else
        (case answers_of lib ks of
           None \<Rightarrow> None
         | Some rs \<Rightarrow>
             (case topology_round lib e rs of
                Inl f \<Rightarrow> None
              | Inr s \<Rightarrow> first_unicast (outs s))))"
| "answers_of lib [] = Some []"
| "answers_of lib (k # ks) =
     (case answer lib k of
        None \<Rightarrow> None
      | Some r \<Rightarrow> map_option ((#) (node_ip k, r)) (answers_of lib ks))"

subsection \<open>The specification\<close>

fun nodes :: "node \<Rightarrow> env list" where
  "nodes (Node e a ks) = concat (map nodes ks) @ [e]"

definition ids :: "node \<Rightarrow> u16 list" where
  "ids t = map iotlab_uid (nodes t)"

definition max_list :: "u16 list \<Rightarrow> u16" where
  "max_list xs = foldr max xs 0"

fun leaf_ranks :: "node \<Rightarrow> u16 list" where
  "leaf_ranks (Node e a ks) = (if ks = [] then [dag_rank e] else concat (map leaf_ranks ks))"

definition node_checksum :: "node \<Rightarrow> u64" where
  "node_checksum t = xor_list (map own_checksum (nodes t))"

definition carries :: "node \<Rightarrow> response_pkt \<Rightarrow> bool" where
  "carries t r \<longleftrightarrow> topology_packet (node_checksum t) (ids t) (max_list (leaf_ranks t)) r"

text \<open>
  What the network must be like: an address ends in the node's id, the RPL
  neighbours of higher rank are the children, there is a parent to send to and
  a connection to send on.
\<close>

fun wf_node :: "node \<Rightarrow> bool" where
  "wf_node (Node e a ks) \<longleftrightarrow>
     get_id_from_addr a = iotlab_uid e \<and> wf_env e \<and> udp_new_ok e = (\<lambda>n. True) \<and>
     (\<exists>p\<in>set (rpl_parents e). p_rank p < dag_rank e) \<and>
     length ks \<le> MAX_CHILD \<and>
     mset (map (\<lambda>p. get_id_from_addr (p_addr p)) (child_nbrs e)) =
       mset (map (\<lambda>k. iotlab_uid (node_env k)) ks) \<and>
     (\<forall>k\<in>set ks. wf_node k)"

definition wf_network :: "node \<Rightarrow> bool" where
  "wf_network t \<longleftrightarrow> wf_node t \<and> distinct (ids t) \<and> length (ids t) \<le> MAX_PATH_NODES - 2"

subsection \<open>Lists\<close>

lemma ids_Node: "ids (Node e a ks) = concat (map ids ks) @ [iotlab_uid e]"
  by (induction ks) (simp_all add: ids_def)

lemma node_checksum_Node:
  "node_checksum (Node e a ks) = xor_list (map node_checksum ks) XOR own_checksum e"
proof -
  have "xor_list (map own_checksum (concat (map nodes ks))) = xor_list (map node_checksum ks)"
    by (induction ks) (simp_all add: node_checksum_def)
  then show ?thesis by (simp add: node_checksum_def)
qed

lemma nodes_not_Nil: "nodes t \<noteq> []"
  by (cases t) simp

lemma max_list_simps [simp]: "max_list [] = 0" "max_list (x # xs) = max x (max_list xs)"
  by (simp_all add: max_list_def)

lemma max_list_append: "max_list (xs @ ys) = max (max_list xs) (max_list ys)"
  by (induction xs) (simp_all add: max.assoc)

lemma max_list_concat: "max_list (concat xss) = max_list (map max_list xss)"
  by (induction xss) (simp_all add: max_list_append)

lemma merge_all:
  "distinct (acc @ concat xss) \<Longrightarrow> foldl merge_ids acc xss = acc @ concat xss"
proof (induction xss arbitrary: acc)
  case (Cons xs xss)
  then have "merge_ids acc xs = acc @ xs" by (intro merge_ids_disjoint) auto
  moreover have "foldl merge_ids (acc @ xs) xss = (acc @ xs) @ concat xss"
    using Cons.prems by (intro Cons.IH) auto
  ultimately show ?case by simp
qed simp

lemma rounds_leaf_rank:
  "r_leaf_rank (fold round_add rs r) = max (r_leaf_rank r) (max_list (map topo_max_leaf_rank rs))"
  by (induction rs arbitrary: r) (simp_all add: round_add_def max.assoc)

lemma first_unicast_sends: "first_unicast os = first_unicast (filter is_send os)"
proof (induction os)
  case (Cons f fs)
  then show ?case by (cases f) simp_all
qed simp


subsection \<open>A relay after it has settled\<close>

lemma start_relay_keeps [simp]:
  "children (start_relay b e s) = children s" "cur_loc (start_relay b e s) = cur_loc s"
  "paths_loc (start_relay b e s) = paths_loc s" "max_leaf_rank (start_relay b e s) = max_leaf_rank s"
  "sends (start_relay b e s) = sends s" "relay_inv (start_relay b e s) = relay_inv s"
  by (simp_all add: start_relay_def Let_def)

lemma initial_relay_simps [simp]:
  "cur_loc initial_relay = 0" "paths_loc initial_relay = 0" "max_leaf_rank initial_relay = 0"
  "sends initial_relay = []"
  by (simp_all add: initial_relay_def sends_def)

lemma relay_boot_ready:
  assumes "contiki_lib_ok lib" and "child_nbrs e \<noteq> []" and "length (child_nbrs e) \<le> MAX_CHILD"
  shows "\<exists>s. relay_boot lib e = Inr s \<and> ready s \<and> cur_loc s = 0 \<and>
    num_nodes (children s) = length (child_nbrs e) \<and>
    child_ids (children s) = map (\<lambda>p. get_id_from_addr (p_addr p)) (child_nbrs e) \<and>
    abs_round s = \<lparr>r_checksums = [], r_ids = [], r_leaf_rank = 0\<rparr> \<and> sends s = [] \<and>
    outs s = outs (start_relay shipped_build e initial_relay)"
proof -
  let ?s0 = "start_relay shipped_build e initial_relay"
  let ?t = "(children ?s0)\<lparr>child_list := map fresh_child (child_nbrs e),
    num_nodes := length (child_nbrs e), memb_used := length (child_nbrs e)\<rparr>"
  have len: "0 < length (child_nbrs e)" using assms(2) by simp
  then have leaf: "\<not> is_leaf ?t"
    using child_count_small [of ?t] assms(3) by (auto simp: is_leaf_def)
  have "relay_boot lib e = Inr (?s0\<lparr>children := ?t\<rparr>)"
    using leaf assms by (simp add: relay_boot_def network_settled_def init_child_list_eq Let_def)
  moreover have "child_ids ?t = map (\<lambda>p. get_id_from_addr (p_addr p)) (child_nbrs e)"
    by (simp add: child_ids_def fresh_child_def)
  moreover have "sends (?s0\<lparr>children := ?t\<rparr>) = sends ?s0" by (simp add: sends_def)
  moreover have "abs_round (?s0\<lparr>children := ?t\<rparr>) = \<lparr>r_checksums = [], r_ids = [], r_leaf_rank = 0\<rparr>"
    by (simp add: abs_round_def received_def collected_def)
  ultimately show ?thesis
    using assms(3) len by (intro exI [of _ "?s0\<lparr>children := ?t\<rparr>"]) (simp add: ready_def)
qed

lemma first_unicast_parents_append:
  assumes "\<exists>p\<in>set (rpl_parents e). c \<noteq> 0 \<or> p_rank p < dag_rank e" and "wf_response r"
  shows "first_unicast (parent_sends e c r @ rest) = Some r"
proof -
  have "filter (\<lambda>p. c \<noteq> 0 \<or> p_rank p < dag_rank e) (rpl_parents e) \<noteq> []"
    using assms(1) by (auto simp: filter_empty_conv)
  then obtain p ps where "filter (\<lambda>p. c \<noteq> 0 \<or> p_rank p < dag_rank e) (rpl_parents e) = p # ps"
    by (cases "filter (\<lambda>p. c \<noteq> 0 \<or> p_rank p < dag_rank e) (rpl_parents e)") auto
  with assms(2) show ?thesis by (simp add: parent_sends_def)
qed

lemmas first_unicast_parents = first_unicast_parents_append [where rest = "[]", simplified append_Nil2]

lemma answer_leaf:
  assumes "wf_node (Node e a [])"
  shows "\<exists>r. answer lib (Node e a []) = Some r \<and> carries (Node e a []) r"
proof -
  let ?r = "client_answer e TOPOLOGY"
  have r: "carries (Node e a []) ?r"
    using client_answer_topology [of e]
    by (simp add: carries_def node_checksum_def ids_def)
  then have "wf_response ?r" by (simp add: carries_def topology_packet_def)
  then have "first_unicast (parent_sends e 1 ?r) = Some ?r"
    using assms by (intro first_unicast_parents) auto
  then have "answer lib (Node e a []) = Some ?r"
    using assms by (simp add: client_tcpip_handler_eq topology_request_def send_to_parents_eq
      initial_client_def)
  with r show ?thesis by blast
qed


subsection \<open>The whole tree\<close>

definition child_answers :: "node list \<Rightarrow> (ipaddr \<times> response_pkt) list \<Rightarrow> bool" where
  "child_answers ks rs \<longleftrightarrow> list_all2 (\<lambda>k ar. fst ar = node_ip k \<and> carries k (snd ar)) ks rs"

lemma child_answers_facts:
  assumes "child_answers ks rs"
  shows "length rs = length ks"
    and "map topo_checksum (map snd rs) = map node_checksum ks"
    and "map path_of (map snd rs) = map ids ks"
    and "map topo_max_leaf_rank (map snd rs) = map (\<lambda>k. max_list (leaf_ranks k)) ks"
    and "\<forall>(a, r)\<in>set rs. \<exists>k\<in>set ks. a = node_ip k \<and> carries k r"
  using assms unfolding child_answers_def
  by (induction ks rs rule: list_all2_induct) (auto simp: carries_def topology_packet_def)

lemma wf_network_kid:
  assumes "wf_network (Node e a ks)" and "k \<in> set ks"
  shows "wf_network k"
proof -
  have net: "wf_node (Node e a ks)" "distinct (ids (Node e a ks))"
    "length (ids (Node e a ks)) \<le> MAX_PATH_NODES - 2"
    using assms(1) by (simp_all add: wf_network_def)
  obtain as bs where ks: "ks = as @ k # bs" using assms(2) by (auto dest: split_list)
  have "wf_node k" using net(1) assms(2) by simp
  moreover have "distinct (ids k)" and "length (ids k) \<le> MAX_PATH_NODES - 2"
    using net(2,3) by (simp_all add: ids_Node ks)
  ultimately show ?thesis by (simp add: wf_network_def)
qed

lemma wf_network_own:
  assumes "wf_network k"
  shows "get_id_from_addr (node_ip k) = iotlab_uid (node_env k)" and "length (ids k) \<le> MAX_PATH_NODES"
proof -
  show "get_id_from_addr (node_ip k) = iotlab_uid (node_env k)"
    using assms by (cases k) (simp add: wf_network_def)
  show "length (ids k) \<le> MAX_PATH_NODES" using assms by (auto simp: wf_network_def intro: le_trans)
qed

lemma carries_child:
  assumes "wf_network k" and "carries k r"
  shows "wf_response r" "pkt_type r = TOPOLOGY" "unat (topo_pathindex r) \<le> MAX_PATH_NODES"
    and "get_id_from_addr (node_ip k) = iotlab_uid (node_env k)"
  using assms by (cases k; auto simp: carries_def topology_packet_def wf_network_def)+

text \<open>What a relay is in after the topology round of its subtree.\<close>

definition settled :: "env \<Rightarrow> node list \<Rightarrow> response_pkt \<Rightarrow> relay \<Rightarrow> bool" where
  "settled e ks r s \<longleftrightarrow> relay_inv s \<and> received s = [] \<and> sends s = parent_sends e 0 r \<and>
     first_child s \<and> set (child_ids (children s)) = (\<lambda>k. iotlab_uid (node_env k)) ` set ks \<and>
     unat (max_index s) = length ks \<and> my_checksum s = own_checksum e \<and> first_round_completed s = 1"

lemma kids_topology_from:
  assumes "child_answers ks rs" and "\<And>k. k \<in> set ks \<Longrightarrow> wf_network k"
    and "set (child_ids (children s)) = (\<lambda>k. iotlab_uid (node_env k)) ` set ks"
  shows "\<forall>(b, r)\<in>set rs. topology_from s b r"
proof -
  have "topology_from s b r" if br: "(b, r) \<in> set rs" for b r
  proof -
    obtain k where k: "k \<in> set ks" "b = node_ip k" "carries k r"
      using bspec [OF child_answers_facts(5) [OF assms(1)] br] by auto
    then have "iotlab_uid (node_env k) \<in> set (child_ids (children s))" using assms(3) by simp
    with k carries_child [OF assms(2) [OF k(1)] k(3)] show ?thesis
      by (simp add: topology_from_def is_child_iff)
  qed
  then show ?thesis by auto
qed

text \<open>A relay that has settled has its kids for children.\<close>

definition booted :: "env \<Rightarrow> node list \<Rightarrow> relay \<Rightarrow> bool" where
  "booted e ks s \<longleftrightarrow> ready s \<and> cur_loc s = 0 \<and> num_nodes (children s) = length ks \<and> sends s = [] \<and>
     set (child_ids (children s)) = (\<lambda>k. iotlab_uid (node_env k)) ` set ks \<and>
     abs_round s = \<lparr>r_checksums = [], r_ids = [], r_leaf_rank = 0\<rparr> \<and>
     timer_callback Periodic_timer (outs s) = None"

lemma boot_of_node:
  assumes "wf_node (Node e a ks)" and "ks \<noteq> []" and "contiki_lib_ok lib"
  obtains s where "relay_boot lib e = Inr s" and "booted e ks s"
proof -
  have nbrs: "mset (map (\<lambda>p. get_id_from_addr (p_addr p)) (child_nbrs e)) =
      mset (map (\<lambda>k. iotlab_uid (node_env k)) ks)" and few: "length ks \<le> MAX_CHILD"
    using assms(1) by simp_all
  have len: "length (child_nbrs e) = length ks" using arg_cong [OF nbrs, of size] by simp
  have "child_nbrs e \<noteq> []" using assms(2) len by auto
  from relay_boot_ready [OF assms(3) this] len few obtain s where boot: "relay_boot lib e = Inr s" "ready s" "cur_loc s = 0"
    "num_nodes (children s) = length ks" "sends s = []"
    "child_ids (children s) = map (\<lambda>p. get_id_from_addr (p_addr p)) (child_nbrs e)"
    "abs_round s = \<lparr>r_checksums = [], r_ids = [], r_leaf_rank = 0\<rparr>"
    and outs: "outs s = outs (start_relay shipped_build e initial_relay)"
    by auto
  have "set (child_ids (children s)) = (\<lambda>k. iotlab_uid (node_env k)) ` set ks"
    using arg_cong [OF nbrs, of set_mset] boot(6) by simp
  moreover have "timer_callback Periodic_timer (outs s) = None"
    by (simp add: outs start_relay_def initial_relay_def Let_def)
  ultimately show ?thesis using that boot by (simp add: booted_def)
qed

lemma inner_round:
  assumes net: "wf_network (Node e a ks)" and ks: "ks \<noteq> []" and lib: "contiki_lib_ok lib"
    and rs: "child_answers ks rs"
  shows "\<exists>r s. topology_round lib e rs = Inr s \<and> carries (Node e a ks) r \<and> settled e ks r s"
proof -
  note cs = child_answers_facts [OF rs]
  have node: "wf_env e" "udp_new_ok e = (\<lambda>n. True)"
    using net by (simp_all add: wf_network_def)
  obtain s where boot: "relay_boot lib e = Inr s" and "booted e ks s"
    using boot_of_node [of e a ks lib] net ks lib by (auto simp: wf_network_def)
  then have s: "ready s" "cur_loc s = 0" "num_nodes (children s) = length ks" "sends s = []"
    "set (child_ids (children s)) = (\<lambda>k. iotlab_uid (node_env k)) ` set ks"
    "abs_round s = \<lparr>r_checksums = [], r_ids = [], r_leaf_rank = 0\<rparr>"
    by (simp_all add: booted_def)
  define final where "final = fold round_add (map snd rs) (abs_round s)"
  have dist: "distinct (concat (map ids ks))" "length (concat (map ids ks)) < MAX_PATH_NODES - 2"
    using net by (simp_all add: wf_network_def ids_Node)
  have fin_ids: "r_ids final = concat (map ids ks)"
    using merge_all [of "[]" "map ids ks"] dist(1) cs(3) s(6) by (simp add: final_def rounds_ids)
  have fin_ck: "r_checksums final = map node_checksum ks"
    using cs(2) s(6) by (simp add: final_def rounds_checksums)
  have fin_rank: "r_leaf_rank final = max_list (leaf_ranks (Node e a ks))"
    using cs(4) s(6) ks by (simp add: final_def rounds_leaf_rank max_list_concat comp_def)
  from kids_topology_from [OF rs _ s(5)] wf_network_kid [OF net]
  have tf: "\<forall>(b, r)\<in>set rs. topology_from s b r" by blast
  have "\<exists>r s'. feed shipped_build lib e rs s = Inr s' \<and> round_sent e s final r s'"
    using s cs(1) tf dist(2) fin_ids node(1)
    by (intro feed_round) (auto simp: fits_def final_def)
  then obtain r s' where feed: "feed shipped_build lib e rs s = Inr s'" and "round_sent e s final r s'"
    by blast
  then have pk: "topology_packet (xor_list (r_checksums final) XOR own_checksum e)
      (r_ids final @ [iotlab_uid e]) (r_leaf_rank final) r"
    and sent: "sends s' = parent_sends e 0 r"
    using node(2) s(4) by (simp_all add: round_sent_def)
  from pk have "carries (Node e a ks) r"
    by (simp add: carries_def fin_ids fin_ck fin_rank ids_Node node_checksum_Node del: leaf_ranks.simps)
  moreover have "settled e ks r s'"
    using \<open>round_sent e s final r s'\<close> sent s(3,5)
    by (simp add: settled_def round_sent_def abs_round_def)
  ultimately show ?thesis using boot feed by (auto simp: topology_round_def)
qed

lemma answer_inner:
  assumes "wf_network (Node e a ks)" and "ks \<noteq> []" and "contiki_lib_ok lib"
    and "answers_of lib ks = Some rs" and "child_answers ks rs"
  shows "\<exists>r. answer lib (Node e a ks) = Some r \<and> carries (Node e a ks) r"
proof -
  obtain r s where run: "topology_round lib e rs = Inr s" and r: "carries (Node e a ks) r" "settled e ks r s"
    using inner_round [OF assms(1-3,5)] by blast
  have "\<exists>p\<in>set (rpl_parents e). p_rank p < dag_rank e" using assms(1) by (simp add: wf_network_def)
  then have "first_unicast (outs s) = Some r"
    using r first_unicast_sends [of "outs s"]
    by (simp add: settled_def sends_def first_unicast_parents carries_def topology_packet_def)
  then have "answer lib (Node e a ks) = Some r"
    using assms(2,4) run by simp
  with r(1) show ?thesis by blast
qed

lemma answer_carries:
  "wf_network t \<Longrightarrow> contiki_lib_ok lib \<Longrightarrow> \<exists>r. answer lib t = Some r \<and> carries t r"
  "\<forall>k\<in>set ks. wf_network k \<Longrightarrow> contiki_lib_ok lib \<Longrightarrow>
     \<exists>rs. answers_of lib ks = Some rs \<and> child_answers ks rs"
proof (induction lib t and lib ks rule: answer_answers_of.induct)
  case (1 lib e a ks)
  show ?case
  proof (cases "ks = []")
    case True
    then show ?thesis using "1.prems"(1) answer_leaf by (simp add: wf_network_def)
  next
    case False
    then obtain rs where "answers_of lib ks = Some rs" "child_answers ks rs"
      using "1.IH" wf_network_kid [OF "1.prems"(1)] "1.prems"(2) by blast
    with False show ?thesis using answer_inner "1.prems" by blast
  qed
next
  case (2 lib)
  then show ?case by (simp add: child_answers_def)
next
  case (3 lib k ks)
  then obtain r rs where r: "answer lib k = Some r" "carries k r"
    and rs: "answers_of lib ks = Some rs" "child_answers ks rs"
    by (metis list.set_intros)
  then show ?case by (simp add: child_answers_def)
qed

subsection \<open>A tree of three nodes\<close>

definition sample_leaf :: "u8 \<Rightarrow> node" where
  "sample_leaf n = Node (sample_env (ucast n) 768 [\<lparr>p_rank = 512, p_addr = sample_ip 3\<rparr>]) (sample_ip n) []"

definition sample_tree :: node where
  "sample_tree = Node (sample_env 3 512 [\<lparr>p_rank = 256, p_addr = sample_ip 9\<rparr>,
       \<lparr>p_rank = 768, p_addr = sample_ip 2\<rparr>, \<lparr>p_rank = 768, p_addr = sample_ip 1\<rparr>])
     (sample_ip 3) [sample_leaf 1, sample_leaf 2]"

lemma sample_tree_ok: "wf_network sample_tree"
  by (simp add: wf_network_def sample_tree_def sample_leaf_def child_nbrs_def ids_def size_defs
      add_mset_commute)

end
