(* ===== verification/Relay_Timeout.thy ===== *)
theory Relay_Timeout
  imports Relay_Round
begin

text \<open>
  A topology round whose responses do not all arrive: the timer that every
  response sets ends it. The timer is not stopped when a round is complete.
\<close>

subsection \<open>The timer\<close>

text \<open>
  The expiry of a timer: the callback it was set to last is called, if
  it was ever set.
\<close>

definition fire :: "ctimer_id \<Rightarrow> build \<Rightarrow> contiki_lib \<Rightarrow> env \<Rightarrow> relay \<Rightarrow> relay res" where
  "fire t b lib e s =
     (case timer_callback t (outs s) of
        None \<Rightarrow> Inr s
      | Some cb \<Rightarrow> relay_step b lib e (Timer_expired cb) s)"

abbreviation expire :: "build \<Rightarrow> contiki_lib \<Rightarrow> env \<Rightarrow> relay \<Rightarrow> relay res" where
  "expire \<equiv> fire Periodic_timer"

subsection \<open>The expiry\<close>

text \<open>One packet with what has been gathered; the relay starts afresh.\<close>

lemma expire_sends:
  assumes "relay_inv v" and "wf_env e" and "timer_callback Periodic_timer (outs v) = Some Call_send_topology_resp"
  shows "\<exists>r s'. expire b lib e v = Inr s' \<and>
    topology_packet (xor_list (received v) XOR own_checksum e) (collected v @ [iotlab_uid e])
      (max_leaf_rank v) r \<and>
    sends s' = sends v @ (if udp_new_ok e (udp_new_count (outs v)) then parent_sends e 0 r else []) \<and>
    abs_round s' = \<lparr>r_checksums = [], r_ids = [], r_leaf_rank = max_leaf_rank v\<rparr> \<and>
    marked (children s') = {}"
proof -
  have arr: "relay_arrays v" "paths_loc v < MAX_PATH_NODES - 1"
    using assms(1) by (auto simp: relay_inv_def)
  from send_topology_resp_spec [OF this assms(2)] obtain r where
    r: "send_topology_resp e v = Inr (reset_variable (v\<lparr>my_checksum := own_checksum e,
       outs := send_to_parents e r 0 (outs v)\<rparr>))"
    and pk: "topology_packet (xor_list (received v) XOR own_checksum e)
           (collected v @ [iotlab_uid e]) (max_leaf_rank v) r" .
  let ?s' = "reset_variable (v\<lparr>my_checksum := own_checksum e, outs := send_to_parents e r 0 (outs v)\<rparr>)"
  have "expire b lib e v = Inr ?s'" using assms(3) r by (simp add: fire_def)
  moreover have "sends ?s' =
      sends v @ (if udp_new_ok e (udp_new_count (outs v)) then parent_sends e 0 r else [])"
    by (simp add: sends_def send_to_parents_eq)
  ultimately show ?thesis
    using pk by (intro exI [of _ r] exI [of _ ?s']) (simp add: abs_round_def received_def collected_def)
qed

subsection \<open>A round with losses\<close>

text \<open>
  Whether all responses have arrived or only some: the first packet that the
  relay sends carries what has arrived.
\<close>

lemma round_or_timeout:
  assumes "ready s" and "wf_env e" and "cur_loc s + length rs \<le> num_nodes (children s)" and "rs \<noteq> []"
    and "\<forall>(a, r)\<in>set rs. topology_from s a r"
    and "fits (fold round_add (map snd rs) (abs_round s))" and "udp_new_ok e = (\<lambda>n. True)"
    and "timer_callback Periodic_timer (outs s) = None"
    and "final = fold round_add (map snd rs) (abs_round s)"
  shows "\<exists>p s' more. rbind (feed b lib e rs s) (expire b lib e) = Inr s' \<and>
    topology_packet (xor_list (r_checksums final) XOR own_checksum e)
      (r_ids final @ [iotlab_uid e]) (r_leaf_rank final) p \<and>
    sends s' = sends s @ parent_sends e 0 p @ more"
proof (cases "cur_loc s + length rs = num_nodes (children s)")
  case True
  then have "length rs = num_nodes (children s) - cur_loc s" by simp
  from feed_complete [OF assms(1,2) this assms(5,6), of b lib] obtain p s' where
    f: "feed b lib e rs s = Inr s'" and sent: "round_sent e s final p s'"
    and tm: "timer_callback Periodic_timer (outs s') =
      (if 2 \<le> length rs then Some Call_send_topology_resp else None)"
    unfolding assms(8,9) by blast
  have s': "relay_inv s'" "sends s' = sends s @ parent_sends e 0 p"
    and pk: "topology_packet (xor_list (r_checksums final) XOR own_checksum e)
      (r_ids final @ [iotlab_uid e]) (r_leaf_rank final) p"
    using sent assms(7) by (simp_all add: round_sent_def)
  obtain s'' more where "expire b lib e s' = Inr s''" and "sends s'' = sends s' @ more"
  proof (cases "timer_callback Periodic_timer (outs s')")
    case None
    then show ?thesis using that [of s' "[]"] by (simp add: fire_def)
  next
    case (Some cb)
    with tm have "timer_callback Periodic_timer (outs s') = Some Call_send_topology_resp"
      by (simp split: if_splits)
    from expire_sends [OF s'(1) assms(2) this, of b lib] that show ?thesis by auto
  qed
  with f s' pk show ?thesis by (intro exI [of _ p] exI [of _ s''] exI [of _ more]) simp
next
  case False
  then have "cur_loc s + length rs < num_nodes (children s)" using assms(3) by simp
  from feed_partial [OF assms(1) this assms(5,6), of b lib] obtain v where
    f: "feed b lib e rs s = Inr v" and w: "waits rs s v" by blast
  have v: "relay_inv v" "abs_round v = final" "sends v = sends s"
    and tm: "timer_callback Periodic_timer (outs v) = Some Call_send_topology_resp"
    using w assms(4,9) by (simp_all add: waits_def ready_def)
  obtain r s' where "expire b lib e v = Inr s'"
    and "topology_packet (xor_list (received v) XOR own_checksum e) (collected v @ [iotlab_uid e])
      (max_leaf_rank v) r"
    and "sends s' = sends v @ parent_sends e 0 r"
    using expire_sends [OF v(1) assms(2) tm, of b lib] assms(7) by auto
  moreover have "received v = r_checksums final" "collected v = r_ids final" "max_leaf_rank v = r_leaf_rank final"
    by (simp_all add: abs_round_def flip: v(2))
  ultimately show ?thesis
    using f v(3) by (intro exI [of _ r] exI [of _ s'] exI [of _ "[]"]) simp
qed

subsection \<open>Properties\<close>

text \<open>
  C23: The timer of a topology round is never stopped: after a round with two or
  more children is complete, its expiry makes the relay send again, to all
  parents, a packet with its own checksum and id alone, which a parent that is
  still waiting counts as one more response.
\<close>

theorem complete_round_sends_again:
  assumes "ready s" and "wf_env e" and "length rs = num_nodes (children s) - cur_loc s"
    and "2 \<le> length rs" and "\<forall>(a, r)\<in>set rs. topology_from s a r"
    and "fits (fold round_add (map snd rs) (abs_round s))" and "udp_new_ok e = (\<lambda>n. True)"
  shows "\<exists>p q s' s''. feed b lib e rs s = Inr s' \<and> expire b lib e s' = Inr s'' \<and>
    path_of p = foldl merge_ids (collected s) (map (path_of \<circ> snd) rs) @ [iotlab_uid e] \<and>
    pkt_type q = TOPOLOGY \<and> path_of q = [iotlab_uid e] \<and> topo_checksum q = own_checksum e \<and>
    filter is_send (outs s'') = filter is_send (outs s) @ parent_sends e 0 p @ parent_sends e 0 q"
proof -
  obtain p s' where f: "feed b lib e rs s = Inr s'"
    and sent: "round_sent e s (fold round_add (map snd rs) (abs_round s)) p s'"
    and tm: "timer_callback Periodic_timer (outs s') = Some Call_send_topology_resp"
    using feed_complete [OF assms(1-3,5,6), of b lib] assms(4) by auto
  have s': "relay_inv s'" "received s' = []" "collected s' = []"
    using sent by (simp_all add: round_sent_def abs_round_def)
  obtain q s'' where "expire b lib e s' = Inr s''"
    and "topology_packet (xor_list (received s') XOR own_checksum e) (collected s' @ [iotlab_uid e])
      (max_leaf_rank s') q"
    and "sends s'' = sends s' @ parent_sends e 0 q"
    using expire_sends [OF s'(1) assms(2) tm, of b lib] assms(7) by auto
  moreover have "r_ids (fold round_add (map snd rs) (abs_round s)) =
      foldl merge_ids (collected s) (map (path_of \<circ> snd) rs)"
    by (simp add: rounds_ids abs_round_def)
  ultimately show ?thesis
    using f sent s' assms(7)
    by (intro exI [of _ p] exI [of _ q] exI [of _ s'] exI [of _ s''])
      (simp add: round_sent_def topology_packet_def sends_def)
qed

definition second_response :: response_pkt where
  "second_response = snd (create_response (sample_env 2 768 []) \<lparr>req_pkt_type = TOPOLOGY, seed = 0\<rparr> zero_response)"

lemma second_response_packet:
  "topology_packet (own_checksum (sample_env 2 768 [])) [2] 768 second_response"
  unfolding second_response_def
  using create_response_topology [of "\<lparr>req_pkt_type = TOPOLOGY, seed = 0\<rparr>" zero_response "sample_env 2 768 []"]
  by simp

lemma complete_round_sends_again_witness:
  "\<exists>p q s' s''. feed shipped_build sample_lib (sample_env 3 512 [\<lparr>p_rank = 256, p_addr = sample_ip 9\<rparr>])
      [(sample_ip 1, sample_response), (sample_ip 2, second_response)] (relay_of [1, 2]) = Inr s' \<and>
    expire shipped_build sample_lib (sample_env 3 512 [\<lparr>p_rank = 256, p_addr = sample_ip 9\<rparr>]) s' = Inr s'' \<and>
    path_of p = [1, 2, 3] \<and> path_of q = [3] \<and>
    filter is_send (outs s'') =
      [Unicast_sendto (sample_ip 9) (response_bytes p), Unicast_sendto (sample_ip 9) (response_bytes q)]"
proof -
  let ?e = "sample_env 3 512 [\<lparr>p_rank = 256, p_addr = sample_ip 9\<rparr>]"
  let ?rs = "[(sample_ip 1, sample_response), (sample_ip 2, second_response)]"
  have paths: "path_of sample_response = [1]" "path_of second_response = [2]"
    using sample_response_packet second_response_packet by (simp_all add: topology_packet_def)
  have "ready (relay_of [1, 2])" by (simp add: ready_relay_of size_defs)
  moreover have "topology_from (relay_of [1, 2]) (sample_ip 2) second_response"
    using second_response_packet
    by (simp add: topology_from_def is_child_iff topology_packet_def size_defs)
  then have "\<forall>(a, r)\<in>set ?rs. topology_from (relay_of [1, 2]) a r"
    using sample_response_from [of "[1, 2]"] by simp
  moreover have "fits (fold round_add (map snd ?rs) (abs_round (relay_of [1, 2])))"
    by (simp add: fits_def rounds_ids merge_ids_def paths size_defs) (simp add: round_add_def merge_ids_def paths)
  ultimately obtain p q s' s'' where
    *: "feed shipped_build sample_lib ?e ?rs (relay_of [1, 2]) = Inr s'"
    "expire shipped_build sample_lib ?e s' = Inr s''"
    "path_of p = foldl merge_ids [] [[1], [2]] @ [3]" "path_of q = [3]"
    "filter is_send (outs s'') = parent_sends ?e 0 p @ parent_sends ?e 0 q"
    using complete_round_sends_again [of "relay_of [1, 2]" ?e ?rs shipped_build sample_lib]
    by (auto simp: paths sends_def [symmetric] simp del: feed.simps)
  then have "path_of p = [1, 2, 3]" by (simp add: merge_ids_def)
  moreover have "parent_sends ?e 0 x = [Unicast_sendto (sample_ip 9) (response_bytes x)]" for x
    by (simp add: parent_sends_def)
  ultimately show ?thesis using * by (simp del: feed.simps) blast
qed

end
