(* ===== verification/Network_Loss.thy ===== *)
theory Network_Loss
  imports Network Relay_Timeout "HOL-Library.Sublist"
begin

text \<open>
  A topology round in which datagrams are lost. A relay that misses a response
  answers when its timer expires, with what it has got; a relay that has got
  nothing has set no timer and stays silent.
\<close>

subsection \<open>Running a tree that loses responses\<close>

text \<open>\<open>lost\<close>: the ids of the nodes whose response does not reach the parent.\<close>

fun lossy_answer :: "(u16 \<Rightarrow> bool) \<Rightarrow> contiki_lib \<Rightarrow> node \<Rightarrow> response_pkt option"
  and arrived :: "(u16 \<Rightarrow> bool) \<Rightarrow> contiki_lib \<Rightarrow> node list \<Rightarrow> (ipaddr \<times> response_pkt) list" where
  "lossy_answer lost lib (Node e a ks) =
     (if ks = [] then
        first_unicast (client_outs
          (client_tcpip_handler shipped_build e True topology_request initial_client))
      else
        (case rbind (relay_boot lib e) (\<lambda>s.
                rbind (feed shipped_build lib e (arrived lost lib ks) s) (expire shipped_build lib e)) of
           Inl f \<Rightarrow> None
         | Inr s \<Rightarrow> first_unicast (outs s)))"
| "arrived lost lib [] = []"
| "arrived lost lib (k # ks) =
     (if lost (iotlab_uid (node_env k)) then []
      else case lossy_answer lost lib k of None \<Rightarrow> [] | Some r \<Rightarrow> [(node_ip k, r)]) @
     arrived lost lib ks"

subsection \<open>The nodes that are reached\<close>

fun reached :: "(u16 \<Rightarrow> bool) \<Rightarrow> node \<Rightarrow> env list" where
  "reached lost (Node e a ks) =
     (if ks = [] then [e]
      else let es = concat (map (\<lambda>k. if lost (iotlab_uid (node_env k)) then [] else reached lost k) ks)
           in if es = [] then [] else es @ [e])"

fun reached_leaves :: "(u16 \<Rightarrow> bool) \<Rightarrow> node \<Rightarrow> u16 list" where
  "reached_leaves lost (Node e a ks) =
     (if ks = [] then [dag_rank e]
      else concat (map (\<lambda>k. if lost (iotlab_uid (node_env k)) then [] else reached_leaves lost k) ks))"

definition lossy_carries :: "(u16 \<Rightarrow> bool) \<Rightarrow> node \<Rightarrow> response_pkt \<Rightarrow> bool" where
  "lossy_carries lost t r \<longleftrightarrow>
     topology_packet (xor_list (map own_checksum (reached lost t))) (map iotlab_uid (reached lost t))
       (max_list (reached_leaves lost t)) r"

definition lossy_spec :: "(u16 \<Rightarrow> bool) \<Rightarrow> node \<Rightarrow> response_pkt option \<Rightarrow> bool" where
  "lossy_spec lost t res \<longleftrightarrow>
     (case res of None \<Rightarrow> reached lost t = [] | Some r \<Rightarrow> reached lost t \<noteq> [] \<and> lossy_carries lost t r)"

text \<open>The children whose response arrives.\<close>

definition kept :: "(u16 \<Rightarrow> bool) \<Rightarrow> node list \<Rightarrow> node list" where
  "kept lost ks = filter (\<lambda>k. \<not> lost (iotlab_uid (node_env k)) \<and> reached lost k \<noteq> []) ks"

lemma concat_if: "concat (map (\<lambda>k. if P k then [] else f k) ks) = concat (map f (filter (\<lambda>k. \<not> P k) ks))"
  by (induction ks) auto

lemma concat_nonempty: "concat (map f (filter (\<lambda>k. P k \<and> f k \<noteq> []) ks)) = concat (map f (filter P ks))"
  by (induction ks) auto

lemma reached_kept:
  "concat (map (\<lambda>k. if lost (iotlab_uid (node_env k)) then [] else reached lost k) ks) =
     concat (map (reached lost) (kept lost ks))"
  by (simp add: concat_if kept_def concat_nonempty)

lemma reached_leaves_Nil:
  "reached lost t = [] \<longleftrightarrow> reached_leaves lost t = []"
proof (induction t)
  case (Node e a ks)
  then show ?case by (auto simp: Let_def)
qed

lemma leaves_kept:
  "concat (map (\<lambda>k. if lost (iotlab_uid (node_env k)) then [] else reached_leaves lost k) ks) =
     concat (map (reached_leaves lost) (kept lost ks))"
  by (simp add: concat_if kept_def concat_nonempty reached_leaves_Nil)

lemma reached_Node:
  "reached lost (Node e a ks) =
     (if ks = [] then [e] else if kept lost ks = [] then []
      else concat (map (reached lost) (kept lost ks)) @ [e])"
proof -
  have "concat (map (reached lost) (kept lost ks)) = [] \<longleftrightarrow> kept lost ks = []"
    by (auto simp: kept_def filter_empty_conv)
  then show ?thesis by (simp add: reached_kept)
qed

text \<open>The nodes reached are a part of the network, in its order.\<close>

lemma subseq_reached: "subseq (reached lost t) (nodes t)"
proof (induction t)
  case (Node e a ks)
  have "subseq (concat (map (\<lambda>k. if lost (iotlab_uid (node_env k)) then [] else reached lost k) ks))
      (concat (map nodes ks))"
    using Node by (induction ks) (auto intro: list_emb_append_mono)
  then show ?case by (auto simp: Let_def intro: list_emb_append_mono)
qed

lemma subseq_reached_ids: "subseq (map iotlab_uid (reached lost t)) (ids t)"
  unfolding ids_def by (intro subseq_map subseq_reached)

lemma subseq_distinct: "subseq xs ys \<Longrightarrow> distinct ys \<Longrightarrow> distinct xs"
  by (auto simp: subseq_conv_nths distinct_nthsI)

lemma kept_fits:
  assumes "wf_network (Node e a ks)"
  shows "distinct (concat (map (\<lambda>k. map iotlab_uid (reached lost k)) (kept lost ks)))"
    and "length (concat (map (\<lambda>k. map iotlab_uid (reached lost k)) (kept lost ks))) < MAX_PATH_NODES - 2"
proof -
  have "subseq (concat (map (\<lambda>k. map iotlab_uid (reached lost k)) (kept lost ks))) (concat (map ids ks))"
  proof (induction ks)
    case (Cons k ks)
    then show ?case
      using subseq_reached_ids [of lost k] by (auto simp: kept_def intro: list_emb_append_mono)
  qed (simp add: kept_def)
  moreover have "distinct (concat (map ids ks))" "length (concat (map ids ks)) < MAX_PATH_NODES - 2"
    using assms by (simp_all add: wf_network_def ids_Node)
  ultimately show "distinct (concat (map (\<lambda>k. map iotlab_uid (reached lost k)) (kept lost ks)))"
    and "length (concat (map (\<lambda>k. map iotlab_uid (reached lost k)) (kept lost ks))) < MAX_PATH_NODES - 2"
    by (auto dest: subseq_distinct list_emb_length)
qed

subsection \<open>One relay\<close>

text \<open>The responses that arrive are those of the children kept.\<close>

definition arrivals :: "(u16 \<Rightarrow> bool) \<Rightarrow> node list \<Rightarrow> (ipaddr \<times> response_pkt) list \<Rightarrow> bool" where
  "arrivals lost ks rs \<longleftrightarrow>
     list_all2 (\<lambda>k ar. fst ar = node_ip k \<and> lossy_carries lost k (snd ar)) ks rs"

lemma arrivals_facts:
  assumes "arrivals lost ks rs"
  shows "length rs = length ks"
    and "map (topo_checksum \<circ> snd) rs = map (\<lambda>k. xor_list (map own_checksum (reached lost k))) ks"
    and "map (path_of \<circ> snd) rs = map (\<lambda>k. map iotlab_uid (reached lost k)) ks"
    and "map (topo_max_leaf_rank \<circ> snd) rs = map (\<lambda>k. max_list (reached_leaves lost k)) ks"
    and "\<forall>(a, r)\<in>set rs. \<exists>k\<in>set ks. a = node_ip k \<and> lossy_carries lost k r"
  using assms unfolding arrivals_def
  by (induction ks rs rule: list_all2_induct)
    (auto simp: lossy_carries_def topology_packet_def)

lemma arrived_arrivals:
  assumes "\<forall>k\<in>set ks. lossy_spec lost k (lossy_answer lost lib k)"
  shows "arrivals lost (kept lost ks) (arrived lost lib ks)"
  using assms
  by (induction ks) (auto simp: arrivals_def kept_def lossy_spec_def split: option.splits)

lemma arrivals_from_kids:
  assumes net: "wf_network (Node e a ks)" and rs: "arrivals lost (kept lost ks) rs"
    and ids: "set (child_ids (children s)) = (\<lambda>k. iotlab_uid (node_env k)) ` set ks"
  shows "\<forall>(b, r)\<in>set rs. topology_from s b r"
proof -
  have "topology_from s b r" if br: "(b, r) \<in> set rs" for b r
  proof -
    obtain k where k: "k \<in> set ks" "b = node_ip k" "lossy_carries lost k r"
      using bspec [OF arrivals_facts(5) [OF rs] br] by (auto simp: kept_def)
    note own = wf_network_own [OF wf_network_kid [OF net k(1)]]
    have "length (reached lost k) \<le> length (ids k)"
      using subseq_reached_ids [of lost k] by (auto dest: list_emb_length)
    then have "length (reached lost k) \<le> MAX_PATH_NODES" using own(2) by (rule le_trans)
    moreover have "unat (topo_pathindex r) = length (reached lost k)" "pkt_type r = TOPOLOGY" "wf_response r"
      using k(3) by (auto simp: lossy_carries_def topology_packet_def)
    moreover have "get_id_from_addr b \<in> set (child_ids (children s))"
      using k(1,2) own(1) ids by auto
    ultimately show ?thesis by (simp add: topology_from_def is_child_iff)
  qed
  then show ?thesis by auto
qed

lemma arrivals_round:
  assumes net: "wf_network (Node e a ks)" and rs: "arrivals lost (kept lost ks) rs"
    and final: "final = fold round_add (map snd rs) \<lparr>r_checksums = [], r_ids = [], r_leaf_rank = 0\<rparr>"
  shows "r_ids final = concat (map (\<lambda>k. map iotlab_uid (reached lost k)) (kept lost ks))"
    and "r_checksums final = map (\<lambda>k. xor_list (map own_checksum (reached lost k))) (kept lost ks)"
    and "r_leaf_rank final = max_list (concat (map (reached_leaves lost) (kept lost ks)))"
  using merge_all [of "[]" "map (\<lambda>k. map iotlab_uid (reached lost k)) (kept lost ks)"]
    kept_fits(1) [OF net] arrivals_facts(2-4) [OF rs]
  by (simp_all add: final rounds_ids rounds_checksums rounds_leaf_rank max_list_concat comp_def)

lemma lossy_inner:
  assumes net: "wf_network (Node e a ks)" and lib: "contiki_lib_ok lib" and ks: "ks \<noteq> []"
    and rs: "arrivals lost (kept lost ks) (arrived lost lib ks)"
  shows "lossy_spec lost (Node e a ks) (lossy_answer lost lib (Node e a ks))"
proof -
  let ?rs = "arrived lost lib ks"
  note cs = arrivals_facts [OF rs]
  have node: "wf_env e" "udp_new_ok e = (\<lambda>n. True)" "\<exists>p\<in>set (rpl_parents e). p_rank p < dag_rank e"
    using net by (simp_all add: wf_network_def)
  obtain s where boot: "relay_boot lib e = Inr s" and "booted e ks s"
    using boot_of_node [of e a ks lib] net ks lib by (auto simp: wf_network_def)
  then have s: "ready s" "cur_loc s = 0" "num_nodes (children s) = length ks" "sends s = []"
    "set (child_ids (children s)) = (\<lambda>k. iotlab_uid (node_env k)) ` set ks"
    "abs_round s = \<lparr>r_checksums = [], r_ids = [], r_leaf_rank = 0\<rparr>"
    and tm: "timer_callback Periodic_timer (outs s) = None"
    by (simp_all add: booted_def)
  show ?thesis
  proof (cases "kept lost ks = []")
    case True
    then have "?rs = []" using cs(1) by simp
    then have "lossy_answer lost lib (Node e a ks) = None"
      using ks boot tm s(4) first_unicast_sends [of "outs s"] by (simp add: fire_def sends_def)
    moreover have "reached lost (Node e a ks) = []" using True ks by (simp add: reached_Node del: reached.simps)
    ultimately show ?thesis by (simp add: lossy_spec_def)
  next
    case False
    define final where "final = fold round_add (map snd ?rs) (abs_round s)"
    note final = arrivals_round [OF net rs final_def [unfolded s(6)]]
    note tf = arrivals_from_kids [OF net rs s(5)]
    have "length (kept lost ks) \<le> length ks" by (simp add: kept_def)
    then have "\<exists>p s' rest. rbind (feed shipped_build lib e ?rs s) (expire shipped_build lib e) = Inr s' \<and>
        topology_packet (xor_list (r_checksums final) XOR own_checksum e)
          (r_ids final @ [iotlab_uid e]) (r_leaf_rank final) p \<and> sends s' = sends s @ parent_sends e 0 p @ rest"
      using s cs(1) tf kept_fits(2) [OF net] final(1) node(1,2) tm False
      by (intro round_or_timeout) (auto simp: fits_def final_def)
    then obtain p s' rest where run: "rbind (feed shipped_build lib e ?rs s) (expire shipped_build lib e) = Inr s'"
      and pk: "topology_packet (xor_list (r_checksums final) XOR own_checksum e)
          (r_ids final @ [iotlab_uid e]) (r_leaf_rank final) p"
      and sent: "sends s' = parent_sends e 0 p @ rest"
      using s(4) by auto
    have "first_unicast (parent_sends e 0 p @ rest) = Some p"
      using node(3) pk by (intro first_unicast_parents_append) (auto simp: topology_packet_def)
    then have "lossy_answer lost lib (Node e a ks) = Some p"
      using ks boot run sent first_unicast_sends [of "outs s'"] by (simp add: sends_def)
    moreover have "lossy_carries lost (Node e a ks) p"
      using pk ks False
      by (simp add: lossy_carries_def final reached_Node leaves_kept map_concat
          comp_def xor_list_concat del: reached.simps)
    ultimately show ?thesis
      using False ks by (simp add: lossy_spec_def reached_Node del: reached.simps lossy_answer.simps)
  qed
qed

lemma lossy_answer_spec:
  "contiki_lib_ok lib \<Longrightarrow> wf_network t \<Longrightarrow> lossy_spec lost t (lossy_answer lost lib t)"
proof (induction t)
  case (Node e a ks)
  show ?case
  proof (cases "ks = []")
    case True
    obtain r where "answer lib (Node e a []) = Some r" "carries (Node e a []) r"
      using answer_leaf [of e a lib] Node.prems(2) True by (auto simp: wf_network_def)
    then show ?thesis
      using True by (simp add: lossy_spec_def lossy_carries_def carries_def node_checksum_def ids_def)
  next
    case False
    have "lossy_spec lost k (lossy_answer lost lib k)" if "k \<in> set ks" for k
      using Node.IH [OF that Node.prems(1)] wf_network_kid [OF Node.prems(2) that] by simp
    then show ?thesis using lossy_inner Node.prems False arrived_arrivals by blast
  qed
qed

subsection \<open>Property\<close>

lemma reached_all: "reached (\<lambda>i. False) t = nodes t"
proof (induction t)
  case (Node e a ks)
  then have "concat (map (reached (\<lambda>i. False)) ks) = concat (map nodes ks)"
    by (intro arg_cong [of _ _ concat] map_cong) simp_all
  moreover have "concat (map nodes ks) \<noteq> []" if "ks \<noteq> []"
    using that nodes_not_Nil by (cases ks) auto
  ultimately show ?case by (simp add: Let_def del: concat_eq_Nil_conv)
qed



end
