(* ===== verification/Network_Rounds.thy ===== *)
theory Network_Rounds
  imports Network Relay_Timeout
begin

text \<open>
  The rounds that follow the topology round in a whole network: an attestation
  round, in which the nodes broadcast, and the second round, in which every node
  is asked for the checksum it remembers. The three rounds agree.
\<close>

subsection \<open>Running the rounds\<close>

definition attestation_request :: "u8 list" where
  "attestation_request = request_bytes \<lparr>req_pkt_type = ATTESTATION, seed = 1234\<rparr>"

definition second_request :: "u8 list" where
  "second_request = request_bytes \<lparr>req_pkt_type = SECOND_ROUND, seed = 1234\<rparr>"

text \<open>A leaf after the topology request.\<close>

definition leaf_state :: "env \<Rightarrow> client" where
  "leaf_state e = client_tcpip_handler shipped_build e True topology_request initial_client"

fun to_sink :: "effect list \<Rightarrow> sec_rnd_resp list" where
  "to_sink [] = []"
| "to_sink (f # fs) =
     (case f of Sink_sendto bs \<Rightarrow> [sec_rnd_of_bytes bs] | _ \<Rightarrow> []) @ to_sink fs"

text \<open>
  A relay's part in an attestation round that follows a topology round: the
  broadcasts it hears, then its two timers.
\<close>

definition attestation_round ::
  "contiki_lib \<Rightarrow> env \<Rightarrow> (ipaddr \<times> response_pkt) list \<Rightarrow> relay \<Rightarrow> relay res" where
  "attestation_round lib e qs s =
     rbind (hear shipped_build lib e qs s) (\<lambda>s.
     rbind (fire Periodic_timer shipped_build lib e s) (fire P_timer shipped_build lib e))"

fun att_answer :: "contiki_lib \<Rightarrow> node \<Rightarrow> response_pkt option"
  and att_answers :: "contiki_lib \<Rightarrow> node list \<Rightarrow> (ipaddr \<times> response_pkt) list option" where
  "att_answer lib (Node e a ks) =
     (if ks = [] then
        first_broadcast (client_outs
          (client_tcpip_handler shipped_build e True attestation_request (leaf_state e)))
      else
        (case (answers_of lib ks, att_answers lib ks) of
           (Some rs, Some qs) \<Rightarrow>
             (case rbind (topology_round lib e rs) (attestation_round lib e qs) of
                Inl f \<Rightarrow> None
              | Inr s \<Rightarrow> first_broadcast (outs s))
         | _ \<Rightarrow> None))"
| "att_answers lib [] = Some []"
| "att_answers lib (k # ks) =
     (case att_answer lib k of
        None \<Rightarrow> None
      | Some q \<Rightarrow> map_option ((#) (node_ip k, q)) (att_answers lib ks))"

text \<open>The answers of all nodes in the second round, children before their relay.\<close>

fun second_answers :: "contiki_lib \<Rightarrow> node \<Rightarrow> sec_rnd_resp list" where
  "second_answers lib (Node e a ks) =
     concat (map (second_answers lib) ks) @
     to_sink
       (if ks = [] then client_outs (client_udp_secreq_callback second_request (leaf_state e))
        else
          (case answers_of lib ks of
             None \<Rightarrow> []
           | Some rs \<Rightarrow>
               (case rbind (topology_round lib e rs)
                       (relay_step shipped_build lib e (Secreq_rx second_request)) of
                  Inl f \<Rightarrow> []
                | Inr s \<Rightarrow> outs s)))"

subsection \<open>What was sent\<close>

lemma to_sink_sends: "to_sink os = to_sink (filter is_send os)"
proof (induction os)
  case (Cons f fs)
  then show ?case by (cases f) simp_all
qed simp

lemma to_sink_append [simp]: "to_sink (xs @ ys) = to_sink xs @ to_sink ys"
  by (induction xs) simp_all

lemma to_sink_parents [simp]: "to_sink (parent_sends e c r) = []"
proof -
  have "to_sink (map (\<lambda>p. Unicast_sendto (p_addr p) x) ps) = []" for x ps
    by (induction ps) simp_all
  then show ?thesis by (simp add: parent_sends_def)
qed

lemma first_broadcast_sends: "first_broadcast os = first_broadcast (filter is_send os)"
proof (induction os)
  case (Cons f fs)
  then show ?case by (cases f) simp_all
qed simp

lemma first_broadcast_parents [simp]:
  "first_broadcast (parent_sends e c r @ os) = first_broadcast os"
proof -
  have "first_broadcast (map (\<lambda>p. Unicast_sendto (p_addr p) x) ps @ os) = first_broadcast os" for x ps
    by (induction ps) simp_all
  then show ?thesis by (simp add: parent_sends_def)
qed

lemma leaf_state_eq:
  "wf_node (Node e a []) \<Longrightarrow> checksum (leaf_state e) = own_checksum e \<and>
     client_outs (leaf_state e) =
       [Udp_new, Udp_bind MY_UDP_CHECKSUM_PORT] @ parent_sends e 1 (client_answer e TOPOLOGY)"
  by (simp add: leaf_state_def client_tcpip_handler_eq topology_request_def send_to_parents_eq
      initial_client_def)

subsection \<open>The second round\<close>

fun second_spec :: "node \<Rightarrow> sec_rnd_resp list" where
  "second_spec (Node e a ks) = concat (map second_spec ks) @
     [\<lparr>sr_max_index = of_nat (length ks), sr_checksum = own_checksum e\<rparr>]"

lemma second_spec_checksums: "map sr_checksum (second_spec t) = map own_checksum (nodes t)"
proof (induction t)
  case (Node e a ks)
  then have "concat (map (\<lambda>k. map sr_checksum (second_spec k)) ks) =
      concat (map (\<lambda>k. map own_checksum (nodes k)) ks)"
    by (intro arg_cong [of _ _ concat] map_cong) simp_all
  then show ?case by (simp add: map_concat comp_def)
qed

lemma settled_second:
  assumes "settled e ks r s"
  shows "\<exists>s'. relay_step b lib e (Secreq_rx second_request) s = Inr s' \<and>
    to_sink (outs s') = [\<lparr>sr_max_index = of_nat (length ks), sr_checksum = own_checksum e\<rparr>]"
proof -
  have "max_index s = of_nat (unat (max_index s))" by simp
  also have "unat (max_index s) = length ks" using assms by (simp add: settled_def)
  finally have index: "max_index s = of_nat (length ks)" .
  have "to_sink (outs s) = []"
    using assms to_sink_sends [of "outs s"] by (simp add: settled_def sends_def)
  then show ?thesis
    using assms index by (simp add: settled_def udp_secreq_callback_def unicast_send_to_sink_def second_request_def)
qed

lemma second_answers_spec:
  assumes "contiki_lib_ok lib" and "wf_network t"
  shows "second_answers lib t = second_spec t"
  using assms(2)
proof (induction t)
  case (Node e a ks)
  have kids: "wf_network k" if "k \<in> set ks" for k using wf_network_kid [OF Node.prems that] .
  then have below: "concat (map (second_answers lib) ks) = concat (map second_spec ks)"
    using Node.IH by (intro arg_cong [of _ _ concat] map_cong) simp_all
  show ?case
  proof (cases "ks = []")
    case True
    then show ?thesis
      using leaf_state_eq [of e a] Node.prems
      by (simp add: wf_network_def client_udp_secreq_callback_def client_unicast_send_to_sink_def
          client_emit_def second_request_def)
  next
    case False
    obtain rs where rs: "answers_of lib ks = Some rs" "child_answers ks rs"
      using answer_carries(2) [of ks lib] kids assms(1) by blast
    then obtain r s where s: "topology_round lib e rs = Inr s" "settled e ks r s"
      using inner_round [OF Node.prems False assms(1)] by blast
    then obtain s' where "relay_step shipped_build lib e (Secreq_rx second_request) s = Inr s'"
      "to_sink (outs s') = [\<lparr>sr_max_index = of_nat (length ks), sr_checksum = own_checksum e\<rparr>]"
      using settled_second by blast
    then show ?thesis using False rs(1) s(1) below by (simp del: relay_step.simps)
  qed
qed

subsection \<open>The attestation round\<close>

text \<open>
  No relay may have a back-off of zero, or combine to the checksum zero, which
  the code takes for an error.
\<close>

fun att_ok :: "node \<Rightarrow> bool" where
  "att_ok (Node e a ks) \<longleftrightarrow> (ks \<noteq> [] \<longrightarrow>
     backoff_modulus e \<noteq> 0 \<and> node_checksum (Node e a ks) \<noteq> 0) \<and> (\<forall>k\<in>set ks. att_ok k)"

definition att_carries :: "node \<Rightarrow> response_pkt \<Rightarrow> bool" where
  "att_carries t q \<longleftrightarrow> attestation_pkt q \<and> att_checksum q = node_checksum t"

definition att_child_answers :: "node list \<Rightarrow> (ipaddr \<times> response_pkt) list \<Rightarrow> bool" where
  "att_child_answers ks qs \<longleftrightarrow> list_all2 (\<lambda>k aq. fst aq = node_ip k \<and> att_carries k (snd aq)) ks qs"

lemma att_child_answers_facts:
  assumes "att_child_answers ks qs"
  shows "length qs = length ks" and "map (att_checksum \<circ> snd) qs = map node_checksum ks"
    and "\<forall>(a, q)\<in>set qs. attestation_pkt q" and "map fst qs = map node_ip ks"
  using assms unfolding att_child_answers_def
  by (induction ks qs rule: list_all2_induct) (auto simp: att_carries_def)

lemma fire_finish:
  assumes "relay_inv s" and "backoff_modulus e \<noteq> 0" and "xor_list (received s) XOR own_checksum e \<noteq> 0"
    and "timer_callback Periodic_timer (outs s) = Some Call_send_attestation_resp"
  shows "rbind (fire Periodic_timer shipped_build lib e s) (fire P_timer shipped_build lib e) =
    finish_attestation shipped_build lib e s"
proof -
  have "relay_arrays s" using assms(1) by (simp add: relay_inv_def)
  from send_attestation_resp_broadcast [OF this _ _ assms(2)] assms(3,4) show ?thesis
    by (simp add: fire_def finish_attestation_def timer_callback_append)
qed

lemma received_Nil: "relay_inv s \<Longrightarrow> received s = [] \<Longrightarrow> cur_loc s = 0"
  by (auto simp: relay_inv_def relay_arrays_def received_def size_defs)

lemma att_answer_inner:
  assumes net: "wf_network (Node e a ks)" and ks: "ks \<noteq> []" and lib: "contiki_lib_ok lib"
    and ok: "att_ok (Node e a ks)" and qs: "att_answers lib ks = Some qs" "att_child_answers ks qs"
  shows "\<exists>q. att_answer lib (Node e a ks) = Some q \<and> att_carries (Node e a ks) q"
proof -
  note cs = att_child_answers_facts [OF qs(2)]
  have node: "wf_env e" "length ks \<le> MAX_CHILD" using net by (simp_all add: wf_network_def)
  obtain rs where rs: "answers_of lib ks = Some rs" "child_answers ks rs"
    using answer_carries(2) [of ks lib] wf_network_kid [OF net] lib by blast
  then obtain r s where run: "topology_round lib e rs = Inr s" and s: "settled e ks r s"
    using inner_round [OF net ks lib] by blast
  have s': "relay_inv s" "received s = []" "first_child s" "cur_loc s = 0"
    using s received_Nil by (simp_all add: settled_def)
  obtain u where u: "hear shipped_build lib e qs s = Inr u" and h: "heard qs s u"
    using hear_heard [OF s'(1), of qs shipped_build lib e] s'(4) cs(1,3) node(2) by auto
  obtain k ks' b q qs' where first: "ks = k # ks'" "qs = (b, q) # qs'" "b = node_ip k"
    using ks cs(4) by (cases ks; cases qs) auto
  then have "iotlab_uid (node_env k) \<in> set (child_ids (children s))" using s by (simp add: settled_def)
  then have "child_heard qs s"
    using first wf_network_own(1) [OF wf_network_kid [OF net, of k]] by (simp add: is_child_iff)
  then have tm: "timer_callback Periodic_timer (outs u) = Some Call_send_attestation_resp"
    using h s'(3) by (simp add: heard_def)
  have comb: "xor_list (received u) XOR own_checksum e = node_checksum (Node e a ks)"
    using h s'(2) cs(2) by (simp add: heard_def node_checksum_Node)
  have boff: "backoff_modulus e \<noteq> 0" and nz: "node_checksum (Node e a ks) \<noteq> 0"
    using ok ks by simp_all
  have inv: "relay_inv u" and sent: "sends u = parent_sends e 0 r"
    using h s by (simp_all add: heard_def settled_def)
  from finish_attestation_sends [OF inv node(1) _ _ boff, of shipped_build lib] comb nz
  obtain s'' where fin: "finish_attestation shipped_build lib e u = Inr s''"
    and out: "sends s'' = sends u @ [Broadcast_sendto (response_bytes (att_response e u))]"
    by auto
  have q: "att_carries (Node e a ks) (att_response e u)"
    using att_response_simps [OF node(1), of u] comb by (simp add: att_carries_def)
  have "rbind (topology_round lib e rs) (attestation_round lib e qs) = Inr s''"
    using run u fin fire_finish [OF inv boff _ tm] comb nz by (simp add: attestation_round_def)
  moreover have "first_broadcast (outs s'') = Some (att_response e u)"
    using out sent q first_broadcast_sends [of "outs s''"]
    by (simp add: sends_def att_carries_def attestation_pkt_def)
  ultimately have "att_answer lib (Node e a ks) = Some (att_response e u)"
    using ks rs(1) qs(1) by simp
  with q show ?thesis by blast
qed

lemma att_answer_leaf:
  assumes "wf_node (Node e a [])"
  shows "\<exists>q. att_answer lib (Node e a []) = Some q \<and> att_carries (Node e a []) q"
proof -
  let ?q = "client_answer e ATTESTATION"
  have q: "att_carries (Node e a []) ?q"
    by (simp add: att_carries_def attestation_pkt_def client_answer_attestation node_checksum_def)
      (simp add: client_answer_def create_response_def attest_memory_own)
  have "client_outs (client_tcpip_handler shipped_build e True attestation_request (leaf_state e)) =
      client_outs (leaf_state e) @ [Broadcast_sendto (response_bytes ?q)]"
    unfolding client_tcpip_handler_eq by (simp add: attestation_request_def Let_def)
  then have "att_answer lib (Node e a []) = Some ?q"
    using leaf_state_eq [OF assms] q by (simp add: att_carries_def attestation_pkt_def)
  with q show ?thesis by blast
qed

lemma att_answer_carries:
  "wf_network t \<Longrightarrow> att_ok t \<Longrightarrow> contiki_lib_ok lib \<Longrightarrow>
     \<exists>q. att_answer lib t = Some q \<and> att_carries t q"
  "\<forall>k\<in>set ks. wf_network k \<and> att_ok k \<Longrightarrow> contiki_lib_ok lib \<Longrightarrow>
     \<exists>qs. att_answers lib ks = Some qs \<and> att_child_answers ks qs"
proof (induction lib t and lib ks rule: att_answer_att_answers.induct)
  case (1 lib e a ks)
  show ?case
  proof (cases "ks = []")
    case True
    then show ?thesis using "1.prems"(1) att_answer_leaf by (simp add: wf_network_def)
  next
    case False
    then obtain qs where "att_answers lib ks = Some qs" "att_child_answers ks qs"
      using "1.IH" wf_network_kid [OF "1.prems"(1)] "1.prems"(2,3) by auto
    with False show ?thesis using att_answer_inner "1.prems" by blast
  qed
next
  case (2 lib)
  then show ?case by (simp add: att_child_answers_def)
next
  case (3 lib k ks)
  then obtain q qs where q: "att_answer lib k = Some q" "att_carries k q"
    and qs: "att_answers lib ks = Some qs" "att_child_answers ks qs"
    by (metis list.set_intros)
  then show ?case by (simp add: att_child_answers_def)
qed

subsection \<open>Properties\<close>




lemma sample_tree_att_ok: "att_ok sample_tree"
  by (simp add: sample_tree_def sample_leaf_def backoff_modulus_def node_checksum_Node own_checksum_def)


end

