(* ===== verification/Network_Split.thy ===== *)
theory Network_Split
  imports Network Relay_Timeout
begin

text \<open>
  A relay with more nodes below it than its path has room for: it sends what it
  has when the path is full, counts from zero again and sends the rest when its
  timer expires.
\<close>

subsection \<open>A round that is split\<close>

text \<open>Responses that do not end the round, then the timer: what has arrived is sent.\<close>

lemma feed_expire:
  assumes w: "ready w" "cur_loc w = 0" "timer_callback Periodic_timer (outs w) = Some Call_send_topology_resp"
    and env: "wf_env e" "udp_new_ok e = (\<lambda>n. True)"
    and from_kids: "\<forall>(a, r)\<in>set ys. topology_from w a r" and few: "length ys < num_nodes (children w)"
    and later: "later = fold round_add (map snd ys) (abs_round w)" "fits later"
  obtains x q s' where "feed b lib e ys w = Inr x" and "expire b lib e x = Inr s'"
    and "topology_packet (xor_list (r_checksums later) XOR own_checksum e)
      (r_ids later @ [iotlab_uid e]) (r_leaf_rank later) q"
    and "sends s' = sends w @ parent_sends e 0 q"
proof -
  obtain x where x: "feed b lib e ys w = Inr x" "waits ys w x"
    using feed_partial [OF w(1), of ys b lib e] w(2) few from_kids later by auto
  have rx: "relay_inv x" "abs_round x = later" "sends x = sends w"
    "timer_callback Periodic_timer (outs x) = Some Call_send_topology_resp"
    using x(2) w(3) later(1) by (simp_all add: waits_def ready_def)
  have "r_checksums later = received x" "r_ids later = collected x" "r_leaf_rank later = max_leaf_rank x"
    by (simp_all add: abs_round_def flip: rx(2))
  with expire_sends [OF rx(1) env(1) rx(4), of b lib] env(2) rx(3) show ?thesis
    using that [OF x(1)] by auto
qed

text \<open>
  The responses \<open>xs\<close> leave room for one more id, which \<open>r\<close> brings; \<open>ys\<close> come after
  it. There are too few of \<open>ys\<close> to end the round.
\<close>

lemma feed_split:
  assumes s: "ready s" "cur_loc s = 0" and env: "wf_env e" "udp_new_ok e = (\<lambda>n. True)"
    and from_kids: "\<forall>(a, r)\<in>set (xs @ (a, r) # ys). topology_from s a r"
    and few: "length xs < num_nodes (children s)" "length ys < num_nodes (children s)"
    and first: "front = fold round_add (map snd xs) (abs_round s)" "length (r_ids front) + 3 = MAX_PATH_NODES"
      "path_of r = [v]" "v \<notin> set (r_ids front)"
    and last: "later = fold round_add (map snd ys) \<lparr>r_checksums = [], r_ids = [],
        r_leaf_rank = max (r_leaf_rank front) (topo_max_leaf_rank r)\<rparr>" "fits later"
  shows "\<exists>p q s'. rbind (feed b lib e (xs @ (a, r) # ys) s) (expire b lib e) = Inr s' \<and>
    topology_packet (xor_list (r_checksums front @ [topo_checksum r]) XOR own_checksum e)
      (r_ids front @ [v, iotlab_uid e]) (r_leaf_rank front) p \<and>
    topology_packet (xor_list (r_checksums later) XOR own_checksum e)
      (r_ids later @ [iotlab_uid e]) (r_leaf_rank later) q \<and>
    sends s' = sends s @ parent_sends e 0 p @ parent_sends e 0 q"
proof -
  have "fits front" using first(2) by (simp add: fits_def size_defs)
  then obtain u where u: "feed b lib e xs s = Inr u" "waits xs s u"
    using feed_partial [OF s(1), of xs b lib e] s(2) few(1) from_kids by (auto simp: first(1))
  let ?u = "u\<lparr>send_pkt_count := send_pkt_count u + 1\<rparr>"
  have ru: "ready u" "abs_round u = front" "child_ids (children u) = child_ids (children s)"
    "num_nodes (children u) = num_nodes (children s)" "sends u = sends s" "cur_loc u = length xs"
    using u(2) s(2) by (simp_all add: waits_def first(1))
  have tu: "topology_from u a r" using from_kids topology_from_cong [OF ru(3)] by simp
  have inv: "relay_inv ?u" "cur_loc ?u < MAX_CHILD" "0 < num_nodes (children ?u)" "num_nodes (children ?u) \<le> MAX_CHILD"
    using ru(1) by (simp_all add: ready_def)
  have front: "r_checksums front = received u" "r_ids front = collected u" "r_leaf_rank front = max_leaf_rank u"
    by (simp_all add: abs_round_def flip: ru(2))
  have "length (collected u) = paths_loc u"
    using ru(1) by (simp add: ready_def relay_inv_def relay_arrays_def collected_def size_defs)
  then have full: "paths_loc ?u + 3 = MAX_PATH_NODES" "v \<notin> set (collected ?u)"
    using first(2,4) front(2) by (simp_all add: collected_def)
  have "topology_from ?u a r" using tu by (simp add: topology_from_def)
  from process_topology_req_flush [OF inv(1) env(1) this first(3) full(2,1) inv(2-4)]
  obtain p w where step: "process_topology_req e r (get_id_from_addr a) ?u = Inr w"
    and fl: "flushed e ?u r v p w" by blast
  have w: "ready w" "cur_loc w = 0" "num_nodes (children w) = num_nodes (children s)"
    "child_ids (children w) = child_ids (children s)" "sends w = sends s @ parent_sends e 0 p"
    "timer_callback Periodic_timer (outs w) = Some Call_send_topology_resp"
    "abs_round w = \<lparr>r_checksums = [], r_ids = [], r_leaf_rank = max (r_leaf_rank front) (topo_max_leaf_rank r)\<rparr>"
    using fl ru inv(3,4) env(2) front(3) by (simp_all add: flushed_def ready_def sends_def)
  have "\<forall>(a, r)\<in>set ys. topology_from w a r" using from_kids topology_from_cong [OF w(4)] by simp
  moreover have "length ys < num_nodes (children w)" "later = fold round_add (map snd ys) (abs_round w)"
    using w(3,7) few(2) last(1) by simp_all
  ultimately obtain x q s' where x: "feed b lib e ys w = Inr x" "expire b lib e x = Inr s'"
    and q: "topology_packet (xor_list (r_checksums later) XOR own_checksum e)
      (r_ids later @ [iotlab_uid e]) (r_leaf_rank later) q"
    and sent: "sends s' = sends w @ parent_sends e 0 q"
    by (rule feed_expire [OF w(1,2,6) env _ _ _ last(2)])
  have fed: "feed b lib e (xs @ (a, r) # ys) s = Inr x"
    using u(1) x(1) step relay_step_topology [OF ready_not_leaf [OF ru(1)] tu] by (simp add: feed_append)
  have "topology_packet (xor_list (r_checksums front @ [topo_checksum r]) XOR own_checksum e)
      (r_ids front @ [v, iotlab_uid e]) (r_leaf_rank front) p"
    using fl by (simp add: flushed_def front received_def collected_def)
  then show ?thesis
    using w(5) fed x(2) q sent by (intro exI [of _ p] exI [of _ q] exI [of _ s']) simp
qed

subsection \<open>A relay with more than seven leaves\<close>

abbreviation uid :: "node \<Rightarrow> u16" where
  "uid k \<equiv> iotlab_uid (node_env k)"

lemma leaf_facts:
  assumes "kids k = []" shows "ids k = [uid k]" and "node_checksum k = own_checksum (node_env k)"
  using assms by (cases k; simp add: ids_def node_checksum_def)+

lemma leaf_rounds:
  assumes "child_answers ks rs" and "\<forall>k\<in>set ks. kids k = []" and "distinct (map uid ks)"
  shows "r_ids (fold round_add (map snd rs) \<lparr>r_checksums = [], r_ids = [], r_leaf_rank = m\<rparr>) = map uid ks"
    and "r_checksums (fold round_add (map snd rs) \<lparr>r_checksums = [], r_ids = [], r_leaf_rank = m\<rparr>) =
      map node_checksum ks"
proof -
  have "concat (map ids ks) = map uid ks" using assms(2) leaf_facts(1) by (induction ks) simp_all
  then show "r_ids (fold round_add (map snd rs) \<lparr>r_checksums = [], r_ids = [], r_leaf_rank = m\<rparr>) = map uid ks"
    using merge_all [of "[]" "map ids ks"] child_answers_facts(3) [OF assms(1)] assms(3)
    by (simp add: rounds_ids)
  show "r_checksums (fold round_add (map snd rs) \<lparr>r_checksums = [], r_ids = [], r_leaf_rank = m\<rparr>) =
      map node_checksum ks"
    using child_answers_facts(2) [OF assms(1)] by (simp add: rounds_checksums)
qed

lemma child_answers_split:
  assumes "child_answers (as @ k # cs) rs"
  obtains xs b r ys where "rs = xs @ (b, r) # ys" and "child_answers as xs"
    and "carries k r" and "child_answers cs ys"
proof -
  obtain xs zs where "rs = xs @ zs" "child_answers as xs"
    "list_all2 (\<lambda>k ar. fst ar = node_ip k \<and> carries k (snd ar)) (k # cs) zs"
    using assms unfolding child_answers_def by (auto simp: list_all2_append1)
  then show ?thesis
    using that unfolding child_answers_def by (auto simp: list_all2_Cons1)
qed

lemma kid_wf_network: "wf_node (Node e a ks) \<Longrightarrow> k \<in> set ks \<Longrightarrow> kids k = [] \<Longrightarrow> wf_network k"
  using leaf_facts(1) [of k] by (simp add: wf_network_def size_defs)

lemma star_round:
  assumes env: "wf_env e" "udp_new_ok e = (\<lambda>n. True)" and s: "booted e (as @ k # cs) s"
    and rs: "child_answers (as @ k # cs) rs"
    and kids: "\<forall>l\<in>set (as @ k # cs). kids l = [] \<and> wf_network l"
    and len: "length as = 7" "length cs \<le> 2" and dist: "distinct (map uid (as @ k # cs))"
  shows "\<exists>p q s' n n'. rbind (feed shipped_build lib e rs s) (expire shipped_build lib e) = Inr s' \<and>
    topology_packet (xor_list (map node_checksum (as @ [k])) XOR own_checksum e)
      (map uid (as @ [k]) @ [iotlab_uid e]) n p \<and>
    topology_packet (xor_list (map node_checksum cs) XOR own_checksum e)
      (map uid cs @ [iotlab_uid e]) n' q \<and>
    sends s' = parent_sends e 0 p @ parent_sends e 0 q"
proof -
  from child_answers_split [OF rs] obtain xs b r ys where split: "rs = xs @ (b, r) # ys"
    "child_answers as xs" "carries k r" "child_answers cs ys" .
  define front where "front = fold round_add (map snd xs) (abs_round s)"
  define later where "later = fold round_add (map snd ys) \<lparr>r_checksums = [], r_ids = [],
        r_leaf_rank = max (r_leaf_rank front) (topo_max_leaf_rank r)\<rparr>"
  have front: "r_ids front = map uid as" "r_checksums front = map node_checksum as"
    using leaf_rounds [OF split(2)] kids dist s by (simp_all add: front_def booted_def)
  have later: "r_ids later = map uid cs" "r_checksums later = map node_checksum cs"
    using leaf_rounds [OF split(4)] kids dist by (simp_all add: later_def)
  have r: "path_of r = [uid k]" "topo_checksum r = node_checksum k"
    using split(3) leaf_facts [of k] kids by (simp_all add: carries_def topology_packet_def)
  have "\<exists>p q s'. rbind (feed shipped_build lib e (xs @ (b, r) # ys) s) (expire shipped_build lib e) = Inr s' \<and>
    topology_packet (xor_list (r_checksums front @ [topo_checksum r]) XOR own_checksum e)
      (r_ids front @ [uid k, iotlab_uid e]) (r_leaf_rank front) p \<and>
    topology_packet (xor_list (r_checksums later) XOR own_checksum e)
      (r_ids later @ [iotlab_uid e]) (r_leaf_rank later) q \<and>
    sends s' = sends s @ parent_sends e 0 p @ parent_sends e 0 q"
  proof (rule feed_split [OF _ _ env _ _ _ front_def _ r(1) _ later_def])
    show "ready s" "cur_loc s = 0" using s by (simp_all add: booted_def)
    show "\<forall>(a, r)\<in>set (xs @ (b, r) # ys). topology_from s a r"
      using kids_topology_from [OF rs] kids s by (simp add: booted_def split(1))
    show "length xs < num_nodes (children s)" "length ys < num_nodes (children s)"
      using s child_answers_facts(1) [OF split(2)] child_answers_facts(1) [OF split(4)] len
      by (simp_all add: booted_def)
    show "length (r_ids front) + 3 = MAX_PATH_NODES" "uid k \<notin> set (r_ids front)" "fits later"
      using front later len dist by (simp_all add: size_defs fits_def)
  qed
  then show ?thesis
    using s unfolding front later r(2) split(1) [symmetric] by (simp add: booted_def) blast
qed

subsection \<open>Property\<close>

text \<open>
  C24: A relay with eight to ten leaves sends two packets: when the eighth has
  answered, one with the first eight ids, and when its timer expires one with the
  others. Both contain its own id and checksum, so that the checksums of the two
  packets, combined, are those of the leaves without its own, and differ from the
  checksum of the tree unless its own is zero.
\<close>

theorem large_star_sends_two_packets:
  assumes "wf_node (Node e a ks)" and "\<forall>k\<in>set ks. kids k = []" and "distinct (ids (Node e a ks))"
    and "8 \<le> length ks" and "contiki_lib_ok lib"
  shows "\<exists>rs p q s. answers_of lib ks = Some rs \<and>
    rbind (topology_round lib e rs) (expire shipped_build lib e) = Inr s \<and>
    filter is_send (outs s) = parent_sends e 0 p @ parent_sends e 0 q \<and>
    path_of p = map (iotlab_uid \<circ> node_env) (take 8 ks) @ [iotlab_uid e] \<and>
    path_of q = map (iotlab_uid \<circ> node_env) (drop 8 ks) @ [iotlab_uid e] \<and>
    topo_checksum p XOR topo_checksum q = node_checksum (Node e a ks) XOR own_checksum e"
proof -
  define as k cs where parts: "as = take 7 ks" "k = ks ! 7" "cs = drop 8 ks"
  have ks: "ks = as @ k # cs" "length as = 7" "take 8 ks = as @ [k]"
    using assms(4) id_take_nth_drop [of 7 ks] take_Suc_conv_app_nth [of 7 ks] by (simp_all add: parts)
  have node: "wf_env e" "udp_new_ok e = (\<lambda>n. True)" "length cs \<le> 2"
    using assms(1) by (auto simp: size_defs parts)
  have "concat (map ids ks) = map uid ks" using assms(2) leaf_facts(1) by (induction ks) simp_all
  then have dist: "distinct (map uid ks)" using assms(3) by (simp add: ids_Node)
  have kids: "\<forall>l\<in>set ks. kids l = [] \<and> wf_network l" using kid_wf_network assms(1,2) by blast
  obtain rs where rs: "answers_of lib ks = Some rs" "child_answers ks rs"
    using answer_carries(2) [of ks lib] kids assms(5) by blast
  have "ks \<noteq> []" by (simp add: ks(1))
  from boot_of_node [OF assms(1) this assms(5)] obtain s where boot: "relay_boot lib e = Inr s"
    and s: "booted e ks s" .
  from star_round [of e as k cs s rs lib] obtain p q s' n n' where
    run: "rbind (feed shipped_build lib e rs s) (expire shipped_build lib e) = Inr s'"
    and p: "topology_packet (xor_list (map node_checksum (as @ [k])) XOR own_checksum e)
      (map uid (as @ [k]) @ [iotlab_uid e]) n p"
    and q: "topology_packet (xor_list (map node_checksum cs) XOR own_checksum e)
      (map uid cs @ [iotlab_uid e]) n' q"
    and sent: "sends s' = parent_sends e 0 p @ parent_sends e 0 q"
    using node s rs(2) kids ks(2) dist unfolding ks(1) by blast
  have "rbind (topology_round lib e rs) (expire shipped_build lib e) = Inr s'"
    using boot run by (simp add: topology_round_def)
  moreover have "topo_checksum p XOR topo_checksum q = node_checksum (Node e a ks) XOR own_checksum e"
    using p q by (simp add: topology_packet_def node_checksum_Node ks(1) ac_simps)
  ultimately show ?thesis
    using rs(1) p q sent ks(3)
    by (intro exI [of _ rs] exI [of _ p] exI [of _ q] exI [of _ s'])
      (simp add: topology_packet_def sends_def parts(3) comp_def)
qed

text \<open>A relay with eight leaves.\<close>

definition sample_star :: node where
  "sample_star = Node (sample_env 9 512 (\<lparr>p_rank = 256, p_addr = sample_ip 10\<rparr> #
       map (\<lambda>n. \<lparr>p_rank = 768, p_addr = sample_ip n\<rparr>) [1, 2, 3, 4, 5, 6, 7, 8]))
     (sample_ip 9) (map sample_leaf [1, 2, 3, 4, 5, 6, 7, 8])"

lemma large_star_sends_two_packets_witness:
  "\<exists>rs p q s. answers_of sample_lib (kids sample_star) = Some rs \<and>
    rbind (topology_round sample_lib (node_env sample_star) rs)
      (expire shipped_build sample_lib (node_env sample_star)) = Inr s \<and>
    filter is_send (outs s) =
      [Unicast_sendto (sample_ip 10) (response_bytes p), Unicast_sendto (sample_ip 10) (response_bytes q)] \<and>
    path_of p = [1, 2, 3, 4, 5, 6, 7, 8, 9] \<and> path_of q = [9]"
proof -
  let ?e = "node_env sample_star" and ?ks = "map sample_leaf [1, 2, 3, 4, 5, 6, 7, 8]"
  have star: "sample_star = Node ?e (sample_ip 9) ?ks" by (simp add: sample_star_def)
  have "wf_node (Node ?e (sample_ip 9) ?ks)"
    by (simp add: sample_star_def sample_leaf_def child_nbrs_def size_defs)
  moreover have "\<forall>k\<in>set ?ks. kids k = []" by (simp add: sample_leaf_def)
  moreover have "distinct (ids (Node ?e (sample_ip 9) ?ks))"
    by (simp add: sample_star_def sample_leaf_def ids_def)
  ultimately obtain rs p q s where *: "answers_of sample_lib ?ks = Some rs"
    "rbind (topology_round sample_lib ?e rs) (expire shipped_build sample_lib ?e) = Inr s"
    "filter is_send (outs s) = parent_sends ?e 0 p @ parent_sends ?e 0 q"
    "path_of p = map (iotlab_uid \<circ> node_env) (take 8 ?ks) @ [iotlab_uid ?e]"
    "path_of q = map (iotlab_uid \<circ> node_env) (drop 8 ?ks) @ [iotlab_uid ?e]"
    using large_star_sends_two_packets [of ?e "sample_ip 9" ?ks sample_lib] sample_lib_ok by fastforce
  moreover have "parent_sends ?e 0 x = [Unicast_sendto (sample_ip 10) (response_bytes x)]" for x
    by (simp add: parent_sends_def sample_star_def)
  moreover have "kids sample_star = ?ks" by (simp add: sample_star_def)
  ultimately show ?thesis
    by (intro exI [of _ rs] exI [of _ p] exI [of _ q] exI [of _ s]) (simp add: sample_star_def sample_leaf_def)
qed

end
