(* ===== verification/Relay_Conserves.thy ===== *)
theory Relay_Conserves
  imports Relay_Timeout
begin

text \<open>
  What a relay does to topology responses without any assumption on their number,
  size or order: whatever it has accepted it holds or has sent. Every packet it
  sends adds its own checksum and its own id.
\<close>

subsection \<open>The flow of checksums and ids through a relay\<close>

definition ids_of :: "response_pkt list \<Rightarrow> u16 set" where
  "ids_of ps = (\<Union>r\<in>set ps. set (path_of r))"

definition own_times :: "env \<Rightarrow> nat \<Rightarrow> u64" where
  "own_times e n = (if odd n then own_checksum e else 0)"

definition own_ids :: "env \<Rightarrow> nat \<Rightarrow> u16 set" where
  "own_ids e n = (if n = 0 then {} else {iotlab_uid e})"

definition well_sent :: "response_pkt \<Rightarrow> bool" where
  "well_sent r \<longleftrightarrow> wf_response r \<and> pkt_type r = TOPOLOGY \<and> unat (topo_pathindex r) \<le> MAX_PATH_NODES \<and>
     path_of r \<noteq> []"

text \<open>
  From \<open>s\<close>, with the ids \<open>H\<close> in hand, to \<open>s'\<close> with \<open>H'\<close>: the checksum \<open>c\<close> and the
  ids \<open>N\<close> came in, the packets \<open>ps\<close> went out.
\<close>

definition flows :: "env \<Rightarrow> relay \<Rightarrow> u16 set \<Rightarrow> u64 \<Rightarrow> u16 set \<Rightarrow> response_pkt list \<Rightarrow> relay \<Rightarrow> u16 set \<Rightarrow> bool" where
  "flows e s H c N ps s' H' \<longleftrightarrow>
     (\<exists>new. outs s' = outs s @ new \<and> filter is_send new = concat (map (parent_sends e 0) ps)) \<and>
     list_all well_sent ps \<and>
     xor_list (map topo_checksum ps) XOR xor_list (received s') =
       xor_list (received s) XOR c XOR own_times e (length ps) \<and>
     ids_of ps \<union> H' = H \<union> N \<union> own_ids e (length ps) \<and>
     child_ids (children s') = child_ids (children s) \<and> num_nodes (children s') = num_nodes (children s)"

lemma ids_of_simps [simp]:
  "ids_of [] = {}" "ids_of (r # ps) = set (path_of r) \<union> ids_of ps" "ids_of (ps @ qs) = ids_of ps \<union> ids_of qs"
  by (auto simp: ids_of_def)

lemma own_times_simps [simp]:
  "own_times e 0 = 0" "own_times e (Suc 0) = own_checksum e" "own_times e (m + n) = own_times e m XOR own_times e n"
  by (auto simp: own_times_def)

lemma own_ids_simps [simp]:
  "own_ids e 0 = {}" "own_ids e (Suc n) = {iotlab_uid e}" "own_ids e (m + n) = own_ids e m \<union> own_ids e n"
  by (auto simp: own_ids_def)

lemma flows_refl: "H \<union> N = H \<Longrightarrow> flows e s H 0 N [] s H"
  by (simp add: flows_def)

lemma xor_chain:
  fixes p :: "'a::len word"
  assumes "q XOR u = t XOR d XOR n" and "p XOR t = s XOR c XOR m"
  shows "(p XOR q) XOR u = s XOR (c XOR d) XOR (m XOR n)"
proof -
  have "(p XOR q) XOR u = (p XOR t) XOR d XOR n" using assms(1) by (simp add: xor.assoc)
  then show ?thesis by (simp add: assms(2) ac_simps)
qed

lemma flows_trans:
  assumes "flows e s H c N ps t G" and "flows e t G d M qs u F"
  shows "flows e s H (c XOR d) (N \<union> M) (ps @ qs) u F"
proof -
  have "xor_list (map topo_checksum qs) XOR xor_list (received u) =
      xor_list (received t) XOR d XOR own_times e (length qs)"
    and "xor_list (map topo_checksum ps) XOR xor_list (received t) =
      xor_list (received s) XOR c XOR own_times e (length ps)"
    using assms by (simp_all add: flows_def)
  note xor_chain [OF this]
  moreover have "ids_of (ps @ qs) \<union> F = H \<union> (N \<union> M) \<union> own_ids e (length (ps @ qs))"
    using assms by (auto simp: flows_def)
  moreover obtain new where "outs t = outs s @ new" "filter is_send new = concat (map (parent_sends e 0) ps)"
    using assms(1) by (auto simp: flows_def)
  moreover obtain new' where "outs u = outs t @ new'" "filter is_send new' = concat (map (parent_sends e 0) qs)"
    using assms(2) by (auto simp: flows_def)
  ultimately show ?thesis using assms by (auto simp: flows_def)
qed

text \<open>Storing an id changes nothing but what is in hand.\<close>

lemma flows_store:
  "i < length (paths s) \<Longrightarrow>
     flows e s (set (take i (paths s))) 0 {v} [] (s\<lparr>paths := (paths s)[i := v]\<rparr>)
       (set (take (Suc i) ((paths s)[i := v])))"
  by (auto simp: flows_def received_def take_list_update_Suc)

subsection \<open>Sending\<close>

fun arms :: "effect \<Rightarrow> bool" where
  "arms (Ctimer_set Periodic_timer t cb) = True"
| "arms (Ctimer_reset Periodic_timer) = True"
| "arms _ = False"

text \<open>Has the relay started its timer on the way from \<open>s\<close> to \<open>s'\<close>?\<close>

definition rearmed :: "relay \<Rightarrow> relay \<Rightarrow> bool" where
  "rearmed s s' \<longleftrightarrow> list_ex arms (drop (length (outs s)) (outs s'))"

lemma flows_rearmed: "rearmed s t \<Longrightarrow> flows e t H c N ps u G \<Longrightarrow> rearmed s u"
  by (auto simp: rearmed_def flows_def)

lemma parent_sends_no_timer: "\<not> list_ex arms (parent_sends e c r)"
  by (auto simp: parent_sends_def list_ex_iff)

lemma topology_packet_well_sent:
  "topology_packet c xs m r \<Longrightarrow> xs \<noteq> [] \<Longrightarrow> length xs \<le> MAX_PATH_NODES \<Longrightarrow> well_sent r"
  by (simp add: topology_packet_def well_sent_def)

lemma send_flows:
  assumes "relay_arrays s" and "paths_loc s < MAX_PATH_NODES - 1" and "wf_env e" and "udp_new_ok e = (\<lambda>n. True)"
  obtains r s' where "send_topology_resp e s = Inr s'" and "flows e s (set (collected s)) 0 {} [r] s' {}"
    and "cur_loc s' = 0" and "paths_loc s' = 0" and "relay_arrays s'" and "\<not> rearmed s s'"
    and "timer_callback t (outs s') = timer_callback t (outs s)"
proof -
  from send_topology_resp_spec [OF assms(1-3)] obtain r where
    r: "send_topology_resp e s = Inr (reset_variable (s\<lparr>my_checksum := own_checksum e,
       outs := send_to_parents e r 0 (outs s)\<rparr>))" (is "_ = Inr ?s'")
    and pk: "topology_packet (xor_list (received s) XOR own_checksum e)
           (collected s @ [iotlab_uid e]) (max_leaf_rank s) r" .
  have "well_sent r"
    using pk assms(1,2) by (intro topology_packet_well_sent [OF pk]) (simp_all add: collected_def)
  then have "flows e s (set (collected s)) 0 {} [r] ?s' {}"
    using pk assms(4) by (simp add: flows_def topology_packet_def send_to_parents_eq received_def)
  moreover have "\<not> rearmed s ?s'"
    using assms(4) parent_sends_no_timer [of e 0 r] by (simp add: rearmed_def send_to_parents_eq)
  ultimately show ?thesis using that [OF r] assms(1) by simp
qed

subsection \<open>One response\<close>

text \<open>
  The loop over the path, with the ids before \<open>i\<close> in hand: it sends once for
  every eight ids at most.
\<close>

definition loop_flows :: "env \<Rightarrow> nat \<Rightarrow> relay \<Rightarrow> u16 set \<Rightarrow> nat \<Rightarrow> nat \<Rightarrow> relay \<Rightarrow> response_pkt list \<Rightarrow> bool" where
  "loop_flows e i s N n i' s' ps \<longleftrightarrow>
     flows e s (set (take i (paths s))) 0 N ps s' (set (take i' (paths s'))) \<and>
     i' + 8 * length ps \<le> i + n \<and> i' < MAX_PATH_NODES - 2 \<and> relay_inv s' \<and>
     cur_loc s' = (if ps = [] then cur_loc s else 0) \<and>
     timer_callback Periodic_timer (outs s') = timer_callback Periodic_timer (outs s)"

lemma loop_flows_step:
  assumes "flows e s (set (take i (paths s))) 0 {v} qs u (set (take k (paths u)))"
    and "k + 8 * length qs \<le> Suc i" and "cur_loc u = (if qs = [] then cur_loc s else 0)"
    and "timer_callback Periodic_timer (outs u) = timer_callback Periodic_timer (outs s)"
    and "loop_flows e k u N n i' s' ps"
  shows "loop_flows e i s (insert v N) (Suc n) i' s' (qs @ ps)"
proof -
  have "flows e s (set (take i (paths s))) (0 XOR 0) ({v} \<union> N) (qs @ ps) s' (set (take i' (paths s')))"
    using assms(1,5) by (intro flows_trans) (auto simp: loop_flows_def)
  then show ?thesis using assms(2-5) by (auto simp: loop_flows_def)
qed

lemma merge_paths_flows:
  assumes "relay_inv s" and "i < MAX_PATH_NODES - 2" and "wf_env e" and "udp_new_ok e = (\<lambda>n. True)"
    and "paths_loc s \<le> i" and "\<forall>j\<in>set js. j < MAX_PATH_NODES"
  shows "\<exists>i' s' ps. merge_paths e resp js i s = Inr (i', s') \<and>
    loop_flows e i s ((\<lambda>j. path_at j resp) ` set js) (length js) i' s' ps"
  using assms
proof (induction js arbitrary: i s)
  case Nil
  then have "loop_flows e i s {} 0 i s []" by (simp add: loop_flows_def flows_refl)
  then show ?case by auto
next
  case (Cons j js)
  let ?v = "path_at j resp" and ?H = "\<lambda>i s. set (take i (paths s))" and ?N = "(\<lambda>j. path_at j resp) ` set js"
  have len: "i < length (paths s)"
    using Cons.prems(1,2) by (simp add: relay_inv_def relay_arrays_def)
  have js: "j < MAX_PATH_NODES" "\<forall>j\<in>set js. j < MAX_PATH_NODES" using Cons.prems(6) by simp_all
  have step: "\<exists>i' s' ps. merge_paths e resp (j # js) i s = Inr (i', s') \<and>
      loop_flows e i s (insert ?v ?N) (Suc (length js)) i' s' ps"
    if h: "merge_paths e resp (j # js) i s = merge_paths e resp js k u" "relay_inv u" "k < MAX_PATH_NODES - 2"
      "paths_loc u \<le> k" "flows e s (?H i s) 0 {?v} qs u (?H k u)" "k + 8 * length qs \<le> Suc i"
      "cur_loc u = (if qs = [] then cur_loc s else 0)"
      "timer_callback Periodic_timer (outs u) = timer_callback Periodic_timer (outs s)" for k u qs
  proof -
    obtain i' s' ps where "merge_paths e resp js k u = Inr (i', s')" "loop_flows e k u ?N (length js) i' s' ps"
      using Cons.IH [OF h(2,3) Cons.prems(3,4) h(4) js(2)] by blast
    with loop_flows_step [OF h(5-8)] show ?thesis unfolding h(1) by blast
  qed
  from Cons.prems(1-3) js(1) show ?case
  proof (cases rule: merge_paths_step [where resp = resp and js = js])
    case known
    have "?v \<in> ?H i s" using known(1) Cons.prems(5) set_take_subset_set_take by (fastforce simp: collected_def)
    then have "flows e s (?H i s) 0 {?v} [] s (?H i s)" by (intro flows_refl) auto
    then show ?thesis using step [OF known(2) Cons.prems(1,2,5)] by simp
  next
    case (store u)
    then show ?thesis
      using step [OF store(4) store(2,3), of "[]"] flows_store [OF len] Cons.prems(5) by simp
  next
    case (flush u w)
    obtain r where w: "flows e u (set (collected u)) 0 {} [r] w {}" "cur_loc w = 0" "paths_loc w = 0"
      "timer_callback Periodic_timer (outs w) = timer_callback Periodic_timer (outs u)"
      using send_flows [OF flush(2,3) Cons.prems(3,4)] flush(5) by (metis Inr_inject)
    have "flows e s (?H i s) 0 {?v} [] u (set (collected u))"
      using flows_store [OF len] by (simp add: flush(1) flows_def collected_def received_def)
    then have "flows e s (?H i s) (0 XOR 0) ({?v} \<union> {}) ([] @ [r]) w {}"
      using w(1) by (rule flows_trans)
    then have "flows e s (?H i s) 0 {?v} [r] (reset_variable w) (?H 0 (reset_variable w))"
      using w(2) by (simp add: flows_def received_def)
    moreover have "8 \<le> Suc i" using flush(4) by (simp add: size_defs)
    ultimately show ?thesis
      using step [OF flush(7), of "[r]"] flush(1,6) w(4) by (simp add: size_defs)
  qed
qed

text \<open>
  A relay between two events of a topology round: what it holds, its timer will
  send.
\<close>

definition holding :: "relay \<Rightarrow> bool" where
  "holding s \<longleftrightarrow> collected s \<noteq> [] \<or> received s \<noteq> []"

definition steady :: "relay \<Rightarrow> bool" where
  "steady s \<longleftrightarrow> ready s \<and>
     (case timer_callback Periodic_timer (outs s) of None \<Rightarrow> \<not> holding s | Some cb \<Rightarrow> cb = Call_send_topology_resp)"

text \<open>The response is stored and its path merged, before the relay decides whether to send.\<close>

lemma merged_flows:
  assumes "ready s" and "wf_env e" and "udp_new_ok e = (\<lambda>n. True)" and "topology_from s a r"
  obtains u ps where "flows e s (set (collected s)) (topo_checksum r) (set (path_of r)) ps u (set (collected u))"
    and "rearmed s u" and "relay_inv u" and "length ps \<le> 2" and "cur_loc u = (if ps = [] then Suc (cur_loc s) else 0)"
    and "timer_callback Periodic_timer (outs u) = timer_callback Periodic_timer (outs s)"
    and "relay_step b lib e (Tcpip_event True a (response_bytes r)) s =
      (if cur_loc u = num_nodes (children s) then send_topology_resp e u
       else Inr (emit (Ctimer_set Periodic_timer
              (unat (get_topology_timeout e) * clock_second e) Call_send_topology_resp) u))"
proof -
  let ?n = "unat (topo_pathindex r)"
  let ?t = "(emit (Ctimer_reset Periodic_timer) (s\<lparr>send_pkt_count := send_pkt_count s + 1\<rparr>))
       \<lparr>children := snd (child_set_pkt_received (children s) (get_id_from_addr a)),
        checksum_children := (checksum_children s)[cur_loc s := topo_checksum r], cur_loc := Suc (cur_loc s)\<rparr>"
  have s: "relay_inv s" "cur_loc s < MAX_CHILD" "num_nodes (children s) \<le> MAX_CHILD"
    using assms(1) by (simp_all add: ready_def)
  then have len: "length (checksum_children s) = MAX_CHILD" "paths_loc s < MAX_PATH_NODES - 2"
    by (simp_all add: relay_inv_def relay_arrays_def)
  have t: "relay_inv ?t" "received ?t = received s @ [topo_checksum r]" "collected ?t = collected s"
    using s len by (simp_all add: received_def collected_def take_list_update_Suc)
  have n: "\<forall>j\<in>set [0..<?n]. j < MAX_PATH_NODES" "?n \<le> MAX_PATH_NODES" "is_child (children s) (get_id_from_addr a)"
    using assms(4) by (simp_all add: topology_from_def)
  from merge_paths_flows [OF t(1) _ assms(2,3) _ n(1), of "paths_loc s" r] len(2) obtain i v ps where
    m: "merge_paths e r [0..<?n] (paths_loc s) ?t = Inr (i, v)"
    and fl: "loop_flows e (paths_loc s) ?t ((\<lambda>j. path_at j r) ` set [0..<?n]) ?n i v ps"
    by auto
  define u where "u = v\<lparr>paths_loc := i, max_leaf_rank :=
    (if max_leaf_rank v < topo_max_leaf_rank r then topo_max_leaf_rank r else max_leaf_rank v)\<rparr>"
  have "(\<lambda>j. path_at j r) ` set [0..<?n] = set (path_of r)" by (simp add: path_of_def path_prefix_def)
  with fl have v: "flows e ?t (set (collected s)) 0 (set (path_of r)) ps v (set (take i (paths v)))"
    "i + 8 * length ps \<le> paths_loc s + ?n" "i < MAX_PATH_NODES - 2" "relay_inv v"
    "cur_loc v = (if ps = [] then Suc (cur_loc s) else 0)"
    "timer_callback Periodic_timer (outs v) = timer_callback Periodic_timer (outs s)"
    by (simp_all add: loop_flows_def collected_def timer_callback_append split: if_splits)
  have stored: "flows e s (set (collected s)) (topo_checksum r) {} [] ?t (set (collected s))"
    using t by (simp add: flows_def)
  have "flows e v (set (take i (paths v))) 0 {} [] u (set (collected u))"
    by (simp add: flows_def u_def collected_def received_def)
  from flows_trans [OF flows_trans [OF stored v(1)] this]
  have "flows e s (set (collected s)) (topo_checksum r) (set (path_of r)) ps u (set (collected u))"
    by simp
  moreover have "rearmed s u"
    using flows_rearmed [OF _ v(1), of s] by (simp add: rearmed_def u_def)
  moreover have "relay_inv u" using v(3,4) by (simp add: u_def relay_inv_def)
  moreover have "length ps \<le> 2" using v(2) len(2) n(2) by (simp add: size_defs)
  moreover have "unat (get_child_count (children u)) = num_nodes (children s)"
    using child_count_small [of "children u"] calculation(1) s(3) by (simp add: flows_def)
  ultimately show ?thesis
    using that [of ps u] v(5,6) relay_step_topology [OF ready_not_leaf [OF assms(1)] assms(4)] len s(2) n(3) m
    by (simp add: process_topology_req_def Let_def u_def)
qed

lemma response_flows:
  assumes "ready s" and "wf_env e" and "udp_new_ok e = (\<lambda>n. True)" and "topology_from s a r" and "steady s"
  shows "\<exists>ps s'. relay_step b lib e (Tcpip_event True a (response_bytes r)) s = Inr s' \<and>
    flows e s (set (collected s)) (topo_checksum r) (set (path_of r)) ps s' (set (collected s')) \<and>
    length ps \<le> 2 \<and> steady s' \<and> rearmed s s'"
proof -
  from merged_flows [OF assms(1-4), of b lib] obtain u ps where
    fl: "flows e s (set (collected s)) (topo_checksum r) (set (path_of r)) ps u (set (collected u))"
    and on: "rearmed s u" and u: "relay_inv u" "length ps \<le> 2" "cur_loc u = (if ps = [] then Suc (cur_loc s) else 0)"
      "timer_callback Periodic_timer (outs u) = timer_callback Periodic_timer (outs s)"
    and step: "relay_step b lib e (Tcpip_event True a (response_bytes r)) s =
      (if cur_loc u = num_nodes (children s) then send_topology_resp e u
       else Inr (emit (Ctimer_set Periodic_timer
              (unat (get_topology_timeout e) * clock_second e) Call_send_topology_resp) u))" .
  have s: "cur_loc s < num_nodes (children s)" "num_nodes (children s) \<le> MAX_CHILD"
    using assms(1) by (simp_all add: ready_def)
  show ?thesis
  proof (cases "cur_loc u = num_nodes (children s)")
    case True
    then have ps: "ps = []" using u(3) s by (auto split: if_splits)
    have arr: "relay_arrays u" "paths_loc u < MAX_PATH_NODES - 1" using u(1) by (auto simp: relay_inv_def)
    from send_flows [OF this assms(2,3), of Periodic_timer] obtain p w where
      w: "send_topology_resp e u = Inr w" "flows e u (set (collected u)) 0 {} [p] w {}" "cur_loc w = 0"
        "paths_loc w = 0" "relay_arrays w" "\<not> rearmed u w"
        "timer_callback Periodic_timer (outs w) = timer_callback Periodic_timer (outs u)" .
    have "\<not> holding w" using w(3,4) by (simp add: holding_def received_def collected_def)
    then have "steady w"
      using assms(5) w s fl u(4)
      by (auto simp: steady_def ready_def relay_inv_def flows_def size_defs split: option.splits)
    moreover have "flows e s (set (collected s)) (topo_checksum r) (set (path_of r)) [p] w (set (collected w))"
      using flows_trans [OF fl w(2)] w(4) ps by (simp add: collected_def)
    moreover have "rearmed s w" using flows_rearmed [OF on w(2)] .
    ultimately show ?thesis using step True w(1) by (intro exI [of _ "[p]"] exI [of _ w]) simp
  next
    case False
    let ?w = "emit (Ctimer_set Periodic_timer
              (unat (get_topology_timeout e) * clock_second e) Call_send_topology_resp) u"
    have "steady ?w"
      using u False s fl by (auto simp: steady_def ready_def timer_callback_append flows_def split: if_splits)
    moreover have "flows e s (set (collected s)) (topo_checksum r) (set (path_of r)) ps ?w (set (collected ?w))"
      using fl by (simp add: flows_def collected_def received_def) fastforce
    moreover have "rearmed s ?w" using on by (auto simp: rearmed_def)
    ultimately show ?thesis using step False u(2) by (intro exI [of _ ps] exI [of _ ?w]) simp
  qed
qed

subsection \<open>The timer\<close>

lemma expire_flows:
  assumes "steady s" and "wf_env e" and "udp_new_ok e = (\<lambda>n. True)"
  shows "\<exists>ps s'. expire b lib e s = Inr s' \<and> flows e s (set (collected s)) 0 {} ps s' (set (collected s')) \<and>
    length ps \<le> 1 \<and> steady s' \<and> \<not> holding s' \<and> \<not> rearmed s s'"
proof (cases "timer_callback Periodic_timer (outs s)")
  case None
  then show ?thesis
    using assms(1) flows_refl [of "set (collected s)" "{}"]
    by (intro exI [of _ "[]"] exI [of _ s]) (simp add: fire_def steady_def rearmed_def)
next
  case (Some cb)
  then have cb: "cb = Call_send_topology_resp" and s: "ready s" using assms(1) by (auto simp: steady_def)
  have arr: "relay_arrays s" "paths_loc s < MAX_PATH_NODES - 1" using s by (auto simp: ready_def relay_inv_def)
  from send_flows [OF this assms(2,3), of Periodic_timer] obtain p w where
    w: "send_topology_resp e s = Inr w" "flows e s (set (collected s)) 0 {} [p] w {}" "cur_loc w = 0"
      "paths_loc w = 0" "relay_arrays w" "\<not> rearmed s w"
      "timer_callback Periodic_timer (outs w) = timer_callback Periodic_timer (outs s)" .
  have "\<not> holding w" using w(3,4) by (simp add: holding_def received_def collected_def)
  moreover have "steady w"
    using w s Some cb by (auto simp: steady_def ready_def relay_inv_def flows_def size_defs)
  ultimately show ?thesis
    using w Some cb by (intro exI [of _ "[p]"] exI [of _ w]) (simp add: fire_def collected_def)
qed

end
