(* ===== verification/Network_Run.thy ===== *)
theory Network_Run
  imports Network Relay_Conserves
begin

text \<open>
  A network of any size as a machine: the topology request reaches the leaves in
  any order and any number of times, datagrams arrive in any order or are lost,
  timers expire at any time. What the border router prints is exactly what the
  nodes have sent.
\<close>

subsection \<open>The nodes and their places\<close>

text \<open>
  The trees below the border router, whose address is \<open>up\<close> at the top: every
  node with the address of its parent and its depth.
\<close>

fun places :: "nat \<Rightarrow> ipaddr \<Rightarrow> node \<Rightarrow> (node \<times> ipaddr \<times> nat) list" where
  "places d up (Node e a ks) = concat (map (places (Suc d) a) ks) @ [(Node e a ks, up, d)]"

definition all_places :: "ipaddr \<Rightarrow> node list \<Rightarrow> (node \<times> ipaddr \<times> nat) list" where
  "all_places ra ts = concat (map (places 1 ra) ts)"

definition sites :: "ipaddr \<Rightarrow> node list \<Rightarrow> node list" where
  "sites ra ts = map fst (all_places ra ts)"

abbreviation nid :: "node \<Rightarrow> u16" where
  "nid k \<equiv> iotlab_uid (node_env k)"

text \<open>The addresses a node sends a topology response to; a leaf does not look at ranks.\<close>

definition receivers :: "node \<Rightarrow> ipaddr list" where
  "receivers k = map p_addr (filter (\<lambda>p. kids k = [] \<or> p_rank p < dag_rank (node_env k)) (rpl_parents (node_env k)))"

definition wf_forest :: "ipaddr \<Rightarrow> node list \<Rightarrow> bool" where
  "wf_forest ra ts \<longleftrightarrow> (\<forall>t\<in>set ts. wf_node t) \<and> distinct (map nid (sites ra ts)) \<and>
     (\<forall>k\<in>set (sites ra ts). node_ip k \<noteq> ra) \<and>
     (\<forall>(k, up, d)\<in>set (all_places ra ts). receivers k = [up])"

subsection \<open>The state of the network\<close>

text \<open>A datagram in flight: source, destination, payload. \<open>dropped\<close> remembers what was lost.\<close>

type_synonym datagram = "ipaddr \<times> ipaddr \<times> u8 list"

record net =
  relays :: "u16 \<Rightarrow> relay"
  clients :: "u16 \<Rightarrow> client"
  armed :: "u16 \<Rightarrow> bool"  \<comment> \<open>is \<open>periodic_timer\<close> of the relay running\<close>
  flight :: "datagram list"
  dropped :: "datagram list"
  router :: "32 word border"

datatype net_event =
    Ask u16  \<comment> \<open>the topology request reaches a leaf\<close>
  | Deliver nat
  | Lose nat
  | Expire u16

fun outgoing :: "ipaddr \<Rightarrow> effect list \<Rightarrow> datagram list" where
  "outgoing src [] = []"
| "outgoing src (f # fs) =
     (case f of Unicast_sendto dst bs \<Rightarrow> (src, dst, bs) # outgoing src fs | _ \<Rightarrow> outgoing src fs)"

definition find_site :: "(node \<Rightarrow> bool) \<Rightarrow> ipaddr \<Rightarrow> node list \<Rightarrow> node option" where
  "find_site P ra ts = find P (sites ra ts)"

text \<open>A relay has gone from \<open>relays n (nid k)\<close> to \<open>s\<close>; \<open>on\<close>: was its timer running.\<close>

definition relay_moves :: "node \<Rightarrow> bool \<Rightarrow> relay \<Rightarrow> net \<Rightarrow> net" where
  "relay_moves k on s n =
     (let new = drop (length (outs (relays n (nid k)))) (outs s)
      in n\<lparr>relays := (relays n)(nid k := s), armed := (armed n)(nid k := on \<or> rearmed (relays n (nid k)) s),
           flight := flight n @ outgoing (node_ip k) new\<rparr>)"

definition client_moves :: "node \<Rightarrow> client \<Rightarrow> net \<Rightarrow> net" where
  "client_moves k s n =
     (let new = drop (length (client_outs (clients n (nid k)))) (client_outs s)
      in n\<lparr>clients := (clients n)(nid k := s), flight := flight n @ outgoing (node_ip k) new\<rparr>)"

definition remove_nth :: "nat \<Rightarrow> 'a list \<Rightarrow> 'a list" where
  "remove_nth m xs = take m xs @ drop (Suc m) xs"

text \<open>
  Only relays listen on the port of the responses; a datagram to another node is
  discarded by its stack.
\<close>

definition deliver :: "contiki_lib \<Rightarrow> ipaddr \<Rightarrow> node list \<Rightarrow> datagram \<Rightarrow> net \<Rightarrow> net res" where
  "deliver lib ra ts dg n =
     (case dg of (src, dst, data) \<Rightarrow>
        if dst = ra then
          rbind (udp_checksum_callback src data (router n)) (\<lambda>b. Inr (n\<lparr>router := b\<rparr>))
        else (case find_site (\<lambda>k. node_ip k = dst) ra ts of
            None \<Rightarrow> Inr n
          | Some k \<Rightarrow>
              if kids k = [] then Inr n
              else rbind (relay_step shipped_build lib (node_env k) (Tcpip_event True src data) (relays n (nid k)))
                     (\<lambda>s. Inr (relay_moves k (armed n (nid k)) s n))))"

fun net_step :: "contiki_lib \<Rightarrow> ipaddr \<Rightarrow> node list \<Rightarrow> net_event \<Rightarrow> net \<Rightarrow> net res" where
  "net_step lib ra ts (Ask i) n =
     (case find_site (\<lambda>k. nid k = i) ra ts of
        None \<Rightarrow> Inr n
      | Some k \<Rightarrow>
          if kids k = [] then
            Inr (client_moves k (client_tcpip_handler shipped_build (node_env k) True topology_request
              (clients n i)) n)
          else Inr n)"
| "net_step lib ra ts (Deliver m) n =
     deliver lib ra ts (flight n ! m) (n\<lparr>flight := remove_nth m (flight n)\<rparr>)"
| "net_step lib ra ts (Lose m) n =
     Inr (n\<lparr>flight := remove_nth m (flight n), dropped := dropped n @ [flight n ! m]\<rparr>)"
| "net_step lib ra ts (Expire i) n =
     (case find_site (\<lambda>k. nid k = i) ra ts of
        None \<Rightarrow> Inr n
      | Some k \<Rightarrow>
          rbind (expire shipped_build lib (node_env k) (relays n i)) (\<lambda>s. Inr (relay_moves k False s n)))"

text \<open>Which events can happen: datagrams that are there, timers that run.\<close>

fun net_possible :: "ipaddr \<Rightarrow> node list \<Rightarrow> net_event \<Rightarrow> net \<Rightarrow> bool" where
  "net_possible ra ts (Ask i) n \<longleftrightarrow> True"
| "net_possible ra ts (Deliver m) n \<longleftrightarrow> m < length (flight n)"
| "net_possible ra ts (Lose m) n \<longleftrightarrow> m < length (flight n)"
| "net_possible ra ts (Expire i) n \<longleftrightarrow> armed n i \<and> i \<in> nid ` set (sites ra ts)"

text \<open>The relays have settled, nothing has been sent.\<close>

definition net_start :: "contiki_lib \<Rightarrow> ipaddr \<Rightarrow> node list \<Rightarrow> net \<Rightarrow> bool" where
  "net_start lib ra ts n \<longleftrightarrow>
     list_all (\<lambda>k. kids k = [] \<or> relay_boot lib (node_env k) = Inr (relays n (nid k))) (sites ra ts) \<and>
     clients n = (\<lambda>i. initial_client) \<and> armed n = (\<lambda>i. False) \<and> flight n = [] \<and> dropped n = [] \<and>
     router n = initial_border"

abbreviation net_reachable :: "contiki_lib \<Rightarrow> ipaddr \<Rightarrow> node list \<Rightarrow> net \<Rightarrow> bool" where
  "net_reachable lib ra ts \<equiv> reachable (net_start lib ra ts) (net_possible ra ts) (net_step lib ra ts)"

end
