(* ===== verification/Network_Flow.thy ===== *)
theory Network_Flow
  imports Network_Run
begin

text \<open>
  The invariant of the network machine: every node's own account of what it has
  sent and what it holds adds up to what is in flight, lost and printed.
\<close>

subsection \<open>Places\<close>

lemma places_self: "(k, up, d) \<in> set (places d up k)"
  by (cases k) simp

lemma places_kid:
  "(k, up, d) \<in> set (places m a t) \<Longrightarrow> c \<in> set (kids k) \<Longrightarrow> (c, node_ip k, Suc d) \<in> set (places m a t)"
proof (induction t arbitrary: m a)
  case (Node e b ks)
  then show ?case using places_self by (cases k) fastforce
qed

lemma places_depth: "(k, up, d) \<in> set (places m a t) \<Longrightarrow> m \<le> d"
proof (induction t arbitrary: m a)
  case (Node e b ks)
  then show ?case by (fastforce dest: Suc_leD)
qed

lemma places_parent:
  "(k, up, d) \<in> set (places m a t) \<Longrightarrow> (up = a \<and> d = m \<and> k = t) \<or>
     (\<exists>q up' d'. (q, up', d') \<in> set (places m a t) \<and> node_ip q = up \<and> d = Suc d' \<and> k \<in> set (kids q))"
proof (induction t arbitrary: m a)
  case (Node e b ks)
  show ?case
  proof (cases "(k, up, d) = (Node e b ks, a, m)")
    case False
    then obtain c where c: "c \<in> set ks" "(k, up, d) \<in> set (places (Suc m) b c)"
      using Node.prems by auto
    from Node.IH [OF this] consider "up = b" "d = Suc m" "k = c"
      | q up' d' where "(q, up', d') \<in> set (places (Suc m) b c)" "node_ip q = up" "d = Suc d'" "k \<in> set (kids q)"
      by blast
    then show ?thesis
    proof cases
      case 1
      then show ?thesis using c(1) by (intro disjI2 exI [of _ "Node e b ks"]) auto
    next
      case 2
      then show ?thesis using c(1) by (intro disjI2 exI [of _ q]) auto
    qed
  qed simp
qed

lemma places_wf: "(k, up, d) \<in> set (places m a t) \<Longrightarrow> wf_node t \<Longrightarrow> wf_node k"
proof (induction t arbitrary: m a)
  case (Node e b ks)
  then show ?case by auto
qed

lemma all_places_kid:
  "(k, up, d) \<in> set (all_places ra ts) \<Longrightarrow> c \<in> set (kids k) \<Longrightarrow> (c, node_ip k, Suc d) \<in> set (all_places ra ts)"
  using places_kid by (fastforce simp: all_places_def)

lemma all_places_parent:
  "(k, up, d) \<in> set (all_places ra ts) \<Longrightarrow> (up = ra \<and> d = 1) \<or>
     (\<exists>q up' d'. (q, up', d') \<in> set (all_places ra ts) \<and> node_ip q = up \<and> d = Suc d' \<and> k \<in> set (kids q))"
  using places_parent by (fastforce simp: all_places_def)

lemma site_place: "k \<in> set (sites ra ts) \<longleftrightarrow> (\<exists>up d. (k, up, d) \<in> set (all_places ra ts))"
  by (force simp: sites_def)

lemma site_wf: "wf_forest ra ts \<Longrightarrow> k \<in> set (sites ra ts) \<Longrightarrow> wf_node k"
  using places_wf by (fastforce simp: site_place all_places_def wf_forest_def)

lemma site_kid: "k \<in> set (sites ra ts) \<Longrightarrow> c \<in> set (kids k) \<Longrightarrow> c \<in> set (sites ra ts)"
  using all_places_kid by (fastforce simp: site_place)

lemma ip_id: "wf_forest ra ts \<Longrightarrow> k \<in> set (sites ra ts) \<Longrightarrow> get_id_from_addr (node_ip k) = nid k"
  using site_wf [of ra ts k] by (cases k) simp

lemma nid_inj:
  "wf_forest ra ts \<Longrightarrow> k \<in> set (sites ra ts) \<Longrightarrow> l \<in> set (sites ra ts) \<Longrightarrow> nid k = nid l \<longleftrightarrow> k = l"
  unfolding wf_forest_def distinct_map by (elim conjE) (rule inj_on_eq_iff)

lemma ip_inj:
  assumes "wf_forest ra ts" and "k \<in> set (sites ra ts)" and "l \<in> set (sites ra ts)"
  shows "node_ip k = node_ip l \<longleftrightarrow> k = l"
proof
  assume "node_ip k = node_ip l"
  then have "nid k = nid l" using ip_id [OF assms(1,2)] ip_id [OF assms(1,3)] by simp
  then show "k = l" using nid_inj [OF assms] by simp
qed simp

lemma find_unique:
  assumes "x \<in> set xs" and "P x" and "\<And>y. y \<in> set xs \<Longrightarrow> P y \<Longrightarrow> y = x"
  shows "find P xs = Some x"
proof (cases "find P xs")
  case None
  then show ?thesis using assms(1,2) by (simp add: find_None_iff)
next
  case (Some y)
  then have "y \<in> set xs" "P y" by (auto simp: find_Some_iff)
  with Some assms(3) show ?thesis by simp
qed

lemma find_site_id: "wf_forest ra ts \<Longrightarrow> k \<in> set (sites ra ts) \<Longrightarrow> find_site (\<lambda>x. nid x = nid k) ra ts = Some k"
  unfolding find_site_def by (rule find_unique) (simp_all add: nid_inj)

lemma find_site_ip:
  "wf_forest ra ts \<Longrightarrow> k \<in> set (sites ra ts) \<Longrightarrow> find_site (\<lambda>x. node_ip x = node_ip k) ra ts = Some k"
  unfolding find_site_def using ip_inj [of ra ts _ k] by (intro find_unique) blast+

lemma find_site_Some: "find_site P ra ts = Some k \<Longrightarrow> k \<in> set (sites ra ts) \<and> P k"
  by (auto simp: find_site_def find_Some_iff)

lemma site_receivers: "wf_forest ra ts \<Longrightarrow> (k, up, d) \<in> set (all_places ra ts) \<Longrightarrow> receivers k = [up]"
  by (auto simp: wf_forest_def)

text \<open>A node has one place.\<close>

lemma place_unique:
  assumes "wf_forest ra ts" and "(k, up, d) \<in> set (all_places ra ts)" and "(k, up', d') \<in> set (all_places ra ts)"
  shows "up = up' \<and> d = d'"
proof -
  have "distinct (sites ra ts)" using assms(1) distinct_map [of nid "sites ra ts"] by (simp add: wf_forest_def)
  then have "distinct (map fst (all_places ra ts))" by (simp add: sites_def)
  from eq_key_imp_eq_value [OF this assms(2,3)] show ?thesis by simp
qed

subsection \<open>Accounts that add up\<close>

text \<open>
  For each node of \<open>ks\<close> the exclusive-or of what it holds (\<open>h\<close>), the ids it
  holds (\<open>H\<close>) and the number of packets it has sent (\<open>c\<close>), against the packets
  \<open>xs\<close> that are on their way or have arrived.
\<close>

definition balanced :: "node list \<Rightarrow> (node \<Rightarrow> u64) \<Rightarrow> (node \<Rightarrow> u16 set) \<Rightarrow> (node \<Rightarrow> nat) \<Rightarrow> response_pkt list \<Rightarrow> bool" where
  "balanced ks h H c xs \<longleftrightarrow>
     xor_list (map topo_checksum xs) XOR xor_list (map h ks) =
       xor_list (map (\<lambda>k. own_times (node_env k) (c k)) ks) \<and>
     ids_of xs \<union> (\<Union>k\<in>set ks. H k) = (\<Union>k\<in>set ks. own_ids (node_env k) (c k))"

lemma balanced_cong:
  assumes "\<And>k. k \<in> set ks \<Longrightarrow> h k = h' k \<and> H k = H' k \<and> c k = c' k" and "mset xs = mset ys"
  shows "balanced ks h H c xs \<longleftrightarrow> balanced ks h' H' c' ys"
proof -
  have 1: "map h ks = map h' ks" "map (\<lambda>k. own_times (node_env k) (c k)) ks = map (\<lambda>k. own_times (node_env k) (c' k)) ks"
    using assms(1) by simp_all
  have 2: "(\<Union>k\<in>set ks. H k) = (\<Union>k\<in>set ks. H' k)"
    "(\<Union>k\<in>set ks. own_ids (node_env k) (c k)) = (\<Union>k\<in>set ks. own_ids (node_env k) (c' k))"
    using assms(1) by simp_all
  have 3: "ids_of xs = ids_of ys" using mset_eq_setD [OF assms(2)] by (simp add: ids_of_def)
  have 4: "xor_list (map topo_checksum xs) = xor_list (map topo_checksum ys)"
    using assms(2) by (intro xor_list_mset) simp
  show ?thesis unfolding balanced_def 1 2 3 4 ..
qed

lemma xor_list_update:
  "distinct ks \<Longrightarrow> k \<in> set ks \<Longrightarrow> xor_list (map (f(k := v)) ks) = xor_list (map f ks) XOR f k XOR (v :: 'a::len word)"
proof (induction ks)
  case (Cons l ks)
  show ?case
  proof (cases "k = l")
    case True
    then have "l \<notin> set ks" using Cons.prems by simp
    then show ?thesis unfolding True list.map by (simp add: ac_simps del: fun_upd_apply add: fun_upd_same)
  next
    case False
    then show ?thesis using Cons by (simp add: ac_simps)
  qed
qed simp

lemma Union_update:
  "k \<in> set ks \<Longrightarrow> (\<Union>l\<in>set ks. (f(k := v)) l) = v \<union> (\<Union>l\<in>set ks - {k}. f l)"
  "k \<in> set ks \<Longrightarrow> (\<Union>l\<in>set ks. f l) = f k \<union> (\<Union>l\<in>set ks - {k}. f l)"
  by auto

lemma xor_move:
  fixes a :: "'a::len word"
  assumes "a XOR r XOR s = t" and "out XOR h' = h XOR a XOR w"
  shows "(r XOR out) XOR (s XOR h XOR h') = t XOR w"
proof -
  have "(r XOR out) XOR (s XOR h XOR h') = r XOR s XOR h XOR (out XOR h')" by (simp add: ac_simps)
  also have "\<dots> = t XOR w" unfolding assms(2) assms(1) [symmetric] by (simp add: ac_simps)
  finally show ?thesis .
qed

text \<open>The node \<open>k\<close> consumes the packets \<open>ins\<close> and sends \<open>out\<close>.\<close>

lemma balanced_move:
  assumes "balanced ks h H c (ins @ rest)" and "distinct ks" and "k \<in> set ks"
    and "xor_list (map topo_checksum out) XOR h' =
      h k XOR xor_list (map topo_checksum ins) XOR own_times (node_env k) (length out)"
    and "ids_of out \<union> H' = H k \<union> ids_of ins \<union> own_ids (node_env k) (length out)"
  shows "balanced ks (h(k := h')) (H(k := H')) (c(k := c k + length out)) (rest @ out)"
proof -
  let ?own = "\<lambda>c k. own_times (node_env k) (c k)" and ?ids = "\<lambda>c k. own_ids (node_env k) (c k)"
  have fn: "?own (c(k := c k + length out)) = (?own c)(k := ?own c k XOR own_times (node_env k) (length out))"
    "?ids (c(k := c k + length out)) = (?ids c)(k := ?ids c k \<union> own_ids (node_env k) (length out))"
    by (auto simp: fun_eq_iff)
  have "xor_list (map topo_checksum ins) XOR xor_list (map topo_checksum rest) XOR xor_list (map h ks) =
      xor_list (map (?own c) ks)"
    using assms(1) by (simp add: balanced_def xor.assoc)
  from xor_move [OF this assms(4)] have "xor_list (map topo_checksum (rest @ out)) XOR xor_list (map (h(k := h')) ks) =
      xor_list (map (?own (c(k := c k + length out))) ks)"
    unfolding fn xor_list_update [OF assms(2,3)] by (simp add: xor.assoc)
  moreover have "ids_of (rest @ out) \<union> (\<Union>l\<in>set ks. (H(k := H')) l) = (\<Union>l\<in>set ks. ?ids (c(k := c k + length out)) l)"
    using assms(1,5) Union_update(2) [OF assms(3), of H] Union_update(2) [OF assms(3), of "?ids c"]
    unfolding fn Union_update(1) [OF assms(3)] balanced_def by auto
  ultimately show ?thesis by (simp add: balanced_def)
qed

subsection \<open>What the nodes hold and have sent\<close>

definition held :: "net \<Rightarrow> node \<Rightarrow> u64" where
  "held n k = (if kids k = [] then 0 else xor_list (received (relays n (nid k))))"

definition held_ids :: "net \<Rightarrow> node \<Rightarrow> u16 set" where
  "held_ids n k = (if kids k = [] then {} else set (collected (relays n (nid k))))"

definition sent_count :: "net \<Rightarrow> node \<Rightarrow> nat" where
  "sent_count n k = length (filter is_send
     (if kids k = [] then client_outs (clients n (nid k)) else outs (relays n (nid k))))"

definition payload :: "datagram \<Rightarrow> response_pkt" where
  "payload dg = response_of_bytes (snd (snd dg))"

text \<open>What the border router prints of a datagram.\<close>

definition prints :: "datagram \<Rightarrow> br_output list" where
  "prints dg = [Print_agg_path (path_of (payload dg)),
     Print_checksum (ucast (topo_checksum (payload dg))) (get_id_from_addr (fst dg))]"

definition site_ok :: "net \<Rightarrow> node \<Rightarrow> bool" where
  "site_ok n k \<longleftrightarrow> (if kids k = [] then \<not> armed n (nid k) else
     steady (relays n (nid k)) \<and> set (child_ids (children (relays n (nid k)))) = nid ` set (kids k) \<and>
     (holding (relays n (nid k)) \<longrightarrow> armed n (nid k)))"

definition datagram_ok :: "ipaddr \<Rightarrow> node list \<Rightarrow> datagram \<Rightarrow> bool" where
  "datagram_ok ra ts dg \<longleftrightarrow> (\<exists>k up d r. (k, up, d) \<in> set (all_places ra ts) \<and> well_sent r \<and>
     dg = (node_ip k, up, response_bytes r))"

text \<open>A node that has been sent something by a kid has answered or holds it.\<close>

definition passed_on :: "ipaddr \<Rightarrow> node list \<Rightarrow> net \<Rightarrow> bool" where
  "passed_on ra ts n \<longleftrightarrow> (\<forall>q\<in>set (sites ra ts). \<forall>k\<in>set (kids q). 0 < sent_count n k \<longrightarrow>
     0 < sent_count n q \<or> held_ids n q \<noteq> {} \<or> node_ip k \<in> fst ` set (flight n @ dropped n))"

definition ledger :: "ipaddr \<Rightarrow> node list \<Rightarrow> datagram list \<Rightarrow> net \<Rightarrow> bool" where
  "ledger ra ts arrived n \<longleftrightarrow> br_out (router n) = concat (map prints arrived) \<and>
     balanced (sites ra ts) (held n) (held_ids n) (sent_count n) (map payload (arrived @ flight n @ dropped n))"

definition net_inv :: "ipaddr \<Rightarrow> node list \<Rightarrow> net \<Rightarrow> bool" where
  "net_inv ra ts n \<longleftrightarrow> (\<forall>k\<in>set (sites ra ts). site_ok n k) \<and> list_all (datagram_ok ra ts) (flight n) \<and>
     passed_on ra ts n \<and> (\<exists>arrived. ledger ra ts arrived n)"

lemma payload_response [simp]: "wf_response r \<Longrightarrow> payload (src, dst, response_bytes r) = r"
  by (simp add: payload_def)

subsection \<open>Sending\<close>

lemma outgoing_append [simp]: "outgoing src (xs @ ys) = outgoing src xs @ outgoing src ys"
proof (induction xs)
  case (Cons f fs)
  then show ?case by (cases f) simp_all
qed simp

lemma outgoing_sends: "outgoing src os = outgoing src (filter is_send os)"
proof (induction os)
  case (Cons f fs)
  then show ?case by (cases f) simp_all
qed simp

lemma parent_sends_receivers:
  assumes "receivers k = [up]" and "c \<noteq> 0 \<longleftrightarrow> kids k = []"
  shows "parent_sends (node_env k) c r = [Unicast_sendto up (response_bytes r)]"
proof -
  have "filter (\<lambda>p. c \<noteq> 0 \<or> p_rank p < dag_rank (node_env k)) (rpl_parents (node_env k)) =
      filter (\<lambda>p. kids k = [] \<or> p_rank p < dag_rank (node_env k)) (rpl_parents (node_env k))"
    using assms(2) by simp
  moreover obtain p where "filter (\<lambda>p. kids k = [] \<or> p_rank p < dag_rank (node_env k)) (rpl_parents (node_env k)) = [p]"
    and "p_addr p = up"
    using assms(1) by (auto simp: receivers_def)
  ultimately show ?thesis by (simp add: parent_sends_def)
qed

lemma outgoing_packets:
  assumes "filter is_send new = concat (map (parent_sends (node_env k) c) ps)" and "receivers k = [up]"
    and "c \<noteq> 0 \<longleftrightarrow> kids k = []"
  shows "outgoing (node_ip k) new = map (\<lambda>r. (node_ip k, up, response_bytes r)) ps"
    and "length (filter is_send new) = length ps"
proof -
  have "filter is_send new = map (\<lambda>r. Unicast_sendto up (response_bytes r)) ps"
    unfolding assms(1) by (induction ps) (simp_all add: parent_sends_receivers [OF assms(2,3)])
  moreover have "outgoing a (map (\<lambda>r. Unicast_sendto up (response_bytes r)) ps) =
      map (\<lambda>r. (a, up, response_bytes r)) ps" for a
    by (induction ps) simp_all
  ultimately show "outgoing (node_ip k) new = map (\<lambda>r. (node_ip k, up, response_bytes r)) ps"
    and "length (filter is_send new) = length ps"
    by (simp_all add: outgoing_sends [of _ new])
qed

lemma well_sent_payloads [simp]:
  "list_all well_sent ps \<Longrightarrow> map payload (map (\<lambda>r. (a, up, response_bytes r)) ps) = ps"
  by (induction ps) (simp_all add: well_sent_def)

text \<open>
  The node \<open>k\<close> moves: it consumes the datagrams \<open>ins\<close>, sends \<open>out\<close>; nothing
  else happens.
\<close>

definition moves :: "ipaddr \<Rightarrow> node list \<Rightarrow> node \<Rightarrow> datagram list \<Rightarrow> response_pkt list \<Rightarrow> net \<Rightarrow> net \<Rightarrow> bool" where
  "moves ra ts k ins out n n' \<longleftrightarrow>
     (\<exists>up d rest. (k, up, d) \<in> set (all_places ra ts) \<and> mset (flight n) = mset (ins @ rest) \<and>
        flight n' = rest @ map (\<lambda>r. (node_ip k, up, response_bytes r)) out) \<and>
     list_all well_sent out \<and> dropped n' = dropped n \<and> router n' = router n \<and>
     (\<forall>l\<in>set (sites ra ts) - {k}. held n' l = held n l \<and> held_ids n' l = held_ids n l \<and>
        sent_count n' l = sent_count n l \<and> (site_ok n l \<longrightarrow> site_ok n' l)) \<and>
     site_ok n' k \<and> sent_count n' k = sent_count n k + length out \<and>
     xor_list (map topo_checksum out) XOR held n' k =
       held n k XOR xor_list (map topo_checksum (map payload ins)) XOR own_times (node_env k) (length out) \<and>
     ids_of out \<union> held_ids n' k = held_ids n k \<union> ids_of (map payload ins) \<union> own_ids (node_env k) (length out)"

lemma moves_ledger:
  assumes "wf_forest ra ts" and "moves ra ts k ins out n n'" and "ledger ra ts arrived n"
  shows "ledger ra ts arrived n'"
proof -
  from assms(2) obtain up d rest where k: "(k, up, d) \<in> set (all_places ra ts)"
    and fl: "mset (flight n) = mset (ins @ rest)"
      "flight n' = rest @ map (\<lambda>r. (node_ip k, up, response_bytes r)) out"
    and out: "list_all well_sent out" and dr: "dropped n' = dropped n"
    by (auto simp: moves_def)
  let ?rest = "map payload (arrived @ rest @ dropped n)"
  have "distinct (sites ra ts)" using assms(1) distinct_map [of nid "sites ra ts"] by (simp add: wf_forest_def)
  moreover have "k \<in> set (sites ra ts)" using k by (auto simp: site_place)
  moreover have eq: "mset (map payload (arrived @ flight n @ dropped n)) = mset (map payload ins @ ?rest)"
    using arg_cong [OF fl(1), of "image_mset payload"] by simp
  have "balanced (sites ra ts) (held n) (held_ids n) (sent_count n) (map payload (arrived @ flight n @ dropped n))"
    using assms(3) by (simp only: ledger_def)
  with balanced_cong [OF _ eq]
  have "balanced (sites ra ts) (held n) (held_ids n) (sent_count n) (map payload ins @ ?rest)" by blast
  ultimately have "balanced (sites ra ts) ((held n)(k := held n' k)) ((held_ids n)(k := held_ids n' k))
      ((sent_count n)(k := sent_count n k + length out)) (?rest @ out)"
    using assms(2) by (intro balanced_move) (simp_all add: moves_def)
  moreover have "mset (?rest @ out) = mset (map payload (arrived @ flight n' @ dropped n'))"
    using well_sent_payloads [OF out] dr by (simp add: fl(2) del: map_map)
  ultimately have "balanced (sites ra ts) (held n') (held_ids n') (sent_count n')
      (map payload (arrived @ flight n' @ dropped n'))"
    using assms(2) by (subst balanced_cong [symmetric]) (auto simp: moves_def)
  then show ?thesis using assms(2,3) by (simp add: ledger_def moves_def)
qed

lemma kid_datagram:
  assumes "wf_forest ra ts" and "q \<in> set (sites ra ts)" and "l \<in> set (kids q)"
    and "datagram_ok ra ts dg" and "fst dg = node_ip l"
  shows "fst (snd dg) = node_ip q"
proof -
  obtain k up d r where k: "(k, up, d) \<in> set (all_places ra ts)" "dg = (node_ip k, up, response_bytes r)"
    using assms(4) by (auto simp: datagram_ok_def)
  obtain up' d' where "(q, up', d') \<in> set (all_places ra ts)" using assms(2) by (auto simp: site_place)
  then have l: "(l, node_ip q, Suc d') \<in> set (all_places ra ts)" using assms(3) by (rule all_places_kid)
  have "k = l"
    using ip_inj [OF assms(1), of k l] k l assms(5) by (auto simp: site_place)
  then show ?thesis using place_unique [OF assms(1), of k up d "node_ip q"] k l by auto
qed

definition active :: "net \<Rightarrow> node \<Rightarrow> bool" where
  "active n q \<longleftrightarrow> 0 < sent_count n q \<or> held_ids n q \<noteq> {}"

lemma moves_active:
  assumes "moves ra ts k ins out n n'" and "q \<in> set (sites ra ts)"
    and "active n q \<or> (q = k \<and> ids_of (map payload ins) \<noteq> {})"
  shows "active n' q"
proof (cases "q = k")
  case True
  have "sent_count n' k = sent_count n k + length out"
    "ids_of out \<union> held_ids n' k = held_ids n k \<union> ids_of (map payload ins) \<union> own_ids (node_env k) (length out)"
    using assms(1) by (simp_all add: moves_def)
  then show ?thesis using assms(3) True by (cases out) (auto simp: active_def)
next
  case False
  then show ?thesis using assms by (auto simp: moves_def active_def)
qed

lemma moves_passed_on:
  assumes wf: "wf_forest ra ts" and mv: "moves ra ts k ins out n n'" and old: "passed_on ra ts n"
    and ins: "\<forall>dg\<in>set ins. datagram_ok ra ts dg \<and> fst (snd dg) = node_ip k"
  shows "passed_on ra ts n'"
  unfolding passed_on_def active_def [symmetric] disj_assoc [symmetric]
proof (intro ballI impI)
  fix q l
  assume q: "q \<in> set (sites ra ts)" and l: "l \<in> set (kids q)" and sent: "0 < sent_count n' l"
  obtain up d rest where k: "(k, up, d) \<in> set (all_places ra ts)" and fl: "mset (flight n) = mset (ins @ rest)"
      "flight n' = rest @ map (\<lambda>r. (node_ip k, up, response_bytes r)) out" and dr: "dropped n' = dropped n"
    using mv by (auto simp: moves_def)
  have ks: "k \<in> set (sites ra ts)" and lq: "l \<in> set (sites ra ts)"
    using k site_kid [OF q l] by (auto simp: site_place)
  show "active n' q \<or> node_ip l \<in> fst ` set (flight n' @ dropped n')"
  proof (cases "l = k \<and> out \<noteq> []")
    case True
    then show ?thesis by (cases out) (auto simp: fl(2))
  next
    case False
    then have "0 < sent_count n l" using sent mv lq by (cases "l = k") (auto simp: moves_def)
    then have "active n q \<or> node_ip l \<in> fst ` set (flight n @ dropped n)"
      using old q l by (auto simp: passed_on_def active_def)
    moreover have "set (flight n @ dropped n) = set (ins @ rest @ dropped n)"
      using mset_eq_setD [OF fl(1)] by auto
    ultimately consider "active n q" | dg where "dg \<in> set (ins @ rest @ dropped n)" "fst dg = node_ip l"
      by fastforce
    then show ?thesis
    proof cases
      case 1
      then show ?thesis using moves_active [OF mv q] by simp
    next
      case 2
      show ?thesis
      proof (cases "dg \<in> set ins")
        case True
        then have "node_ip q = node_ip k" using kid_datagram [OF wf q l _ 2(2)] ins by auto
        then have "q = k" using ip_inj [OF wf q ks] by simp
        moreover have "ids_of (map payload ins) \<noteq> {}"
          using True ins by (force simp: datagram_ok_def well_sent_def ids_of_def)
        ultimately show ?thesis using moves_active [OF mv q] by simp
      next
        case False
        then have "dg \<in> set (flight n' @ dropped n')" using 2(1) by (auto simp: fl(2) dr)
        then show ?thesis using 2(2) by (metis image_eqI)
      qed
    qed
  qed
qed

lemma moves_inv:
  assumes wf: "wf_forest ra ts" and mv: "moves ra ts k ins out n n'" and inv: "net_inv ra ts n"
    and ins: "\<forall>dg\<in>set ins. datagram_ok ra ts dg \<and> fst (snd dg) = node_ip k"
  shows "net_inv ra ts n'"
proof -
  obtain up d rest where k: "(k, up, d) \<in> set (all_places ra ts)" and fl: "mset (flight n) = mset (ins @ rest)"
      "flight n' = rest @ map (\<lambda>r. (node_ip k, up, response_bytes r)) out" and out: "list_all well_sent out"
    using mv by (auto simp: moves_def)
  have "\<forall>dg\<in>set (flight n). datagram_ok ra ts dg" using inv by (simp add: net_inv_def list_all_iff)
  then have "\<forall>dg\<in>set rest. datagram_ok ra ts dg" using mset_eq_setD [OF fl(1)] by simp
  moreover have "datagram_ok ra ts (node_ip k, up, response_bytes r)" if "r \<in> set out" for r
    using that out k unfolding datagram_ok_def list_all_iff by blast
  ultimately have "list_all (datagram_ok ra ts) (flight n')" by (auto simp: fl(2) list_all_iff)
  moreover have "\<forall>l\<in>set (sites ra ts). site_ok n' l"
    using inv mv by (auto simp: net_inv_def moves_def)
  moreover have "passed_on ra ts n'" using moves_passed_on [OF wf mv _ ins] inv by (simp add: net_inv_def)
  ultimately show ?thesis using inv moves_ledger [OF wf mv] by (auto simp: net_inv_def)
qed

subsection \<open>The events\<close>

lemma other_site:
  "wf_forest ra ts \<Longrightarrow> k \<in> set (sites ra ts) \<Longrightarrow> l \<in> set (sites ra ts) - {k} \<Longrightarrow> nid l \<noteq> nid k"
  using nid_inj [of ra ts k l] by auto

lemma relay_moves_moves:
  assumes wf: "wf_forest ra ts" and k: "(k, up, d) \<in> set (all_places ra ts)" "kids k \<noteq> []"
    and n0: "n = n0\<lparr>flight := rest\<rparr>" "mset (flight n0) = mset (ins @ rest)" and ok: "site_ok n0 k"
    and fl: "flows (node_env k) (relays n0 (nid k)) (set (collected (relays n0 (nid k))))
      (xor_list (map topo_checksum (map payload ins))) (ids_of (map payload ins)) ps s (set (collected s))"
    and s: "steady s" "holding s \<Longrightarrow> on \<or> rearmed (relays n0 (nid k)) s"
  shows "moves ra ts k ins ps n0 (relay_moves k on s n)"
proof -
  let ?n' = "relay_moves k on s n"
  have ks: "k \<in> set (sites ra ts)" using k(1) by (auto simp: site_place)
  obtain new where new: "outs s = outs (relays n0 (nid k)) @ new"
    "filter is_send new = concat (map (parent_sends (node_env k) 0) ps)"
    using fl by (auto simp: flows_def)
  have rec: "receivers k = [up]" using site_receivers [OF wf k(1)] .
  have out: "outgoing (node_ip k) new = map (\<lambda>r. (node_ip k, up, response_bytes r)) ps"
    "length (filter is_send new) = length ps"
    using outgoing_packets [OF new(2) rec] k(2) by simp_all
  have same: "held ?n' l = held n0 l \<and> held_ids ?n' l = held_ids n0 l \<and> sent_count ?n' l = sent_count n0 l \<and>
      (site_ok n0 l \<longrightarrow> site_ok ?n' l)" if "l \<in> set (sites ra ts) - {k}" for l
    using other_site [OF wf ks that]
    by (simp add: n0(1) relay_moves_def held_def held_ids_def sent_count_def site_ok_def Let_def)
  have "site_ok ?n' k"
    using ok k(2) s fl by (auto simp: site_ok_def n0(1) relay_moves_def flows_def Let_def)
  moreover have "sent_count ?n' k = sent_count n0 k + length ps"
    using k(2) new(1) out(2) by (simp add: sent_count_def n0(1) relay_moves_def Let_def)
  moreover have "held ?n' k = xor_list (received s)" "held_ids ?n' k = set (collected s)"
    "held n0 k = xor_list (received (relays n0 (nid k)))" "held_ids n0 k = set (collected (relays n0 (nid k)))"
    using k(2) by (simp_all add: held_def held_ids_def n0(1) relay_moves_def Let_def)
  moreover have "flight ?n' = rest @ map (\<lambda>r. (node_ip k, up, response_bytes r)) ps"
    using new(1) out(1) by (simp add: n0(1) relay_moves_def Let_def)
  moreover have "dropped ?n' = dropped n0" "router ?n' = router n0"
    by (simp_all add: n0(1) relay_moves_def Let_def)
  ultimately show ?thesis
    using fl k(1) n0(2) same unfolding moves_def flows_def by auto
qed

lemma client_moves_moves:
  assumes wf: "wf_forest ra ts" and k: "(k, up, d) \<in> set (all_places ra ts)" "kids k = []" and c: "c = clients n (nid k)"
    and ok: "site_ok n k"
  shows "moves ra ts k [] [client_answer (node_env k) TOPOLOGY] n
    (client_moves k (client_tcpip_handler shipped_build (node_env k) True topology_request c) n)"
proof -
  let ?r = "client_answer (node_env k) TOPOLOGY"
  let ?s = "client_tcpip_handler shipped_build (node_env k) True topology_request c"
  let ?n' = "client_moves k ?s n"
  have ks: "k \<in> set (sites ra ts)" using k(1) by (auto simp: site_place)
  have node: "udp_new_ok (node_env k) = (\<lambda>n. True)"
    using site_wf [OF wf ks] by (cases k) simp
  note pk = client_answer_topology [of "node_env k"]
  have r: "well_sent ?r" "topo_checksum ?r = own_checksum (node_env k)" "set (path_of ?r) = {nid k}"
    using topology_packet_well_sent [OF pk] pk by (simp_all add: size_defs topology_packet_def)
  let ?new = "[Udp_new, Udp_bind MY_UDP_CHECKSUM_PORT] @ parent_sends (node_env k) 1 ?r"
  have outs: "client_outs ?s = client_outs (clients n (nid k)) @ ?new"
    using node by (simp add: client_tcpip_handler_eq topology_request_def send_to_parents_eq c)
  have "filter is_send ?new = concat (map (parent_sends (node_env k) 1) [?r])"
    by simp
  note out = outgoing_packets [OF this site_receivers [OF wf k(1)]]
  have same: "held ?n' l = held n l \<and> held_ids ?n' l = held_ids n l \<and> sent_count ?n' l = sent_count n l \<and>
      (site_ok n l \<longrightarrow> site_ok ?n' l)" if "l \<in> set (sites ra ts) - {k}" for l
    using other_site [OF wf ks that]
    by (simp add: client_moves_def held_def held_ids_def sent_count_def site_ok_def Let_def)
  have "site_ok ?n' k" "held ?n' k = 0" "held n k = 0" "held_ids ?n' k = {}" "held_ids n k = {}"
    using k(2) ok by (simp_all add: site_ok_def held_def held_ids_def client_moves_def Let_def)
  moreover have "sent_count ?n' k = sent_count n k + 1"
    using k(2) outs out(2) by (simp add: sent_count_def client_moves_def Let_def)
  moreover have "flight ?n' = flight n @ [(node_ip k, up, response_bytes ?r)]"
    using k(2) outs out(1) by (simp add: client_moves_def Let_def)
  moreover have "dropped ?n' = dropped n" "router ?n' = router n"
    by (simp_all add: client_moves_def Let_def)
  ultimately show ?thesis
    using k(1) r same unfolding moves_def by auto
qed

end
