(* ===== verification/Network_Events.thy ===== *)
theory Network_Events
  imports Network_Flow
begin

text \<open>
  Every event of the network machine is possible without a fault, keeps the
  accounts, and all but the requests bring the network nearer to rest; a network
  at rest has reported every node.
\<close>

subsection \<open>One event\<close>

lemma remove_nth_split: "m < length xs \<Longrightarrow> mset xs = mset ([xs ! m] @ remove_nth m xs)"
  by (subst id_take_nth_drop [of m xs]) (simp_all add: remove_nth_def)

lemma inner_env:
  assumes "wf_forest ra ts" and "k \<in> set (sites ra ts)"
  shows "wf_env (node_env k)" and "udp_new_ok (node_env k) = (\<lambda>n. True)"
  using site_wf [OF assms] by (cases k; simp)+

text \<open>A response that reaches the relay its sender is a child of.\<close>

lemma deliver_relay:
  assumes wf: "wf_forest ra ts" and q: "(q, up, d) \<in> set (all_places ra ts)" and c: "c \<in> set (kids q)"
    and r: "well_sent r" and ok: "site_ok n0 q" and m: "m < length (flight n0)"
    and dg: "flight n0 ! m = (node_ip c, node_ip q, response_bytes r)"
  obtains s ps where "net_step lib ra ts (Deliver m) n0 =
      Inr (relay_moves q (armed n0 (nid q)) s (n0\<lparr>flight := remove_nth m (flight n0)\<rparr>))"
    and "moves ra ts q [flight n0 ! m] ps n0
      (relay_moves q (armed n0 (nid q)) s (n0\<lparr>flight := remove_nth m (flight n0)\<rparr>))"
    and "length ps \<le> 2"
proof -
  let ?n = "n0\<lparr>flight := remove_nth m (flight n0)\<rparr>"
  have qs: "q \<in> set (sites ra ts)" using q by (auto simp: site_place)
  have kq: "kids q \<noteq> []" using c by auto
  have s: "steady (relays n0 (nid q))" "ready (relays n0 (nid q))"
    "set (child_ids (children (relays n0 (nid q)))) = nid ` set (kids q)"
    using ok kq by (simp_all add: site_ok_def steady_def)
  have "get_id_from_addr (node_ip c) = nid c" using ip_id [OF wf site_kid [OF qs c]] .
  then have "topology_from (relays n0 (nid q)) (node_ip c) r"
    using r c s(3) by (simp add: topology_from_def well_sent_def is_child_iff)
  from response_flows [OF s(2) inner_env [OF wf qs] this s(1), of shipped_build lib] obtain ps t where
    step: "relay_step shipped_build lib (node_env q) (Tcpip_event True (node_ip c) (response_bytes r))
      (relays n0 (nid q)) = Inr t"
    and fl: "flows (node_env q) (relays n0 (nid q)) (set (collected (relays n0 (nid q)))) (topo_checksum r)
      (set (path_of r)) ps t (set (collected t))"
    and t: "length ps \<le> 2" "steady t" "rearmed (relays n0 (nid q)) t"
    by blast
  have wfr: "wf_response r" using r by (simp add: well_sent_def)
  have "node_ip q \<noteq> ra" using wf qs by (simp add: wf_forest_def)
  then have "net_step lib ra ts (Deliver m) n0 = Inr (relay_moves q (armed n0 (nid q)) t ?n)"
    using find_site_ip [OF wf qs] kq step by (simp add: dg deliver_def del: relay_step.simps)
  moreover have "moves ra ts q [flight n0 ! m] ps n0 (relay_moves q (armed n0 (nid q)) t ?n)"
    using fl t wfr by (intro relay_moves_moves [OF wf q kq refl remove_nth_split [OF m] ok]) (simp_all add: dg)
  ultimately show ?thesis using that t(1) by blast
qed

lemma expire_relay:
  assumes wf: "wf_forest ra ts" and k: "(k, up, d) \<in> set (all_places ra ts)" and ok: "site_ok n k"
    and on: "armed n (nid k)"
  obtains s ps where "net_step lib ra ts (Expire (nid k)) n = Inr (relay_moves k False s n)"
    and "moves ra ts k [] ps n (relay_moves k False s n)" and "length ps \<le> 1"
    and "\<not> armed (relay_moves k False s n) (nid k)"
proof -
  have ks: "k \<in> set (sites ra ts)" using k by (auto simp: site_place)
  have kk: "kids k \<noteq> []" using ok on by (auto simp: site_ok_def)
  then have "steady (relays n (nid k))" using ok by (simp add: site_ok_def)
  from expire_flows [OF this inner_env [OF wf ks], of shipped_build lib] obtain ps s where
    s: "expire shipped_build lib (node_env k) (relays n (nid k)) = Inr s"
    and fl: "flows (node_env k) (relays n (nid k)) (set (collected (relays n (nid k)))) 0 {} ps s (set (collected s))"
    and t: "length ps \<le> 1" "steady s" "\<not> holding s" "\<not> rearmed (relays n (nid k)) s"
    by blast
  have "net_step lib ra ts (Expire (nid k)) n = Inr (relay_moves k False s n)"
    using find_site_id [OF wf ks] s by simp
  moreover have "moves ra ts k [] ps n (relay_moves k False s n)"
    using fl t by (intro relay_moves_moves [OF wf k kk _ _ ok, where rest = "flight n"]) simp_all
  moreover have "\<not> armed (relay_moves k False s n) (nid k)"
    using t(4) by (simp add: relay_moves_def Let_def)
  ultimately show ?thesis using that t(1) by blast
qed

text \<open>A response that reaches the border router is printed.\<close>

lemma deliver_router:
  assumes r: "well_sent r" and dg: "flight n0 ! m = (a, ra, response_bytes r)"
  obtains b where "net_step lib ra ts (Deliver m) n0 =
      Inr (n0\<lparr>flight := remove_nth m (flight n0), router := b\<rparr>)"
    and "br_out b = br_out (router n0) @ prints (flight n0 ! m)"
  using udp_checksum_callback_topology [of r a "router n0"] r that
  by (simp add: dg deliver_def well_sent_def prints_def path_of_def)

lemma router_inv:
  assumes wf: "wf_forest ra ts" and inv: "net_inv ra ts n" and m: "m < length (flight n)"
    and dst: "fst (snd (flight n ! m)) = ra" and b: "br_out b = br_out (router n) @ prints (flight n ! m)"
  shows "net_inv ra ts (n\<lparr>flight := remove_nth m (flight n), router := b\<rparr>)" (is "net_inv ra ts ?n'")
proof -
  note rest = remove_nth_split [OF m]
  have views: "held ?n' = held n" "held_ids ?n' = held_ids n" "sent_count ?n' = sent_count n" "site_ok ?n' = site_ok n"
    by (simp_all add: held_def held_ids_def sent_count_def site_ok_def fun_eq_iff)
  obtain arrived where "ledger ra ts arrived n" using inv by (auto simp: net_inv_def)
  moreover have "mset (map payload ((arrived @ [flight n ! m]) @ flight ?n' @ dropped ?n')) =
      mset (map payload (arrived @ flight n @ dropped n))"
    using arg_cong [OF rest, of "image_mset payload"] by simp
  note balanced_cong [OF _ this]
  ultimately have "ledger ra ts (arrived @ [flight n ! m]) ?n'"
    unfolding ledger_def views using b by auto
  moreover have "passed_on ra ts ?n'"
    unfolding passed_on_def views
  proof (intro ballI impI)
    fix q l
    assume q: "q \<in> set (sites ra ts)" and l: "l \<in> set (kids q)" and sent: "0 < sent_count n l"
    have "0 < sent_count n q \<or> held_ids n q \<noteq> {} \<or> node_ip l \<in> fst ` set (flight n @ dropped n)"
      using inv q l sent unfolding net_inv_def passed_on_def by blast
    then consider "0 < sent_count n q \<or> held_ids n q \<noteq> {}" | "node_ip l \<in> fst ` set (flight n @ dropped n)"
      by blast
    then show "0 < sent_count n q \<or> held_ids n q \<noteq> {} \<or> node_ip l \<in> fst ` set (flight ?n' @ dropped ?n')"
    proof cases
      case 2
      then obtain dg where dg: "dg \<in> set (flight n @ dropped n)" "fst dg = node_ip l"
        by (metis (no_types) imageE)
      have "dg \<noteq> flight n ! m"
      proof
        assume eq: "dg = flight n ! m"
        then have "datagram_ok ra ts dg" using inv m by (simp add: net_inv_def list_all_iff)
        from kid_datagram [OF wf q l this dg(2)] have "node_ip q = ra" using dst eq by simp
        then show False using wf q by (simp add: wf_forest_def)
      qed
      then have "dg \<in> set (flight ?n' @ dropped ?n')" using dg(1) mset_eq_setD [OF rest] by auto
      then have "fst dg \<in> fst ` set (flight ?n' @ dropped ?n')" by (rule imageI)
      then show ?thesis unfolding dg(2) by blast
    qed blast
  qed
  moreover have "list_all (datagram_ok ra ts) (flight ?n')"
    using inv mset_eq_setD [OF rest] by (simp add: net_inv_def list_all_iff)
  ultimately show ?thesis using inv views by (auto simp: net_inv_def)
qed

lemma lose_inv:
  assumes inv: "net_inv ra ts n" and m: "m < length (flight n)"
  shows "net_inv ra ts (n\<lparr>flight := remove_nth m (flight n), dropped := dropped n @ [flight n ! m]\<rparr>)"
    (is "net_inv ra ts ?n'")
proof -
  note rest = remove_nth_split [OF m]
  have views: "held ?n' = held n" "held_ids ?n' = held_ids n" "sent_count ?n' = sent_count n" "site_ok ?n' = site_ok n"
    by (simp_all add: held_def held_ids_def sent_count_def site_ok_def fun_eq_iff)
  obtain arrived where "ledger ra ts arrived n" using inv by (auto simp: net_inv_def)
  moreover have "mset (map payload (arrived @ flight ?n' @ dropped ?n')) =
      mset (map payload (arrived @ flight n @ dropped n))"
    using arg_cong [OF rest, of "image_mset payload"] by simp
  note balanced_cong [OF _ this]
  ultimately have "ledger ra ts arrived ?n'" unfolding ledger_def views by auto
  moreover have "set (flight ?n' @ dropped ?n') = set (flight n @ dropped n)"
    using mset_eq_setD [OF rest] by auto
  then have "passed_on ra ts ?n'"
    using inv unfolding net_inv_def passed_on_def views by simp
  moreover have "list_all (datagram_ok ra ts) (flight ?n')"
    using inv mset_eq_setD [OF rest] by (simp add: net_inv_def list_all_iff)
  ultimately show ?thesis using inv views by (auto simp: net_inv_def)
qed

subsection \<open>How far the network is from rest\<close>

text \<open>
  A datagram weighs more than all that its delivery can cause: two datagrams one
  hop nearer the border router and a timer, which causes one.
\<close>

definition depth_of :: "ipaddr \<Rightarrow> node list \<Rightarrow> ipaddr \<Rightarrow> nat" where
  "depth_of ra ts a =
     (case find (\<lambda>p. node_ip (fst p) = a) (all_places ra ts) of None \<Rightarrow> 0 | Some p \<Rightarrow> snd (snd p))"

definition weight :: "ipaddr \<Rightarrow> node list \<Rightarrow> datagram \<Rightarrow> nat" where
  "weight ra ts dg = 5 ^ (depth_of ra ts (fst dg) - 1)"

definition timer_weight :: "net \<Rightarrow> node \<times> ipaddr \<times> nat \<Rightarrow> nat" where
  "timer_weight n p = (if armed n (nid (fst p)) then 2 * 5 ^ (snd (snd p) - 1) else 0)"

definition net_measure :: "ipaddr \<Rightarrow> node list \<Rightarrow> net \<Rightarrow> nat" where
  "net_measure ra ts n =
     sum_list (map (weight ra ts) (flight n)) + sum_list (map (timer_weight n) (all_places ra ts))"

lemma same_place:
  assumes "wf_forest ra ts" and "(k, up, d) \<in> set (all_places ra ts)" and "p \<in> set (all_places ra ts)"
    and "fst p = k"
  shows "p = (k, up, d)"
proof -
  obtain up' d' where p: "p = (k, up', d')" using assms(4) by (cases p) simp
  then show ?thesis using place_unique [OF assms(1,2), of up' d'] assms(3) by simp
qed

lemma depth_of_place:
  assumes "wf_forest ra ts" and "(k, up, d) \<in> set (all_places ra ts)"
  shows "depth_of ra ts (node_ip k) = d"
proof -
  have "p = (k, up, d)" if that: "p \<in> set (all_places ra ts)" "node_ip (fst p) = node_ip k" for p
  proof -
    have "fst p \<in> set (sites ra ts)" "k \<in> set (sites ra ts)"
      using that(1) assms(2) by (auto simp: sites_def image_iff intro: bexI [of _ "(k, up, d)"])
    then have "fst p = k" using that(2) ip_inj [OF assms(1)] by blast
    then show ?thesis by (rule same_place [OF assms that(1)])
  qed
  then have "find (\<lambda>p. node_ip (fst p) = node_ip k) (all_places ra ts) = Some (k, up, d)"
    using find_unique [OF assms(2), of "\<lambda>p. node_ip (fst p) = node_ip k"] by simp
  then show ?thesis by (simp add: depth_of_def)
qed

lemma all_places_distinct: "wf_forest ra ts \<Longrightarrow> distinct (all_places ra ts)"
  using distinct_map [of nid "sites ra ts"] distinct_map [of fst "all_places ra ts"]
  by (simp add: wf_forest_def sites_def)

lemma moves_measure:
  assumes wf: "wf_forest ra ts" and k: "(k, up, d) \<in> set (all_places ra ts)" and mv: "moves ra ts k ins out n n'"
    and same: "\<And>i. i \<noteq> nid k \<Longrightarrow> armed n' i = armed n i"
  shows "net_measure ra ts n' + sum_list (map (weight ra ts) ins) + timer_weight n (k, up, d) =
    net_measure ra ts n + length out * 5 ^ (d - 1) + timer_weight n' (k, up, d)"
proof -
  obtain up' d' rest where fl: "mset (flight n) = mset (ins @ rest)"
      "flight n' = rest @ map (\<lambda>r. (node_ip k, up', response_bytes r)) out"
    using mv by (auto simp: moves_def)
  have w: "weight ra ts (node_ip k, x, y) = 5 ^ (d - 1)" for x y
    using depth_of_place [OF wf k] by (simp add: weight_def)
  have "sum_list (map (weight ra ts) (flight n)) = sum_list (map (weight ra ts) ins) + sum_list (map (weight ra ts) rest)"
    using arg_cong [OF fl(1), of "\<lambda>M. sum_mset (image_mset (weight ra ts) M)"]
    by (simp add: sum_mset_sum_list [symmetric])
  moreover have "sum_list (map (weight ra ts) (flight n')) = sum_list (map (weight ra ts) rest) + length out * 5 ^ (d - 1)"
    by (simp add: fl(2) comp_def w sum_list_triv)
  moreover have "timer_weight n' p = timer_weight n p" if "p \<in> set (remove1 (k, up, d) (all_places ra ts))" for p
  proof -
    have p: "p \<in> set (all_places ra ts)" "p \<noteq> (k, up, d)"
      using that all_places_distinct [OF wf] by (simp_all add: distinct_remove1_removeAll)
    then have "fst p \<noteq> k" using same_place [OF wf k p(1)] by blast
    moreover have "fst p \<in> set (sites ra ts)" "k \<in> set (sites ra ts)"
      using p(1) k by (auto simp: sites_def image_iff intro: bexI [of _ "(k, up, d)"])
    ultimately have "nid (fst p) \<noteq> nid k" using nid_inj [OF wf] by blast
    then show ?thesis using same by (simp add: timer_weight_def)
  qed
  then have "sum_list (map (timer_weight n') (remove1 (k, up, d) (all_places ra ts))) =
      sum_list (map (timer_weight n) (remove1 (k, up, d) (all_places ra ts)))"
    by (metis (no_types, lifting) map_cong)
  ultimately show ?thesis
    using sum_list_map_remove1 [OF k, of "timer_weight n"] sum_list_map_remove1 [OF k, of "timer_weight n'"]
    by (simp add: net_measure_def)
qed

subsection \<open>Every event\<close>

text \<open>No node forgets what it has sent; only \<open>Lose\<close> loses.\<close>

definition goes_on :: "ipaddr \<Rightarrow> node list \<Rightarrow> net \<Rightarrow> net \<Rightarrow> bool" where
  "goes_on ra ts n n' \<longleftrightarrow> net_inv ra ts n' \<and> (\<forall>k\<in>set (sites ra ts). sent_count n k \<le> sent_count n' k)"

lemma moves_goes_on:
  assumes "wf_forest ra ts" and "moves ra ts k ins out n n'" and "net_inv ra ts n"
    and "\<forall>dg\<in>set ins. datagram_ok ra ts dg \<and> fst (snd dg) = node_ip k"
  shows "goes_on ra ts n n'" and "dropped n' = dropped n"
proof -
  have "sent_count n l \<le> sent_count n' l" if "l \<in> set (sites ra ts)" for l
    using assms(2) that by (cases "l = k") (simp_all add: moves_def)
  then show "goes_on ra ts n n'" using moves_inv [OF assms] by (simp add: goes_on_def)
  show "dropped n' = dropped n" using assms(2) by (simp add: moves_def)
qed

lemma five_powers: "0 < (d::nat) \<Longrightarrow> (5::nat) ^ d = 5 * 5 ^ (d - 1)"
  by (cases d) simp_all

lemma place_depth: "(k, up, d) \<in> set (all_places ra ts) \<Longrightarrow> 0 < d"
  using places_depth by (fastforce simp: all_places_def)

lemma relay_moves_armed: "i \<noteq> nid k \<Longrightarrow> armed (relay_moves k on s n) i = armed n i"
  by (simp add: relay_moves_def Let_def)

lemma deliver_progress:
  assumes wf: "wf_forest ra ts" and inv: "net_inv ra ts n" and m: "m < length (flight n)"
  shows "\<exists>n'. net_step lib ra ts (Deliver m) n = Inr n' \<and> goes_on ra ts n n' \<and> dropped n' = dropped n \<and>
    net_measure ra ts n' < net_measure ra ts n"
proof -
  have ok: "datagram_ok ra ts (flight n ! m)" using inv m by (simp add: net_inv_def list_all_iff)
  then obtain k up d r where k: "(k, up, d) \<in> set (all_places ra ts)" "well_sent r"
    "flight n ! m = (node_ip k, up, response_bytes r)"
    by (auto simp: datagram_ok_def)
  have w: "weight ra ts (flight n ! m) = 5 ^ (d - 1)"
    using depth_of_place [OF wf k(1)] by (simp add: weight_def k(3))
  from all_places_parent [OF k(1)] consider "up = ra"
    | q uq e where "(q, uq, e) \<in> set (all_places ra ts)" "node_ip q = up" "d = Suc e" "k \<in> set (kids q)"
    by blast
  then show ?thesis
  proof cases
    case 1
    let ?n = "\<lambda>b. n\<lparr>flight := remove_nth m (flight n), router := b\<rparr>"
    from deliver_router [OF k(2), of n m "node_ip k" ra lib ts] obtain b where
      "net_step lib ra ts (Deliver m) n = Inr (?n b)" "br_out b = br_out (router n) @ prints (flight n ! m)"
      using k(3) 1 by auto
    moreover have "net_inv ra ts (?n b)"
      using router_inv [OF wf inv m _ calculation(2)] k(3) 1 by simp
    then have "goes_on ra ts n (?n b)" by (simp add: goes_on_def sent_count_def)
    moreover have "timer_weight (?n b) = timer_weight n" by (simp add: timer_weight_def fun_eq_iff)
    moreover have "sum_list (map (weight ra ts) (flight n)) =
        weight ra ts (flight n ! m) + sum_list (map (weight ra ts) (remove_nth m (flight n)))"
      using arg_cong [OF remove_nth_split [OF m], of "\<lambda>M. sum_mset (image_mset (weight ra ts) M)"]
      by (simp add: sum_mset_sum_list [symmetric])
    ultimately show ?thesis by (intro exI [of _ "?n b"]) (simp add: net_measure_def w)
  next
    case (2 q uq e)
    have qs: "q \<in> set (sites ra ts)" using 2(1) by (auto simp: site_place)
    then have sq: "site_ok n q" using inv by (simp add: net_inv_def)
    have dg: "flight n ! m = (node_ip k, node_ip q, response_bytes r)" using k(3) 2(2) by simp
    from deliver_relay [OF wf 2(1,4) k(2) sq m dg, of lib] obtain s ps where
      step: "net_step lib ra ts (Deliver m) n =
        Inr (relay_moves q (armed n (nid q)) s (n\<lparr>flight := remove_nth m (flight n)\<rparr>))"
      and mv: "moves ra ts q [flight n ! m] ps n
        (relay_moves q (armed n (nid q)) s (n\<lparr>flight := remove_nth m (flight n)\<rparr>))"
      and ps: "length ps \<le> 2" .
    let ?n' = "relay_moves q (armed n (nid q)) s (n\<lparr>flight := remove_nth m (flight n)\<rparr>)"
    have go: "goes_on ra ts n ?n'" "dropped ?n' = dropped n" using moves_goes_on [OF wf mv inv] ok dg by simp_all
    have "net_measure ra ts ?n' + 5 ^ e + timer_weight n (q, uq, e) =
        net_measure ra ts n + length ps * 5 ^ (e - 1) + timer_weight ?n' (q, uq, e)"
      using moves_measure [OF wf 2(1) mv] relay_moves_armed w 2(3) by simp
    moreover have "timer_weight ?n' (q, uq, e) \<le> 2 * 5 ^ (e - 1)" by (simp add: timer_weight_def)
    moreover have "length ps * 5 ^ (e - 1) \<le> 2 * (5::nat) ^ (e - 1)" using ps by (intro mult_right_mono) simp_all
    moreover have "(5::nat) ^ e = 5 * 5 ^ (e - 1)" "0 < (5::nat) ^ (e - 1)"
      using five_powers [OF place_depth [OF 2(1)]] by simp_all
    ultimately have "net_measure ra ts ?n' < net_measure ra ts n" by linarith
    then show ?thesis using step go by blast
  qed
qed

lemma expire_progress:
  assumes wf: "wf_forest ra ts" and inv: "net_inv ra ts n" and on: "armed n i" "i \<in> nid ` set (sites ra ts)"
  shows "\<exists>n'. net_step lib ra ts (Expire i) n = Inr n' \<and> goes_on ra ts n n' \<and> dropped n' = dropped n \<and>
    net_measure ra ts n' < net_measure ra ts n"
proof -
  obtain k where ks: "k \<in> set (sites ra ts)" "i = nid k" using on(2) by blast
  then obtain up d where k: "(k, up, d) \<in> set (all_places ra ts)" by (auto simp: site_place)
  have "site_ok n k" using inv ks by (simp add: net_inv_def)
  from expire_relay [OF wf k this, of lib] on(1) ks(2) obtain s ps where
    step: "net_step lib ra ts (Expire i) n = Inr (relay_moves k False s n)"
    and mv: "moves ra ts k [] ps n (relay_moves k False s n)" and ps: "length ps \<le> 1"
    and off: "\<not> armed (relay_moves k False s n) (nid k)"
    by auto
  let ?n' = "relay_moves k False s n"
  have go: "goes_on ra ts n ?n'" "dropped ?n' = dropped n" using moves_goes_on [OF wf mv inv] by simp_all
  have "net_measure ra ts ?n' + timer_weight n (k, up, d) =
      net_measure ra ts n + length ps * 5 ^ (d - 1) + timer_weight ?n' (k, up, d)"
    using moves_measure [OF wf k mv] relay_moves_armed by simp
  moreover have "timer_weight n (k, up, d) = 2 * 5 ^ (d - 1)" "timer_weight ?n' (k, up, d) = 0"
    using on(1) ks(2) off by (simp_all add: timer_weight_def)
  moreover have "length ps * 5 ^ (d - 1) \<le> 1 * (5::nat) ^ (d - 1)" using ps by (intro mult_right_mono) simp_all
  moreover have "0 < (5::nat) ^ (d - 1)" by simp
  ultimately have "net_measure ra ts ?n' < net_measure ra ts n" by linarith
  then show ?thesis using step go by blast
qed

lemma lose_progress:
  assumes inv: "net_inv ra ts n" and m: "m < length (flight n)"
  shows "\<exists>n'. net_step lib ra ts (Lose m) n = Inr n' \<and> goes_on ra ts n n' \<and>
    net_measure ra ts n' < net_measure ra ts n"
proof -
  let ?n' = "n\<lparr>flight := remove_nth m (flight n), dropped := dropped n @ [flight n ! m]\<rparr>"
  have "timer_weight ?n' = timer_weight n" by (simp add: timer_weight_def fun_eq_iff)
  moreover have "sum_list (map (weight ra ts) (flight n)) =
      weight ra ts (flight n ! m) + sum_list (map (weight ra ts) (remove_nth m (flight n)))"
    using arg_cong [OF remove_nth_split [OF m], of "\<lambda>M. sum_mset (image_mset (weight ra ts) M)"]
    by (simp add: sum_mset_sum_list [symmetric])
  moreover have "0 < weight ra ts (flight n ! m)" by (simp add: weight_def)
  ultimately have "net_measure ra ts ?n' < net_measure ra ts n" by (simp add: net_measure_def)
  then show ?thesis using lose_inv [OF inv m] by (simp add: goes_on_def sent_count_def)
qed

lemma ask_progress:
  assumes wf: "wf_forest ra ts" and inv: "net_inv ra ts n"
  shows "\<exists>n'. net_step lib ra ts (Ask i) n = Inr n' \<and> goes_on ra ts n n' \<and> dropped n' = dropped n \<and>
    (\<forall>k\<in>set (sites ra ts). kids k = [] \<and> nid k = i \<longrightarrow> 0 < sent_count n' k)"
proof (cases "find_site (\<lambda>k. nid k = i) ra ts")
  case None
  then have "nid k \<noteq> i" if "k \<in> set (sites ra ts)" for k
    using that by (auto simp: find_site_def find_None_iff)
  then show ?thesis using None inv by (auto simp: goes_on_def)
next
  case (Some k)
  then have ks: "k \<in> set (sites ra ts)" "nid k = i" using find_site_Some by auto
  then have only: "l = k" if "l \<in> set (sites ra ts)" "nid l = i" for l
    using nid_inj [OF wf, of l k] that by simp
  obtain up d where k: "(k, up, d) \<in> set (all_places ra ts)" using ks(1) by (auto simp: site_place)
  show ?thesis
  proof (cases "kids k = []")
    case False
    then show ?thesis using Some inv only by (auto simp: goes_on_def)
  next
    case True
    have "site_ok n k" using inv ks(1) by (simp add: net_inv_def)
    note mv = client_moves_moves [OF wf k True refl this]
    have "0 < sent_count (client_moves k (client_tcpip_handler shipped_build (node_env k) True topology_request
      (clients n (nid k))) n) k"
      using mv by (simp add: moves_def)
    then show ?thesis
      using Some True ks(2) only moves_goes_on [OF wf mv inv] by auto
  qed
qed

lemma net_progress:
  assumes "wf_forest ra ts" and "net_inv ra ts n" and "net_possible ra ts ev n"
  shows "\<exists>n'. net_step lib ra ts ev n = Inr n' \<and> goes_on ra ts n n' \<and>
    ((\<exists>i. ev = Ask i) \<or> net_measure ra ts n' < net_measure ra ts n) \<and>
    ((\<exists>m. ev = Lose m) \<or> dropped n' = dropped n) \<and>
    (\<forall>k\<in>set (sites ra ts). kids k = [] \<and> ev = Ask (nid k) \<longrightarrow> 0 < sent_count n' k)"
proof (cases ev)
  case (Ask i)
  then show ?thesis using ask_progress [OF assms(1,2), of lib i] by blast
next
  case (Deliver m)
  then have "m < length (flight n)" using assms(3) by simp
  from deliver_progress [OF assms(1,2) this, of lib] show ?thesis unfolding Deliver by blast
next
  case (Lose m)
  then have "m < length (flight n)" using assms(3) by simp
  from lose_progress [OF assms(2) this, of lib] show ?thesis unfolding Lose by blast
next
  case (Expire i)
  then have "armed n i" "i \<in> nid ` set (sites ra ts)" using assms(3) by simp_all
  from expire_progress [OF assms(1,2) this, of lib] show ?thesis unfolding Expire by blast
qed

end
