(* ===== verification/Network_Whole.thy ===== *)
theory Network_Whole
  imports Network_Events
begin

text \<open>
  Networks of any size and any order of events: what holds in every reachable
  state, that the network comes to rest, and what the border router has printed
  when it has.
\<close>

subsection \<open>What the border router prints\<close>

definition printed_ids :: "br_output list \<Rightarrow> u16 set" where
  "printed_ids os = \<Union> (set (map (\<lambda>f. case f of Print_agg_path p \<Rightarrow> set p | _ \<Rightarrow> {}) os))"

definition printed_checksums :: "br_output list \<Rightarrow> u32 list" where
  "printed_checksums os = concat (map (\<lambda>f. case f of Print_checksum c i \<Rightarrow> [c] | _ \<Rightarrow> []) os)"

lemma printed_arrived:
  "printed_ids (concat (map prints dgs)) = ids_of (map payload dgs)"
  "printed_checksums (concat (map prints dgs)) = map (ucast \<circ> topo_checksum) (map payload dgs)"
  by (induction dgs) (auto simp: printed_ids_def printed_checksums_def prints_def)

lemma ucast_xor_list: "xor_list (map ucast xs) = (ucast (xor_list xs :: u64) :: u32)"
  by (induction xs) (simp_all add: unsigned_xor_eq)

subsection \<open>The start\<close>

lemma xor_list_zeros: "(\<And>x. x \<in> set xs \<Longrightarrow> f x = 0) \<Longrightarrow> xor_list (map f xs) = (0 :: 'a::len word)"
  by (induction xs) simp_all

lemma start_inv:
  assumes wf: "wf_forest ra ts" and lib: "contiki_lib_ok lib" and start: "net_start lib ra ts n"
  shows "net_inv ra ts n"
proof -
  have site: "site_ok n k \<and> held n k = 0 \<and> held_ids n k = {} \<and> sent_count n k = 0"
    if ks: "k \<in> set (sites ra ts)" for k
  proof (cases "kids k = []")
    case True
    then show ?thesis
      using start by (simp add: site_ok_def held_def held_ids_def sent_count_def net_start_def initial_client_def)
  next
    case False
    obtain e a l where k: "k = Node e a l" by (cases k)
    have boot: "relay_boot lib e = Inr (relays n (nid k))"
      using start ks False by (auto simp: net_start_def list_all_iff k)
    have "booted e l (relays n (nid k))"
      using boot_of_node [of e a l lib] site_wf [OF wf ks] False lib boot by (auto simp: k)
    then have b: "ready (relays n (nid k))" "cur_loc (relays n (nid k)) = 0" "sends (relays n (nid k)) = []"
      "set (child_ids (children (relays n (nid k)))) = nid ` set (kids k)"
      "abs_round (relays n (nid k)) = \<lparr>r_checksums = [], r_ids = [], r_leaf_rank = 0\<rparr>"
      "timer_callback Periodic_timer (outs (relays n (nid k))) = None"
      by (simp_all add: booted_def k)
    then have "received (relays n (nid k)) = []" "collected (relays n (nid k)) = []"
      by (simp_all add: abs_round_def)
    then show ?thesis
      using b False by (simp add: site_ok_def steady_def holding_def held_def held_ids_def sent_count_def sends_def)
  qed
  then have "xor_list (map (held n) (sites ra ts)) = 0"
    "xor_list (map (\<lambda>k. own_times (node_env k) (sent_count n k)) (sites ra ts)) = 0"
    by (intro xor_list_zeros; simp)+
  then have "ledger ra ts [] n"
    using start site by (simp add: ledger_def balanced_def net_start_def initial_border_def)
  moreover have "passed_on ra ts n" using site site_kid by (fastforce simp: passed_on_def)
  ultimately show ?thesis using site start by (auto simp: net_inv_def net_start_def)
qed

interpretation network: machine_invariant "net_start lib ra ts" "net_possible ra ts" "net_step lib ra ts"
    "\<lambda>n. wf_forest ra ts \<and> contiki_lib_ok lib \<longrightarrow> net_inv ra ts n" for lib ra ts
proof unfold_locales
  show "net_start lib ra ts n \<Longrightarrow> wf_forest ra ts \<and> contiki_lib_ok lib \<longrightarrow> net_inv ra ts n" for n
    using start_inv by blast
  show "wf_forest ra ts \<and> contiki_lib_ok lib \<longrightarrow> net_inv ra ts n'"
    if "wf_forest ra ts \<and> contiki_lib_ok lib \<longrightarrow> net_inv ra ts n" "net_possible ra ts ev n"
      "net_step lib ra ts ev n = Inr n'" for ev n n'
    using that net_progress [of ra ts n ev lib] by (fastforce simp: goes_on_def)
qed

subsection \<open>Runs\<close>

fun net_run :: "contiki_lib \<Rightarrow> ipaddr \<Rightarrow> node list \<Rightarrow> net_event list \<Rightarrow> net \<Rightarrow> net option" where
  "net_run lib ra ts [] n = Some n"
| "net_run lib ra ts (ev # evs) n =
     (if net_possible ra ts ev n
      then case net_step lib ra ts ev n of Inl f \<Rightarrow> None | Inr n' \<Rightarrow> net_run lib ra ts evs n'
      else None)"

definition at_rest :: "ipaddr \<Rightarrow> node list \<Rightarrow> net \<Rightarrow> bool" where
  "at_rest ra ts n \<longleftrightarrow> flight n = [] \<and> list_all (\<lambda>k. \<not> armed n (nid k)) (sites ra ts)"

fun is_ask :: "net_event \<Rightarrow> bool" where
  "is_ask (Ask i) = True"
| "is_ask _ = False"

fun is_loss :: "net_event \<Rightarrow> bool" where
  "is_loss (Lose m) = True"
| "is_loss _ = False"

lemma net_run_append:
  "net_run lib ra ts (xs @ ys) n = (case net_run lib ra ts xs n of None \<Rightarrow> None | Some n' \<Rightarrow> net_run lib ra ts ys n')"
  by (induction xs arbitrary: n) (auto split: sum.splits)

text \<open>One event of a run, with what \<open>net_progress\<close> says of it.\<close>

lemma net_run_Cons:
  assumes "wf_forest ra ts" and "net_inv ra ts n" and "net_run lib ra ts (ev # evs) n = Some n'"
  obtains m where "net_run lib ra ts evs m = Some n'" and "goes_on ra ts n m"
    and "is_ask ev \<or> net_measure ra ts m < net_measure ra ts n" and "is_loss ev \<or> dropped m = dropped n"
    and "\<forall>k\<in>set (sites ra ts). kids k = [] \<and> ev = Ask (nid k) \<longrightarrow> 0 < sent_count m k"
proof -
  have "net_possible ra ts ev n" using assms(3) by (auto split: if_splits)
  with net_progress [OF assms(1,2) this, of lib] assms(3) that show ?thesis by (cases ev) auto
qed

lemma net_run_measure:
  assumes "wf_forest ra ts" and "net_inv ra ts n" and "net_run lib ra ts evs n = Some n'" and "list_all (Not \<circ> is_ask) evs"
  shows "length evs + net_measure ra ts n' \<le> net_measure ra ts n"
  using assms(2-4)
proof (induction evs arbitrary: n)
  case (Cons ev evs)
  from net_run_Cons [OF assms(1) Cons.prems(1,2)] obtain m where "net_run lib ra ts evs m = Some n'"
    "goes_on ra ts n m" "is_ask ev \<or> net_measure ra ts m < net_measure ra ts n" .
  with Cons.IH [of m] Cons.prems(3) show ?case by (auto simp: goes_on_def)
qed simp

lemma net_run_keeps:
  assumes "wf_forest ra ts" and "net_inv ra ts n" and "net_run lib ra ts evs n = Some n'"
  shows "goes_on ra ts n n'" and "list_all (Not \<circ> is_loss) evs \<Longrightarrow> dropped n' = dropped n"
  using assms(2,3)
proof (induction evs arbitrary: n)
  case Nil
  { case 1 then show ?case by (simp add: goes_on_def) next case 2 then show ?case by simp }
next
  case (Cons ev evs)
  { case 1
    from net_run_Cons [OF assms(1) 1] obtain m where "net_run lib ra ts evs m = Some n'" "goes_on ra ts n m" .
    with Cons.IH(1) [of m] show ?case by (fastforce simp: goes_on_def)
  next
    case 2
    from net_run_Cons [OF assms(1) 2(2,3)] obtain m where "net_run lib ra ts evs m = Some n'" "goes_on ra ts n m"
      "is_loss ev \<or> dropped m = dropped n" .
    with Cons.IH(2) [of m] 2(1) show ?case by (auto simp: goes_on_def) }
qed

lemma net_run_asked:
  assumes "wf_forest ra ts" and "net_inv ra ts n" and "net_run lib ra ts evs n = Some n'"
    and "k \<in> set (sites ra ts)" and "kids k = []" and "Ask (nid k) \<in> set evs"
  shows "0 < sent_count n' k"
  using assms(2,3,6)
proof (induction evs arbitrary: n)
  case (Cons ev evs)
  from net_run_Cons [OF assms(1) Cons.prems(1,2)] obtain m where m: "net_run lib ra ts evs m = Some n'"
    "goes_on ra ts n m" "\<forall>k\<in>set (sites ra ts). kids k = [] \<and> ev = Ask (nid k) \<longrightarrow> 0 < sent_count m k" .
  then have inv: "net_inv ra ts m" by (simp add: goes_on_def)
  show ?case
  proof (cases "ev = Ask (nid k)")
    case True
    then have "0 < sent_count m k" using m(3) assms(4,5) by blast
    moreover have "sent_count m k \<le> sent_count n' k"
      using net_run_keeps(1) [OF assms(1) inv m(1)] assms(4) by (simp add: goes_on_def)
    ultimately show ?thesis by simp
  next
    case False
    then show ?thesis using Cons.IH [OF inv m(1)] Cons.prems(3) by simp
  qed
qed simp

text \<open>A network that is not at rest can go on without a request and without a loss.\<close>

lemma not_at_rest:
  assumes "\<not> at_rest ra ts n"
  obtains ev where "net_possible ra ts ev n" and "\<not> is_ask ev" and "\<not> is_loss ev"
proof (cases "flight n = []")
  case True
  then obtain k where "k \<in> set (sites ra ts)" "armed n (nid k)"
    using assms by (auto simp: at_rest_def list_all_iff)
  then show ?thesis using that [of "Expire (nid k)"] by simp
next
  case False
  then show ?thesis using that [of "Deliver 0"] by simp
qed

lemma comes_to_rest:
  assumes "wf_forest ra ts" and "net_inv ra ts n"
  shows "\<exists>evs n'. net_run lib ra ts evs n = Some n' \<and> at_rest ra ts n' \<and>
    list_all (\<lambda>ev. \<not> is_ask ev \<and> \<not> is_loss ev) evs"
  using assms(2)
proof (induction "net_measure ra ts n" arbitrary: n rule: less_induct)
  case less
  show ?case
  proof (cases "at_rest ra ts n")
    case True
    then show ?thesis by (intro exI [of _ "[]"] exI [of _ n]) simp
  next
    case False
    from not_at_rest [OF this] obtain ev where ev: "net_possible ra ts ev n" "\<not> is_ask ev" "\<not> is_loss ev" .
    with net_progress [OF assms(1) less.prems ev(1), of lib] obtain m where
      "net_step lib ra ts ev n = Inr m" "net_inv ra ts m" "net_measure ra ts m < net_measure ra ts n"
      by (auto simp: goes_on_def)
    moreover from less.hyps [OF this(3,2)] obtain evs n' where
      "net_run lib ra ts evs m = Some n'" "at_rest ra ts n'" "list_all (\<lambda>ev. \<not> is_ask ev \<and> \<not> is_loss ev) evs"
      by blast
    ultimately show ?thesis using ev by (intro exI [of _ "ev # evs"] exI [of _ n']) simp
  qed
qed

subsection \<open>At rest\<close>

lemma rest_holds_nothing:
  assumes "net_inv ra ts n" and "at_rest ra ts n" and "k \<in> set (sites ra ts)"
  shows "held n k = 0" and "held_ids n k = {}"
proof -
  have "kids k = [] \<or> \<not> holding (relays n (nid k))"
    using assms by (auto simp: net_inv_def at_rest_def list_all_iff site_ok_def split: if_splits)
  then show "held n k = 0" and "held_ids n k = {}"
    by (auto simp: held_def held_ids_def holding_def)
qed

lemma rest_all_sent:
  assumes inv: "net_inv ra ts n" and rest: "at_rest ra ts n" and kept: "dropped n = []"
    and leaves: "\<And>k. k \<in> set (sites ra ts) \<Longrightarrow> kids k = [] \<Longrightarrow> 0 < sent_count n k"
  shows "k \<in> set (sites ra ts) \<Longrightarrow> 0 < sent_count n k"
proof (induction k)
  case (Node e a ks)
  show ?case
  proof (cases "ks = []")
    case True
    then show ?thesis using leaves [OF Node.prems] by simp
  next
    case False
    then obtain c where c: "c \<in> set ks" by (cases ks) auto
    then have "0 < sent_count n c" using Node.IH site_kid [OF Node.prems] by simp
    moreover have "flight n = []" using rest by (simp add: at_rest_def)
    ultimately show ?thesis
      using inv Node.prems c kept rest_holds_nothing(2) [OF inv rest Node.prems]
      by (auto simp: net_inv_def passed_on_def)
  qed
qed

lemma sites_ids: "set (map nid (sites ra ts)) = set (concat (map ids ts))"
proof -
  have envs: "map (node_env \<circ> fst) (places d up t) = nodes t" for d up t
  proof (induction t arbitrary: d up)
    case (Node e a ks)
    then have "map (\<lambda>k. map (\<lambda>p. node_env (fst p)) (places (Suc d) a k)) ks = map nodes ks" by (simp add: comp_def)
    from arg_cong [OF this, of concat] show ?case by (simp add: map_concat comp_def)
  qed
  have "map (\<lambda>p. nid (fst p)) (places d up t) = ids t" for d up t
    using arg_cong [OF envs [of d up t], of "map iotlab_uid"] by (simp add: ids_def comp_def)
  then have "map (\<lambda>t. map (\<lambda>p. nid (fst p)) (places 1 ra t)) ts = map ids ts" by simp
  from arg_cong [OF this, of "\<lambda>xss. set (concat xss)"] show ?thesis
    by (simp add: sites_def all_places_def map_concat comp_def)
qed

lemma xor_printed: "p = (ucast a :: u32) \<Longrightarrow> a XOR r = (t :: u64) \<Longrightarrow> p XOR ucast r = ucast t"
  by (auto simp: unsigned_xor_eq)

lemma own_ids_sent: "(\<Union>k\<in>set ks. own_ids (node_env k) (c k)) = {nid k |k. k \<in> set ks \<and> 0 < c k}"
  by (auto simp: own_ids_def)

lemma ledger_printed:
  assumes "net_inv ra ts n"
  shows "printed_ids (br_out (router n)) \<union> ids_of (map payload (flight n @ dropped n)) \<union>
      (\<Union>k\<in>set (sites ra ts). held_ids n k) = {nid k |k. k \<in> set (sites ra ts) \<and> 0 < sent_count n k}"
    and "xor_list (printed_checksums (br_out (router n))) XOR
      ucast (xor_list (map topo_checksum (map payload (flight n @ dropped n))) XOR
        xor_list (map (held n) (sites ra ts))) =
      ucast (xor_list (map (\<lambda>k. own_times (node_env k) (sent_count n k)) (sites ra ts)))"
proof -
  obtain arrived where out: "br_out (router n) = concat (map prints arrived)"
    and bal: "balanced (sites ra ts) (held n) (held_ids n) (sent_count n) (map payload (arrived @ flight n @ dropped n))"
    using assms by (auto simp: net_inv_def ledger_def)
  show "printed_ids (br_out (router n)) \<union> ids_of (map payload (flight n @ dropped n)) \<union>
      (\<Union>k\<in>set (sites ra ts). held_ids n k) = {nid k |k. k \<in> set (sites ra ts) \<and> 0 < sent_count n k}"
    using bal unfolding balanced_def own_ids_sent out printed_arrived by (simp add: Un_assoc)
  have "xor_list (printed_checksums (br_out (router n))) = ucast (xor_list (map topo_checksum (map payload arrived)))"
    unfolding out printed_arrived using ucast_xor_list [of "map topo_checksum (map payload arrived)"]
    by (simp only: map_map comp_assoc)
  moreover have "xor_list (map topo_checksum (map payload arrived)) XOR
      (xor_list (map topo_checksum (map payload (flight n @ dropped n))) XOR xor_list (map (held n) (sites ra ts))) =
      xor_list (map (\<lambda>k. own_times (node_env k) (sent_count n k)) (sites ra ts))"
    using bal unfolding balanced_def by (simp add: xor.assoc)
  ultimately show "xor_list (printed_checksums (br_out (router n))) XOR
      ucast (xor_list (map topo_checksum (map payload (flight n @ dropped n))) XOR
        xor_list (map (held n) (sites ra ts))) =
      ucast (xor_list (map (\<lambda>k. own_times (node_env k) (sent_count n k)) (sites ra ts)))"
    by (rule xor_printed)
qed

subsection \<open>A network to instantiate the properties\<close>

definition sample_net :: net where
  "sample_net = \<lparr>relays = (\<lambda>i. case relay_boot sample_lib (node_env sample_tree) of Inr s \<Rightarrow> s | Inl f \<Rightarrow> initial_relay),
     clients = (\<lambda>i. initial_client), armed = (\<lambda>i. False), flight = [], dropped = [], router = initial_border\<rparr>"

lemma sample_places: "all_places (sample_ip 9) [sample_tree] =
    [(sample_leaf 1, sample_ip 3, 2), (sample_leaf 2, sample_ip 3, 2), (sample_tree, sample_ip 9, 1)]"
  by (simp add: all_places_def sample_tree_def sample_leaf_def)

lemma sample_forest: "wf_forest (sample_ip 9) [sample_tree]"
proof -
  have "wf_node sample_tree" using sample_tree_ok by (simp add: wf_network_def)
  then show ?thesis
    by (simp add: wf_forest_def sites_def sample_places)
      (simp add: sample_tree_def sample_leaf_def receivers_def sample_ip_def)
qed

lemma sample_start: "net_start sample_lib (sample_ip 9) [sample_tree] sample_net"
proof -
  obtain e a ks where t: "sample_tree = Node e a ks" by (cases sample_tree)
  have "ks \<noteq> []" using arg_cong [OF t, of kids] by (auto simp: sample_tree_def)
  then obtain s where "relay_boot sample_lib e = Inr s"
    using boot_of_node [of e a ks sample_lib] sample_tree_ok sample_lib_ok by (auto simp: wf_network_def t)
  then have "relay_boot sample_lib (node_env sample_tree) = Inr s" by (simp add: t)
  then show ?thesis
    by (simp add: net_start_def sites_def sample_places sample_net_def sample_leaf_def)
qed

lemma sample_reachable: "net_reachable sample_lib (sample_ip 9) [sample_tree] sample_net"
  by (rule reachable.start) (rule sample_start)

subsection \<open>Properties\<close>

text \<open>
  C3: In every state a network can reach, whatever the number of its nodes and
  the order of its events, what the border router has printed, the responses in
  flight and lost, and what the relays hold are together exactly what the nodes
  have sent: as sets, the ids of the nodes that have sent something, and combined
  by exclusive-or, the checksums of those that have sent an odd number of packets.
\<close>

theorem network_conserves:
  assumes "wf_forest ra ts" and "contiki_lib_ok lib" and "net_reachable lib ra ts n"
  shows "printed_ids (br_out (router n)) \<union> ids_of (map payload (flight n @ dropped n)) \<union>
      (\<Union>k\<in>set (sites ra ts). held_ids n k) = {nid k |k. k \<in> set (sites ra ts) \<and> 0 < sent_count n k} \<and>
    xor_list (printed_checksums (br_out (router n))) XOR
      ucast (xor_list (map topo_checksum (map payload (flight n @ dropped n))) XOR
        xor_list (map (held n) (sites ra ts))) =
      ucast (xor_list (map (\<lambda>k. if odd (sent_count n k) then own_checksum (node_env k) else 0) (sites ra ts)))"
  using ledger_printed [of ra ts n] network.holds [OF assms(3)] assms(1,2)
  by (simp add: own_times_def)

lemma network_conserves_witness:
  "\<exists>n. net_step sample_lib (sample_ip 9) [sample_tree] (Ask 1) sample_net = Inr n \<and>
     1 \<in> printed_ids (br_out (router n)) \<union> ids_of (map payload (flight n @ dropped n)) \<union>
       (\<Union>k\<in>set (sites (sample_ip 9) [sample_tree]). held_ids n k)"
proof -
  have leaf: "sample_leaf 1 \<in> set (sites (sample_ip 9) [sample_tree])" "kids (sample_leaf 1) = []" "nid (sample_leaf 1) = 1"
    by (simp_all add: sites_def sample_places) (simp_all add: sample_leaf_def)
  have "net_inv (sample_ip 9) [sample_tree] sample_net"
    by (rule start_inv [OF sample_forest sample_lib_ok sample_start])
  from ask_progress [OF sample_forest this, of sample_lib 1] obtain n where
    n: "net_step sample_lib (sample_ip 9) [sample_tree] (Ask 1) sample_net = Inr n"
    and sent: "0 < sent_count n (sample_leaf 1)"
    using leaf by blast
  have "net_reachable sample_lib (sample_ip 9) [sample_tree] n"
    by (rule reachable.step [OF sample_reachable _ n]) simp
  note all = network_conserves [OF sample_forest sample_lib_ok this, THEN conjunct1]
  have "1 \<in> {nid k |k. k \<in> set (sites (sample_ip 9) [sample_tree]) \<and> 0 < sent_count n k}"
    using leaf sent by (intro CollectI exI [of _ "sample_leaf 1"]) simp
  then show ?thesis unfolding all [symmetric] using n by blast
qed



text \<open>
  C2: A network that has been started, in which every leaf has been asked, no
  datagram has been lost and nothing is left to do, has been reported as a whole:
  the ids the border router has printed are those of all nodes and no others, and
  the printed checksums combine to those of the nodes that have sent an odd number
  of packets.
\<close>

theorem whole_network_reported:
  assumes "wf_forest ra ts" and "contiki_lib_ok lib" and "net_start lib ra ts n0"
    and "net_run lib ra ts evs n0 = Some n" and "at_rest ra ts n"
    and "\<forall>k\<in>set (sites ra ts). kids k = [] \<longrightarrow> Ask (nid k) \<in> set evs" and "list_all (Not \<circ> is_loss) evs"
  shows "printed_ids (br_out (router n)) = set (concat (map ids ts)) \<and>
    xor_list (printed_checksums (br_out (router n))) =
      ucast (xor_list (map (\<lambda>k. if odd (sent_count n k) then own_checksum (node_env k) else 0) (sites ra ts)))"
proof -
  have start: "net_inv ra ts n0" by (rule start_inv [OF assms(1-3)])
  have inv: "net_inv ra ts n" using net_run_keeps(1) [OF assms(1) start assms(4)] by (simp add: goes_on_def)
  have kept: "dropped n = []"
    using net_run_keeps(2) [OF assms(1) start assms(4,7)] assms(3) by (simp add: net_start_def)
  have "0 < sent_count n k" if "k \<in> set (sites ra ts)" for k
    using rest_all_sent [OF inv assms(5) kept _ that] net_run_asked [OF assms(1) start assms(4)] assms(6) by blast
  then have "{nid k |k. k \<in> set (sites ra ts) \<and> 0 < sent_count n k} = set (map nid (sites ra ts))" by auto
  moreover have "flight n = []" using assms(5) by (simp add: at_rest_def)
  moreover have "xor_list (map (held n) (sites ra ts)) = 0" "(\<Union>k\<in>set (sites ra ts). held_ids n k) = {}"
    using rest_holds_nothing [OF inv assms(5)] by (auto intro!: xor_list_zeros)
  ultimately show ?thesis
    using ledger_printed [OF inv] kept unfolding sites_ids by (simp add: own_times_def)
qed

lemma whole_network_reported_witness:
  "\<exists>evs n. net_run sample_lib (sample_ip 9) [sample_tree] (Ask 1 # Ask 2 # evs) sample_net = Some n \<and>
     printed_ids (br_out (router n)) = {1, 2, 3}"
proof -
  let ?run = "net_run sample_lib (sample_ip 9) [sample_tree]"
  have start: "net_inv (sample_ip 9) [sample_tree] sample_net"
    by (rule start_inv [OF sample_forest sample_lib_ok sample_start])
  from ask_progress [OF sample_forest start, of sample_lib 1] obtain n1 where
    n1: "net_step sample_lib (sample_ip 9) [sample_tree] (Ask 1) sample_net = Inr n1"
    "net_inv (sample_ip 9) [sample_tree] n1" by (auto simp: goes_on_def)
  from ask_progress [OF sample_forest n1(2), of sample_lib 2] obtain n2 where
    n2: "net_step sample_lib (sample_ip 9) [sample_tree] (Ask 2) n1 = Inr n2"
    "net_inv (sample_ip 9) [sample_tree] n2" by (auto simp: goes_on_def)
  from comes_to_rest [OF sample_forest n2(2), of sample_lib] obtain evs n where
    evs: "?run evs n2 = Some n" "at_rest (sample_ip 9) [sample_tree] n"
    "list_all (\<lambda>ev. \<not> is_ask ev \<and> \<not> is_loss ev) evs" by blast
  have run: "?run (Ask 1 # Ask 2 # evs) sample_net = Some n" using n1(1) n2(1) evs(1) by (simp del: net_step.simps)
  moreover have "\<forall>k\<in>set (sites (sample_ip 9) [sample_tree]). kids k = [] \<longrightarrow> Ask (nid k) \<in> set (Ask 1 # Ask 2 # evs)"
    by (simp add: sites_def sample_places) (simp add: sample_tree_def sample_leaf_def)
  moreover have "list_all (Not \<circ> is_loss) (Ask 1 # Ask 2 # evs)" using evs(3) by (simp add: list_all_iff)
  ultimately have "printed_ids (br_out (router n)) = set (concat (map ids [sample_tree]))"
    using whole_network_reported [OF sample_forest sample_lib_ok sample_start _ evs(2)] by blast
  then have "printed_ids (br_out (router n)) = {1, 2, 3}"
    by (simp add: sample_tree_def sample_leaf_def ids_def)
  with run show ?thesis by blast
qed

end
