(* ===== verification/Relay_Air.thy ===== *)
theory Relay_Air
  imports Relay_Attestation Relay_Timeout
begin

text \<open>
  A relay's part in an attestation round, from any state between two rounds: what
  it hears, the timers it starts by it, what it broadcasts and what it keeps for
  the next round. A relay keeps what it has overheard, and one that has once
  combined to zero never starts its timer again.
\<close>

subsection \<open>Timers started in a round\<close>

text \<open>The expiry of a timer, if it was started after the first \<open>n\<close> effects.\<close>

definition fire_since :: "nat \<Rightarrow> ctimer_id \<Rightarrow> build \<Rightarrow> contiki_lib \<Rightarrow> env \<Rightarrow> relay \<Rightarrow> relay res" where
  "fire_since n t b lib e s =
     (case timer_callback t (drop n (outs s)) of
        None \<Rightarrow> Inr s
      | Some cb \<Rightarrow> relay_step b lib e (Timer_expired cb) s)"

definition relay_air_round ::
  "contiki_lib \<Rightarrow> env \<Rightarrow> (ipaddr \<times> response_pkt) list \<Rightarrow> relay \<Rightarrow> relay res" where
  "relay_air_round lib e qs s =
     (let n = length (outs s)
      in rbind (hear shipped_build lib e qs s) (\<lambda>s.
         rbind (fire_since n Periodic_timer shipped_build lib e s)
           (fire_since n P_timer shipped_build lib e)))"

text \<open>What has been broadcast after the first \<open>n\<close> effects.\<close>

definition said_since :: "nat \<Rightarrow> effect list \<Rightarrow> response_pkt option" where
  "said_since n os = first_broadcast (drop n os)"

fun option_list :: "'a option \<Rightarrow> 'a list" where
  "option_list None = []"
| "option_list (Some x) = [x]"

subsection \<open>Hearing\<close>

definition hears :: "env \<Rightarrow> (ipaddr \<times> response_pkt) list \<Rightarrow> relay \<Rightarrow> relay \<Rightarrow> bool" where
  "hears e qs s u \<longleftrightarrow> relay_inv u \<and> received u = received s @ map (att_checksum \<circ> snd) qs
     \<and> cur_loc u = cur_loc s + length qs \<and> collected u = collected s \<and> children u = children s \<and> max_leaf_rank u = max_leaf_rank s
     \<and> first_child u = (first_child s \<and> \<not> child_heard qs s)
     \<and> outs u = outs s @ (if first_child s \<and> child_heard qs s then [att_timer e s] else [])"

lemma hears_refl: "relay_inv s \<Longrightarrow> hears e [] s s"
  by (simp add: hears_def)

lemma hears_step:
  assumes "relay_inv s" and "cur_loc s < MAX_CHILD" and "attestation_pkt r"
  shows "\<exists>v. relay_step shipped_build lib e (Checksum_rx a (response_bytes r)) s = Inr v \<and> hears e [(a, r)] s v"
proof -
  let ?u = "s\<lparr>checksum_children := (checksum_children s)[cur_loc s := att_checksum r], cur_loc := cur_loc s + 1\<rparr>"
  let ?w = "if is_child (children s) (get_id_from_addr a) \<and> first_child s
      then (emit (att_timer e s) ?u)\<lparr>first_child := False\<rparr> else ?u"
  have len: "length (checksum_children s) = MAX_CHILD"
    using assms(1) by (simp add: relay_inv_def relay_arrays_def)
  have "relay_step shipped_build lib e (Checksum_rx a (response_bytes r)) s = Inr ?w"
    using hear_one [OF assms(1,2) _ assms(3)] by (simp add: Let_def)
  moreover have "relay_inv ?w" using assms(1,2) len by simp
  then have "hears e [(a, r)] s ?w"
    using len assms(2) by (auto simp: hears_def received_def collected_def take_list_update_Suc)
  ultimately show ?thesis by blast
qed

lemma hears_trans:
  assumes "hears e [(a, r)] s v" and "hears e qs v u"
  shows "hears e ((a, r) # qs) s u"
proof -
  have "child_heard qs v = child_heard qs s" and "att_timer e v = att_timer e s"
    using assms(1) by (simp_all add: hears_def child_heard_cong [of v s] att_timer_def
        get_attestation_timeout_cong [of v s])
  with assms show ?thesis
    by (cases "is_child (children s) (get_id_from_addr a)"; cases "first_child s") (simp_all add: hears_def)
qed

lemma hear_hears:
  assumes "relay_inv s" and "\<forall>(a, r)\<in>set qs. attestation_pkt r" and "cur_loc s + length qs \<le> MAX_CHILD"
  shows "\<exists>u. hear shipped_build lib e qs s = Inr u \<and> hears e qs s u"
  using assms
proof (induction qs arbitrary: s)
  case Nil
  then show ?case by (simp add: hears_refl)
next
  case (Cons ar qs)
  obtain a r where ar [simp]: "ar = (a, r)" by (cases ar)
  obtain v where v: "relay_step shipped_build lib e (Checksum_rx a (response_bytes r)) s = Inr v"
    "hears e [(a, r)] s v"
    using hears_step [of s r lib e a] Cons.prems by auto
  then obtain u where "hear shipped_build lib e qs v = Inr u" "hears e qs v u"
    using Cons.IH [of v] Cons.prems by (auto simp: hears_def)
  with v show ?case using hears_trans by auto
qed

subsection \<open>The round\<close>

text \<open>
  The checksum the relay combines to, whether its timer runs, and so what it says;
  a relay that is not \<open>first_child\<close> waits for a timer that has already expired.
\<close>

definition relay_value :: "env \<Rightarrow> u64 list \<Rightarrow> relay \<Rightarrow> u64" where
  "relay_value e cs s = xor_list (received s @ cs) XOR own_checksum e"

definition relay_says :: "env \<Rightarrow> u64 list \<Rightarrow> relay \<Rightarrow> u64 option" where
  "relay_says e cs s =
     (if first_child s \<and> cs \<noteq> [] \<and> relay_value e cs s \<noteq> 0 then Some (relay_value e cs s) else None)"

definition round_done :: "env \<Rightarrow> u64 list \<Rightarrow> relay \<Rightarrow> relay \<Rightarrow> bool" where
  "round_done e cs s s' \<longleftrightarrow> relay_inv s' \<and> child_ids (children s') = child_ids (children s) \<and>
     (\<exists>new. outs s' = outs s @ new \<and> map_option att_checksum (first_broadcast new) = relay_says e cs s \<and>
        (\<forall>q. first_broadcast new = Some q \<longrightarrow> attestation_pkt q)) \<and>
     (if relay_says e cs s = None
      then received s' = received s @ cs \<and> (first_child s' \<longleftrightarrow> first_child s \<and> cs = [])
      else received s' = [] \<and> first_child s')"

lemma response_roundtrip_att:
  "attestation_pkt q \<Longrightarrow> response_of_bytes (response_bytes q) = q"
  by (simp add: attestation_pkt_def)

lemma hears_silent:
  assumes "hears e qs s u" and "\<not> (first_child s \<and> child_heard qs s)" and "child_heard qs s \<longleftrightarrow> qs \<noteq> []"
  shows "round_done e (map (att_checksum \<circ> snd) qs) s u"
  using assms by (auto simp: hears_def round_done_def relay_says_def)

lemma relay_air_round_done:
  assumes "relay_inv s" and "wf_env e" and "backoff_modulus e \<noteq> 0"
    and "\<forall>(a, r)\<in>set qs. attestation_pkt r \<and> is_child (children s) (get_id_from_addr a)"
    and "cur_loc s + length qs \<le> MAX_CHILD"
  shows "\<exists>s'. relay_air_round lib e qs s = Inr s' \<and> round_done e (map (att_checksum \<circ> snd) qs) s s'"
proof -
  obtain u where u: "hear shipped_build lib e qs s = Inr u" and h: "hears e qs s u"
    using hear_hears [of s qs lib e] assms(1,4,5) by fast
  have inv: "relay_inv u" "relay_arrays u" "outs u = outs s @ (if first_child s \<and> child_heard qs s then [att_timer e s] else [])"
    using h by (simp_all add: hears_def relay_inv_def)
  have kids: "child_heard qs s \<longleftrightarrow> qs \<noteq> []"
    using assms(4) by (cases qs) (auto simp: child_heard_def)
  show ?thesis
  proof (cases "first_child s \<and> child_heard qs s")
    case False
    with inv(3) have "outs u = outs s" by auto
    then have "relay_air_round lib e qs s = Inr u"
      by (simp add: relay_air_round_def u fire_since_def)
    with hears_silent [OF h False kids] show ?thesis by blast
  next
    case True
    let ?v = "relay_value e (map (att_checksum \<circ> snd) qs) s"
    have v: "xor_list (received u) XOR own_checksum e = ?v" using h by (simp add: hears_def relay_value_def)
    have outs: "outs u = outs s @ [att_timer e s]" using inv(3) True by simp
    then have timer: "timer_callback Periodic_timer (drop (length (outs s)) (outs u)) = Some Call_send_attestation_resp"
      by (simp add: att_timer_def)
    note send = send_attestation_resp_broadcast [OF inv(2), of shipped_build e]
    show ?thesis
    proof (cases "?v = 0")
      case zero: True
      let ?w = "u\<lparr>my_checksum := own_checksum e\<rparr>"
      have "relay_air_round lib e qs s = Inr ?w"
        using send zero v assms(3) timer
        by (simp add: relay_air_round_def u fire_since_def outs att_timer_def)
      moreover have "round_done e (map (att_checksum \<circ> snd) qs) s ?w"
        using h zero True kids outs by (auto simp: round_done_def relay_says_def hears_def received_def att_timer_def)
      ultimately show ?thesis by blast
    next
      case nonzero: False
      let ?p = "Ctimer_set P_timer (unat (random_rand e) mod backoff_modulus e) Call_broadcast_to_parents"
      let ?r = "att_response e u"
      let ?w = "reset_variable (emit ?p (u\<lparr>my_checksum := own_checksum e, ctimer_resp := ?r\<rparr>))"
      have "fire_since (length (outs s)) Periodic_timer shipped_build lib e u = Inr ?w"
        using send nonzero v assms(3) timer by (simp add: fire_since_def)
      then have run: "relay_air_round lib e qs s = Inr (broadcast_to_parents ?w)"
        using outs by (simp add: relay_air_round_def u fire_since_def att_timer_def)
      have r: "attestation_pkt ?r" "att_checksum ?r = ?v"
        using att_response_simps [OF assms(2), of u] v by simp_all
      then have "wf_response ?r" by (simp add: attestation_pkt_def)
      then have "round_done e (map (att_checksum \<circ> snd) qs) s (broadcast_to_parents ?w)"
        using h r nonzero True kids outs inv(2)
        by (auto simp: round_done_def relay_says_def hears_def received_def att_timer_def
            broadcast_to_parents_def response_roundtrip_att)
      with run show ?thesis by blast
    qed
  qed
qed

subsection \<open>Property\<close>

text \<open>
  C22: A relay that overhears one attestation response of a node that is not its
  child, as every relay below another one does in an attestation round, ends its
  next topology round before its last child has answered: one child is missing in
  the packet, and the foreign checksum is mixed into the combined one.
\<close>

theorem overheard_attestation_spoils_topology:
  assumes "ready s" and "wf_env e" and "cur_loc s = 0" and "udp_new_ok e = (\<lambda>n. True)"
    and "attestation_pkt q" and "\<not> is_child (children s) (get_id_from_addr a)"
    and "length rs + 1 = num_nodes (children s)" and "rs \<noteq> []"
    and "\<forall>(b, r)\<in>set rs. topology_from s b r"
    and "fits (fold round_add (map snd rs) (abs_round s))"
  shows "\<exists>p s'. rbind (relay_step shipped_build lib e (Checksum_rx a (response_bytes q)) s)
        (feed shipped_build lib e rs) = Inr s' \<and>
    topo_checksum p = att_checksum q XOR xor_list (map (topo_checksum \<circ> snd) rs) XOR own_checksum e \<and>
    path_of p = r_ids (fold round_add (map snd rs) (abs_round s)) @ [iotlab_uid e] \<and>
    filter is_send (outs s') = filter is_send (outs s) @ parent_sends e 0 p"
proof -
  obtain v where v: "relay_step shipped_build lib e (Checksum_rx a (response_bytes q)) s = Inr v"
    "hears e [(a, q)] s v"
    using hears_step [of s q lib e a] assms(1,3,5) by (auto simp: ready_def size_defs)
  have outs: "outs v = outs s" and kids: "children v = children s"
    and rec: "received v = [att_checksum q]" "collected v = collected s"
    using v(2) assms(3,6) by (auto simp: hears_def received_def)
  have "Suc 0 < num_nodes (children s)" using assms(7,8) by (cases rs) auto
  then have ready: "ready v" "length rs = num_nodes (children v) - cur_loc v"
    using v(2) kids assms(1,3,7) by (simp_all add: hears_def ready_def)
  have from_v: "\<forall>(b, r)\<in>set rs. topology_from v b r" using assms(9) kids by (simp add: topology_from_def)
  have ids: "r_ids (fold round_add (map snd rs) (abs_round v)) = r_ids (fold round_add (map snd rs) (abs_round s))"
    using rec(2) by (simp add: rounds_ids abs_round_def)
  then have "fits (fold round_add (map snd rs) (abs_round v))" using assms(10) by (simp add: fits_def)
  from feed_round [OF ready(1) assms(2) ready(2) from_v this refl, of shipped_build lib]
  obtain p s' where run: "feed shipped_build lib e rs v = Inr s'"
    and sent: "round_sent e v (fold round_add (map snd rs) (abs_round v)) p s'" by blast
  have "xor_list (r_checksums (fold round_add (map snd rs) (abs_round v))) =
      att_checksum q XOR xor_list (map (topo_checksum \<circ> snd) rs)"
    using rec(1) by (simp add: rounds_checksums abs_round_def)
  then show ?thesis
    using v(1) run sent ids assms(4) outs
    by (intro exI [of _ p] exI [of _ s'])
      (simp add: round_sent_def topology_packet_def sends_def xor.assoc del: relay_step.simps)
qed

lemma overheard_attestation_spoils_topology_witness:
  "\<exists>p s'. rbind (relay_step shipped_build sample_lib (sample_env 3 512 [])
        (Checksum_rx (sample_ip 77) (response_bytes (sample_att 5))) (relay_of [1, 2]))
      (feed shipped_build sample_lib (sample_env 3 512 []) [(sample_ip 1, sample_response)]) = Inr s' \<and>
    topo_checksum p = 5 XOR own_checksum (sample_env 1 768 []) XOR own_checksum (sample_env 3 512 []) \<and>
    path_of p = [1, 3]"
proof -
  let ?e = "sample_env 3 512 []"
  have r: "path_of sample_response = [1]" "topo_checksum sample_response = own_checksum (sample_env 1 768 [])"
    using sample_response_packet by (simp_all add: topology_packet_def)
  have "ready (relay_of [1, 2])" by (simp add: ready_relay_of size_defs)
  moreover have "\<not> is_child (children (relay_of [1, 2])) (get_id_from_addr (sample_ip 77))"
    by (simp add: is_child_iff)
  moreover have "fits (round_add sample_response (abs_round (relay_of [1, 2])))"
    using r by (simp add: fits_def round_add_def merge_ids_def size_defs)
  ultimately obtain p s' where "rbind (relay_step shipped_build sample_lib ?e
        (Checksum_rx (sample_ip 77) (response_bytes (sample_att 5))) (relay_of [1, 2]))
      (feed shipped_build sample_lib ?e [(sample_ip 1, sample_response)]) = Inr s'"
    and "topo_checksum p = 5 XOR topo_checksum sample_response XOR own_checksum ?e"
    and "path_of p = r_ids (round_add sample_response (abs_round (relay_of [1, 2]))) @ [3]"
    using overheard_attestation_spoils_topology [of "relay_of [1, 2]" ?e "sample_att 5"
        "sample_ip 77" "[(sample_ip 1, sample_response)]" sample_lib] sample_response_from [of "[1, 2]"]
    by (auto simp del: relay_step.simps feed.simps)
  then show ?thesis
    using r by (intro exI [of _ p] exI [of _ s'])
      (simp add: round_add_def merge_ids_def del: relay_step.simps feed.simps)
qed

end
