(* ===== verification/Network_Air.thy ===== *)
theory Network_Air
  imports Network_Rounds Relay_Air
begin

text \<open>
  Attestation rounds of a network on a symmetric radio: what a relay broadcasts
  reaches its parent and, in the other direction, its children. Children that are
  relays keep the parent's checksum, since \<open>process_attestation_req\<close> stores a
  checksum before it looks whose it is. The rounds are described exactly by tallies,
  from any state between two rounds, faults included: the first round is right and
  the later ones are not.
\<close>

subsection \<open>The network between two rounds\<close>

datatype plant =
    Leaf env ipaddr client
  | Inner env ipaddr relay "plant list"

fun plant_env :: "plant \<Rightarrow> env" where
  "plant_env (Leaf e a c) = e"
| "plant_env (Inner e a s ks) = e"

fun plant_ip :: "plant \<Rightarrow> ipaddr" where
  "plant_ip (Leaf e a c) = a"
| "plant_ip (Inner e a s ks) = a"

fun plant_children :: "plant \<Rightarrow> u16 set" where
  "plant_children (Leaf e a c) = {}"
| "plant_children (Inner e a s ks) = set (child_ids (children s))"

text \<open>A broadcast of the node at \<open>a\<close> arrives at its children.\<close>

fun overhear :: "contiki_lib \<Rightarrow> ipaddr \<Rightarrow> response_pkt \<Rightarrow> plant \<Rightarrow> plant res" where
  "overhear lib a q (Leaf e b c) = Inr (Leaf e b (client_checksum_receiver (response_bytes q) c))"
| "overhear lib a q (Inner e b s ks) =
     rbind (relay_step shipped_build lib e (Checksum_rx a (response_bytes q)) s) (\<lambda>s. Inr (Inner e b s ks))"

fun overhear_all :: "contiki_lib \<Rightarrow> ipaddr \<Rightarrow> response_pkt \<Rightarrow> plant list \<Rightarrow> plant list res" where
  "overhear_all lib a q [] = Inr []"
| "overhear_all lib a q (k # ks) =
     rbind (overhear lib a q k) (\<lambda>k. rbind (overhear_all lib a q ks) (\<lambda>ks. Inr (k # ks)))"

definition spread :: "contiki_lib \<Rightarrow> ipaddr \<Rightarrow> response_pkt option \<Rightarrow> plant list \<Rightarrow> plant list res" where
  "spread lib a q ks = (case q of None \<Rightarrow> Inr ks | Some q \<Rightarrow> overhear_all lib a q ks)"

text \<open>
  A round: the request reaches the leaves; a relay hears what its children
  broadcast, its timers expire, and what it broadcasts then reaches its children.
\<close>

fun air_round :: "contiki_lib \<Rightarrow> plant \<Rightarrow> (response_pkt option \<times> plant) res"
  and air_rounds :: "contiki_lib \<Rightarrow> plant list \<Rightarrow> ((ipaddr \<times> response_pkt) list \<times> plant list) res" where
  "air_round lib (Leaf e a c) =
     (let c' = client_tcpip_handler shipped_build e True attestation_request c
      in Inr (said_since (length (client_outs c)) (client_outs c'), Leaf e a c'))"
| "air_round lib (Inner e a s ks) =
     rbind (air_rounds lib ks) (\<lambda>(qs, ks).
     rbind (relay_air_round lib e qs s) (\<lambda>s'.
       let q = said_since (length (outs s)) (outs s')
       in rbind (spread lib a q ks) (\<lambda>ks. Inr (q, Inner e a s' ks))))"
| "air_rounds lib [] = Inr ([], [])"
| "air_rounds lib (k # ks) =
     rbind (air_round lib k) (\<lambda>(q, k').
     rbind (air_rounds lib ks) (\<lambda>(qs, ks').
       Inr (map (Pair (plant_ip k)) (option_list q) @ qs, k' # ks')))"

text \<open>A step of a session: one more round, and what the top broadcasts in it.\<close>

definition air_step ::
  "contiki_lib \<Rightarrow> unit \<Rightarrow> response_pkt option list \<times> plant \<Rightarrow> (response_pkt option list \<times> plant) res" where
  "air_step lib u s = rbind (air_round lib (snd s)) (\<lambda>(q, p). Inr (fst s @ [q], p))"

text \<open>\<open>n\<close> rounds.\<close>

definition air_session :: "contiki_lib \<Rightarrow> nat \<Rightarrow> plant \<Rightarrow> (response_pkt option list \<times> plant) res" where
  "air_session lib n p = run (air_step lib) (replicate n ()) ([], p)"

subsection \<open>Tallies\<close>

text \<open>
  What counts of a node: its own checksum, the checksums it holds, whether it
  still starts its timer, and the nodes below it.
\<close>

datatype tally = Tally u64 "u64 list" bool "tally list"

fun t_says :: "tally \<Rightarrow> u64 option" where
  "t_says (Tally c ps l ks) =
     (if ks = [] then Some c
      else
        let cs = concat (map (\<lambda>k. option_list (t_says k)) ks);
            v = xor_list (ps @ cs) XOR c
        in if l \<and> cs \<noteq> [] \<and> v \<noteq> 0 then Some v else None)"

definition t_heard :: "tally list \<Rightarrow> u64 list" where
  "t_heard ks = concat (map (\<lambda>k. option_list (t_says k)) ks)"

fun t_overhear :: "u64 \<Rightarrow> tally \<Rightarrow> tally" where
  "t_overhear v (Tally c ps l ks) = Tally c (if ks = [] then ps else ps @ [v]) l ks"

fun t_round :: "tally \<Rightarrow> tally" where
  "t_round (Tally c ps l ks) =
     (if ks = [] then Tally c ps l ks
      else
        case t_says (Tally c ps l ks) of
          None \<Rightarrow> Tally c (ps @ t_heard ks) (l \<and> t_heard ks = []) (map t_round ks)
        | Some v \<Rightarrow> Tally c [] True (map (\<lambda>k. t_overhear v (t_round k)) ks))"

text \<open>Do the checksums of a round fit the relays' arrays?\<close>

fun t_full :: "tally \<Rightarrow> bool" where
  "t_full (Tally c ps l ks) \<longleftrightarrow> ks \<noteq> [] \<and> MAX_CHILD \<le> length ps"

fun t_room :: "tally \<Rightarrow> bool" where
  "t_room (Tally c ps l ks) \<longleftrightarrow> ks = [] \<or>
     list_all t_room ks \<and> length ps + length (t_heard ks) \<le> MAX_CHILD \<and>
     (t_says (Tally c ps l ks) = None \<or> (\<forall>k\<in>set ks. \<not> t_full (t_round k)))"

fun tally_of :: "plant \<Rightarrow> tally" where
  "tally_of (Leaf e a c) = Tally (own_checksum e) [] True []"
| "tally_of (Inner e a s ks) = Tally (own_checksum e) (received s) (first_child s) (map tally_of ks)"

declare t_says.simps [simp del] t_round.simps [simp del] t_room.simps [simp del]

subsection \<open>Plants as they are between two rounds\<close>

fun plant_ok :: "plant \<Rightarrow> bool" where
  "plant_ok (Leaf e a c) \<longleftrightarrow> get_id_from_addr a = iotlab_uid e"
| "plant_ok (Inner e a s ks) \<longleftrightarrow> get_id_from_addr a = iotlab_uid e \<and> wf_env e \<and>
     backoff_modulus e \<noteq> 0 \<and> relay_inv s \<and> ks \<noteq> [] \<and>
     set (child_ids (children s)) = (\<lambda>k. iotlab_uid (plant_env k)) ` set ks \<and>
     (\<forall>k\<in>set ks. plant_ok k \<and> iotlab_uid e \<notin> plant_children k)"

definition similar :: "plant \<Rightarrow> plant \<Rightarrow> bool" where
  "similar p p' \<longleftrightarrow> plant_env p' = plant_env p \<and> plant_ip p' = plant_ip p \<and>
     plant_children p' = plant_children p"

lemma similar_refl: "similar p p"
  by (simp add: similar_def)

lemma similar_trans: "similar p q \<Longrightarrow> similar q r \<Longrightarrow> similar p r"
  by (simp add: similar_def)

lemma plant_ok_address: "plant_ok p \<Longrightarrow> get_id_from_addr (plant_ip p) = iotlab_uid (plant_env p)"
  by (cases p) simp_all

lemma cur_loc_received: "relay_inv s \<Longrightarrow> cur_loc s = length (received s)"
  by (simp add: relay_inv_def relay_arrays_def received_def)

lemma t_says_Tally:
  "ks \<noteq> [] \<Longrightarrow> t_says (Tally c ps l ks) =
     (if l \<and> t_heard ks \<noteq> [] \<and> xor_list (ps @ t_heard ks) XOR c \<noteq> 0
      then Some (xor_list (ps @ t_heard ks) XOR c) else None)"
  by (subst t_says.simps) (simp only: t_heard_def [symmetric] Let_def if_False simp_thms)

lemma relay_says_tally:
  "ks \<noteq> [] \<Longrightarrow> relay_says e (t_heard ks) s = t_says (Tally (own_checksum e) (received s) (first_child s) ks)"
  by (simp add: t_says_Tally relay_says_def relay_value_def)

subsection \<open>Overhearing\<close>

text \<open>The parent is no child: what it says is stored and starts no timer.\<close>

definition overheard :: "u64 \<Rightarrow> plant \<Rightarrow> plant \<Rightarrow> bool" where
  "overheard v k k' \<longleftrightarrow> tally_of k' = t_overhear v (tally_of k) \<and> plant_ok k' \<and> similar k k'"

lemma overhear_spec:
  assumes "plant_ok k" and "attestation_pkt q" and "get_id_from_addr a \<notin> plant_children k"
  shows "if t_full (tally_of k) then overhear lib a q k = Inl Out_of_bounds
    else \<exists>k'. overhear lib a q k = Inr k' \<and> overheard (att_checksum q) k k'"
proof (cases k)
  case (Leaf e b c)
  then show ?thesis using assms(1) by (simp add: overheard_def similar_def)
next
  case (Inner e b s ks)
  have s: "relay_inv s" "ks \<noteq> []" "\<not> is_child (children s) (get_id_from_addr a)"
    using assms(1,3) Inner by (simp_all add: is_child_iff)
  have full: "t_full (tally_of k) \<longleftrightarrow> MAX_CHILD \<le> cur_loc s"
    using s Inner by (simp add: cur_loc_received)
  show ?thesis
  proof (cases "MAX_CHILD \<le> cur_loc s")
    case True
    moreover have "relay_step shipped_build lib e (Checksum_rx a (response_bytes q)) s = Inl Out_of_bounds"
      using True s(1) assms(2)
      by (simp add: checksum_receiver_def attestation_pkt_def process_attestation_req_def relay_inv_def relay_arrays_def)
    ultimately show ?thesis using full Inner by (simp del: relay_step.simps)
  next
    case False
    then obtain v where v: "relay_step shipped_build lib e (Checksum_rx a (response_bytes q)) s = Inr v"
      "hears e [(a, q)] s v"
      using hears_step [OF s(1) _ assms(2), of lib e a] by auto
    then have "overheard (att_checksum q) k (Inner e b v ks)"
      using s assms(1) Inner by (simp add: overheard_def hears_def similar_def)
    with v(1) False full Inner show ?thesis by (simp del: relay_step.simps t_full.simps)
  qed
qed

lemma overhear_all_spec:
  assumes "\<forall>k\<in>set ks. plant_ok k \<and> get_id_from_addr a \<notin> plant_children k" and "attestation_pkt q"
  shows "if \<exists>k\<in>set ks. t_full (tally_of k) then overhear_all lib a q ks = Inl Out_of_bounds
    else \<exists>ks'. overhear_all lib a q ks = Inr ks' \<and> list_all2 (overheard (att_checksum q)) ks ks'"
  using assms(1)
proof (induction ks)
  case (Cons k ks)
  have k: "if t_full (tally_of k) then overhear lib a q k = Inl Out_of_bounds
    else \<exists>k'. overhear lib a q k = Inr k' \<and> overheard (att_checksum q) k k'"
    using overhear_spec [of k q a lib] Cons.prems assms(2) by simp
  have ks: "if \<exists>k\<in>set ks. t_full (tally_of k) then overhear_all lib a q ks = Inl Out_of_bounds
    else \<exists>ks'. overhear_all lib a q ks = Inr ks' \<and> list_all2 (overheard (att_checksum q)) ks ks'"
    using Cons by simp
  show ?case
  proof (cases "t_full (tally_of k)")
    case True
    with k show ?thesis by simp
  next
    case False
    with k obtain k' where "overhear lib a q k = Inr k'" "overheard (att_checksum q) k k'" by auto
    with False ks show ?thesis by (auto split: if_splits)
  qed
qed simp

lemma overheard_facts:
  assumes "list_all2 (overheard v) ks ks'"
  shows "map tally_of ks' = map (t_overhear v) (map tally_of ks)" and "list_all plant_ok ks'"
    and "list_all2 similar ks ks'"
  using assms by (induction ks ks' rule: list_all2_induct) (auto simp: overheard_def)

subsection \<open>One round\<close>

definition round_right :: "plant \<Rightarrow> (response_pkt option \<times> plant) res \<Rightarrow> bool" where
  "round_right p r \<longleftrightarrow>
     (if t_room (tally_of p)
      then \<exists>q p'. r = Inr (q, p') \<and> map_option att_checksum q = t_says (tally_of p) \<and>
        (\<forall>x. q = Some x \<longrightarrow> attestation_pkt x) \<and> tally_of p' = t_round (tally_of p) \<and>
        plant_ok p' \<and> similar p p'
      else r = Inl Out_of_bounds)"

definition rounds_right :: "plant list \<Rightarrow> ((ipaddr \<times> response_pkt) list \<times> plant list) res \<Rightarrow> bool" where
  "rounds_right ks r \<longleftrightarrow>
     (if list_all t_room (map tally_of ks)
      then \<exists>qs ks'. r = Inr (qs, ks') \<and> map (att_checksum \<circ> snd) qs = t_heard (map tally_of ks) \<and>
        (\<forall>(a, x)\<in>set qs. attestation_pkt x \<and> get_id_from_addr a \<in> (\<lambda>k. iotlab_uid (plant_env k)) ` set ks) \<and>
        map tally_of ks' = map t_round (map tally_of ks) \<and> list_all plant_ok ks' \<and> list_all2 similar ks ks'
      else r = Inl Out_of_bounds)"

lemma leaf_round: "plant_ok (Leaf e a c) \<Longrightarrow> round_right (Leaf e a c) (air_round lib (Leaf e a c))"
proof -
  assume ok: "plant_ok (Leaf e a c)"
  let ?q = "client_answer e ATTESTATION"
  have q: "attestation_pkt ?q" "att_checksum ?q = own_checksum e"
    by (simp_all add: attestation_pkt_def client_answer_attestation)
      (simp add: client_answer_def create_response_def attest_memory_own)
  have "client_outs (client_tcpip_handler shipped_build e True attestation_request c) =
      client_outs c @ [Broadcast_sendto (response_bytes ?q)]"
    unfolding client_tcpip_handler_eq by (simp add: attestation_request_def Let_def)
  then have "air_round lib (Leaf e a c) =
      Inr (Some ?q, Leaf e a (client_tcpip_handler shipped_build e True attestation_request c))"
    using response_roundtrip_att [OF q(1)] by (simp add: said_since_def Let_def)
  then show ?thesis
    using ok q by (simp add: round_right_def t_room.simps t_says.simps t_round.simps similar_def)
qed

lemma t_room_Tally:
  "ks \<noteq> [] \<Longrightarrow> t_room (Tally c ps l ks) \<longleftrightarrow>
     list_all t_room ks \<and> length ps + length (t_heard ks) \<le> MAX_CHILD \<and>
     (t_says (Tally c ps l ks) = None \<or> (\<forall>k\<in>set ks. \<not> t_full (t_round k)))"
  by (subst t_room.simps) simp

lemma t_round_Tally:
  "ks \<noteq> [] \<Longrightarrow> t_round (Tally c ps l ks) =
     (case t_says (Tally c ps l ks) of
        None \<Rightarrow> Tally c (ps @ t_heard ks) (l \<and> t_heard ks = []) (map t_round ks)
      | Some v \<Rightarrow> Tally c [] True (map (t_overhear v) (map t_round ks)))"
  by (subst t_round.simps) (simp add: comp_def split: option.splits)

lemma relay_air_round_overflow:
  assumes "relay_inv s" and "\<forall>(a, r)\<in>set qs. attestation_pkt r" and "MAX_CHILD < cur_loc s + length qs"
  shows "relay_air_round lib e qs s = Inl Out_of_bounds"
  using attestation_flood_overflows [OF assms(1,2), of lib e] assms(3) by (simp add: relay_air_round_def)

text \<open>The relay after its own part, with its children before they overhear it.\<close>

lemma inner_said:
  assumes "round_done e (t_heard ts) s s'" and "ts \<noteq> []"
  shows "map_option att_checksum (said_since (length (outs s)) (outs s')) =
      t_says (Tally (own_checksum e) (received s) (first_child s) ts)"
    and "said_since (length (outs s)) (outs s') = Some x \<Longrightarrow> attestation_pkt x"
  using assms by (auto simp: round_done_def said_since_def relay_says_tally)

lemma inner_tally:
  assumes "round_done e (t_heard ts) s s'" and "ts \<noteq> []"
    and "t_says (Tally (own_checksum e) (received s) (first_child s) ts) = v"
    and "map tally_of ks' = (case v of None \<Rightarrow> map t_round ts | Some v \<Rightarrow> map (t_overhear v) (map t_round ts))"
  shows "tally_of (Inner e a s' ks') = t_round (Tally (own_checksum e) (received s) (first_child s) ts)"
  using assms by (auto simp: round_done_def relay_says_tally t_round_Tally split: option.splits if_splits)

lemma similar_kids:
  assumes "list_all2 similar ks ks'"
  shows "(\<lambda>k. iotlab_uid (plant_env k)) ` set ks' = (\<lambda>k. iotlab_uid (plant_env k)) ` set ks"
    and "\<forall>k\<in>set ks. x \<notin> plant_children k \<Longrightarrow> \<forall>k\<in>set ks'. x \<notin> plant_children k"
    and "ks' = [] \<longleftrightarrow> ks = []"
  using assms by (induction ks ks' rule: list_all2_induct) (auto simp: similar_def)

lemma inner_ok:
  assumes "plant_ok (Inner e a s ks)" and "round_done e cs s s'" and "list_all plant_ok ks'"
    and "list_all2 similar ks ks'"
  shows "plant_ok (Inner e a s' ks')" and "similar (Inner e a s ks) (Inner e a s' ks')"
  using assms similar_kids [OF assms(4)]
  by (auto simp: round_done_def similar_def list_all_iff)

lemma spread_spec:
  assumes "\<forall>k\<in>set ks. plant_ok k \<and> get_id_from_addr a \<notin> plant_children k"
    and "\<And>x. q = Some x \<Longrightarrow> attestation_pkt x"
  shows "if q \<noteq> None \<and> (\<exists>k\<in>set ks. t_full (tally_of k)) then spread lib a q ks = Inl Out_of_bounds
    else \<exists>ks'. spread lib a q ks = Inr ks' \<and> list_all plant_ok ks' \<and> list_all2 similar ks ks' \<and>
      map tally_of ks' = (case map_option att_checksum q of None \<Rightarrow> map tally_of ks
        | Some v \<Rightarrow> map (t_overhear v) (map tally_of ks))"
proof (cases q)
  case None
  then show ?thesis
    using assms(1) by (simp add: spread_def list_all_iff list_all2_refl similar_refl)
next
  case (Some x)
  then show ?thesis
    using overhear_all_spec [OF assms(1) assms(2) [OF Some], of lib] overheard_facts
    by (auto simp: spread_def split: if_splits)
qed

lemma similar_list_trans:
  "list_all2 similar xs ys \<Longrightarrow> list_all2 similar ys zs \<Longrightarrow> list_all2 similar xs zs"
  by (rule list_all2_trans [OF similar_trans])

lemma inner_air_round:
  assumes ok: "plant_ok (Inner e a s ks)" and kids: "rounds_right ks (air_rounds lib ks)"
  shows "round_right (Inner e a s ks) (air_round lib (Inner e a s ks))"
proof (cases "list_all t_room (map tally_of ks)")
  case False
  then have "air_rounds lib ks = Inl Out_of_bounds" using kids by (simp add: rounds_right_def)
  with False ok show ?thesis by (simp add: round_right_def t_room_Tally)
next
  case True
  let ?ts = "map tally_of ks"
  let ?t = "Tally (own_checksum e) (received s) (first_child s) ?ts"
  obtain qs us where run: "air_rounds lib ks = Inr (qs, us)" and cs: "map (att_checksum \<circ> snd) qs = t_heard ?ts"
    and qs: "\<forall>(b, x)\<in>set qs. attestation_pkt x \<and> get_id_from_addr b \<in> (\<lambda>k. iotlab_uid (plant_env k)) ` set ks"
    and us: "map tally_of us = map t_round ?ts" "list_all plant_ok us" "list_all2 similar ks us"
    using kids True by (auto simp: rounds_right_def)
  have s: "relay_inv s" "wf_env e" "backoff_modulus e \<noteq> 0" "?ts \<noteq> []" using ok by simp_all
  have len: "length qs = length (t_heard ?ts)" using arg_cong [OF cs, of length] by simp
  show ?thesis
  proof (cases "length (received s) + length (t_heard ?ts) \<le> MAX_CHILD")
    case False
    then have "relay_air_round lib e qs s = Inl Out_of_bounds"
      using qs len s(1) by (intro relay_air_round_overflow) (auto simp: cur_loc_received)
    with run False s(4) show ?thesis by (simp add: round_right_def t_room_Tally)
  next
    case fits: True
    have "\<forall>(b, x)\<in>set qs. attestation_pkt x \<and> is_child (children s) (get_id_from_addr b)"
      using qs ok by (auto simp: is_child_iff)
    then obtain s' where s': "relay_air_round lib e qs s = Inr s'" "round_done e (t_heard ?ts) s s'"
      using relay_air_round_done [of s e qs lib] s fits len cs by (auto simp: cur_loc_received)
    define q where "q = said_since (length (outs s)) (outs s')"
    then have q: "said_since (length (outs s)) (outs s') = q" "map_option att_checksum q = t_says ?t"
      and pk: "\<And>x. q = Some x \<Longrightarrow> attestation_pkt x"
      using inner_said [OF s'(2) s(4)] by simp_all
    have below: "\<forall>k\<in>set us. plant_ok k \<and> get_id_from_addr a \<notin> plant_children k"
      using us(2) similar_kids(2) [OF us(3), of "iotlab_uid e"] ok by (auto simp: list_all_iff)
    have full: "(\<exists>k\<in>set us. t_full (tally_of k)) \<longleftrightarrow> (\<exists>k\<in>set ?ts. t_full (t_round k))"
      using arg_cong [OF us(1), of "\<lambda>xs. \<exists>x\<in>set xs. t_full x"] by auto
    have room: "t_room ?t \<longleftrightarrow> q = None \<or> \<not> (\<exists>k\<in>set us. t_full (tally_of k))"
      using True fits q(2) full s(4) by (auto simp: t_room_Tally)
    have go: "air_round lib (Inner e a s ks) = rbind (spread lib a q us) (\<lambda>ks. Inr (q, Inner e a s' ks))"
      using run s'(1) q(1) by (simp add: Let_def)
    show ?thesis
    proof (cases "t_room ?t")
      case False
      then have "spread lib a q us = Inl Out_of_bounds"
        using spread_spec [where lib = lib and q = q, OF below pk] room by auto
      with False go show ?thesis by (simp add: round_right_def)
    next
      case True
      then obtain vs where vs: "spread lib a q us = Inr vs" "list_all plant_ok vs" "list_all2 similar us vs"
        "map tally_of vs = (case map_option att_checksum q of None \<Rightarrow> map tally_of us
          | Some v \<Rightarrow> map (t_overhear v) (map tally_of us))"
        using spread_spec [where lib = lib and q = q, OF below pk] room by (auto split: if_splits)
      note kin = inner_ok [OF ok s'(2) vs(2) similar_list_trans [OF us(3) vs(3)]]
      have "tally_of (Inner e a s' vs) = t_round ?t"
        by (rule inner_tally [OF s'(2) s(4) q(2) [symmetric]]) (simp only: vs(4) us(1))
      then show ?thesis
        using True go vs(1) q(2) pk kin by (simp add: round_right_def del: plant_ok.simps)
    qed
  qed
qed

lemma rounds_Cons:
  assumes "plant_ok k" and "round_right k (air_round lib k)"
    and "\<And>x. air_round lib k = Inr x \<Longrightarrow> rounds_right ks (air_rounds lib ks)"
  shows "rounds_right (k # ks) (air_rounds lib (k # ks))"
proof (cases "t_room (tally_of k)")
  case False
  then show ?thesis using assms(2) by (simp add: round_right_def rounds_right_def)
next
  case k: True
  then obtain q k' where q: "air_round lib k = Inr (q, k')" "map_option att_checksum q = t_says (tally_of k)"
    "\<forall>x. q = Some x \<longrightarrow> attestation_pkt x" "tally_of k' = t_round (tally_of k)" "plant_ok k'" "similar k k'"
    using assms(2) by (auto simp: round_right_def)
  have rest: "rounds_right ks (air_rounds lib ks)" by (rule assms(3) [OF q(1)])
  show ?thesis
  proof (cases "list_all t_room (map tally_of ks)")
    case False
    then show ?thesis using rest q(1) by (simp add: rounds_right_def)
  next
    case True
    then obtain qs ks' where qs: "air_rounds lib ks = Inr (qs, ks')"
      "map (att_checksum \<circ> snd) qs = t_heard (map tally_of ks)"
      "\<forall>(b, x)\<in>set qs. attestation_pkt x \<and> get_id_from_addr b \<in> (\<lambda>k. iotlab_uid (plant_env k)) ` set ks"
      "map tally_of ks' = map t_round (map tally_of ks)" "list_all plant_ok ks'" "list_all2 similar ks ks'"
      using rest by (auto simp: rounds_right_def)
    have "map (att_checksum \<circ> snd) (map (Pair (plant_ip k)) (option_list q)) = option_list (t_says (tally_of k))"
      using q(2) [symmetric] by (cases q) auto
    then have cs: "map (att_checksum \<circ> snd) (map (Pair (plant_ip k)) (option_list q) @ qs) =
        t_heard (map tally_of (k # ks))"
      using qs(2) by (simp add: t_heard_def)
    have all: "\<forall>(b, x)\<in>set (map (Pair (plant_ip k)) (option_list q) @ qs). attestation_pkt x \<and>
        get_id_from_addr b \<in> (\<lambda>k. iotlab_uid (plant_env k)) ` set (k # ks)"
      using q(3) qs(3) plant_ok_address [OF assms(1)] by (cases q) auto
    have run: "air_rounds lib (k # ks) = Inr (map (Pair (plant_ip k)) (option_list q) @ qs, k' # ks')"
      using q(1) qs(1) by simp
    show ?thesis
      using k True run cs all q(4-6) qs(4-6) by (simp add: rounds_right_def del: air_rounds.simps)
  qed
qed

theorem air_round_right:
  "plant_ok p \<Longrightarrow> round_right p (air_round lib p)"
  "\<forall>k\<in>set ks. plant_ok k \<Longrightarrow> rounds_right ks (air_rounds lib ks)"
proof (induction lib p and lib ks rule: air_round_air_rounds.induct)
  case (1 lib e a c)
  then show ?case by (rule leaf_round)
next
  case (2 lib e a s ks)
  then show ?case by (intro inner_air_round) simp_all
next
  case (3 lib)
  then show ?case by (simp add: rounds_right_def t_heard_def)
next
  case (4 lib k ks)
  then show ?case by (intro rounds_Cons) auto
qed

subsection \<open>Sessions\<close>

definition t_step :: "unit \<Rightarrow> u64 option list \<times> tally \<Rightarrow> (u64 option list \<times> tally) res" where
  "t_step u s =
     (if t_room (snd s) then Inr (fst s @ [t_says (snd s)], t_round (snd s)) else Inl Out_of_bounds)"

definition t_session :: "nat \<Rightarrow> tally \<Rightarrow> (u64 option list \<times> tally) res" where
  "t_session n t = run t_step (replicate n ()) ([], t)"

definition tallied :: "response_pkt option list \<times> plant \<Rightarrow> u64 option list \<times> tally" where
  "tallied s = (map (map_option att_checksum) (fst s), tally_of (snd s))"

lemma air_step_tallied:
  assumes "plant_ok (snd s)"
  shows "t_step u (tallied s) = map_sum id tallied (air_step lib u s)"
    and "air_step lib u s = Inr s' \<Longrightarrow> plant_ok (snd s')"
  using air_round_right(1) [OF assms, of lib]
  by (auto simp: round_right_def t_step_def air_step_def tallied_def split: if_splits)

interpretation air: simulation t_step "air_step lib" tallied "\<lambda>u. True" "\<lambda>s. plant_ok (snd s)" for lib
  by unfold_locales (rule air_step_tallied, assumption, rule air_step_tallied)

lemma t_session_simps:
  "t_session 0 t = Inr ([], t)"
  "t_session (Suc n) t =
     (if t_room t then map_sum id (\<lambda>(vs, t'). (t_says t # vs, t')) (t_session n (t_round t))
      else Inl Out_of_bounds)"
proof -
  have pre: "run t_step us (vs @ ws, t) = map_sum id (\<lambda>(ws, t). (vs @ ws, t)) (run t_step us (ws, t))"
    for us vs ws t
    by (induction us arbitrary: ws t) (simp_all add: t_step_def)
  show "t_session 0 t = Inr ([], t)" by (simp add: t_session_def)
  show "t_session (Suc n) t =
     (if t_room t then map_sum id (\<lambda>(vs, t'). (t_says t # vs, t')) (t_session n (t_round t))
      else Inl Out_of_bounds)"
    using pre [of "replicate n ()" "[t_says t]" "[]" "t_round t"] by (simp add: t_session_def t_step_def)
qed

lemma air_session_tallied:
  assumes "plant_ok p"
  shows "map_sum id tallied (air_session lib n p) = t_session n (tally_of p)"
  using air.simulates_run [of "replicate n ()" "([], p)" lib] assms
  by (simp add: air_session_def t_session_def tallied_def list_all_iff)

subsection \<open>A network that has settled\<close>

fun plant_of :: "contiki_lib \<Rightarrow> node \<Rightarrow> plant option"
  and plants_of :: "contiki_lib \<Rightarrow> node list \<Rightarrow> plant list option" where
  "plant_of lib (Node e a ks) =
     (if ks = [] then Some (Leaf e a initial_client)
      else
        (case (relay_boot lib e, plants_of lib ks) of
           (Inr s, Some ps) \<Rightarrow> Some (Inner e a s ps)
         | _ \<Rightarrow> None))"
| "plants_of lib [] = Some []"
| "plants_of lib (k # ks) =
     (case (plant_of lib k, plants_of lib ks) of (Some p, Some ps) \<Rightarrow> Some (p # ps) | _ \<Rightarrow> None)"

fun backoffs_ok :: "node \<Rightarrow> bool" where
  "backoffs_ok (Node e a ks) \<longleftrightarrow> (ks \<noteq> [] \<longrightarrow> backoff_modulus e \<noteq> 0) \<and> (\<forall>k\<in>set ks. backoffs_ok k)"

fun t_fresh :: "node \<Rightarrow> tally" where
  "t_fresh (Node e a ks) = Tally (own_checksum e) [] True (map t_fresh ks)"

definition plants :: "node \<Rightarrow> plant \<Rightarrow> bool" where
  "plants t p \<longleftrightarrow> plant_ok p \<and> tally_of p = t_fresh t \<and> plant_env p = node_env t \<and>
     plant_children p = (\<lambda>k. iotlab_uid (node_env k)) ` set (kids t)"

definition air_network :: "node \<Rightarrow> bool" where
  "air_network t \<longleftrightarrow> wf_node t \<and> distinct (ids t) \<and> backoffs_ok t"

lemma air_network_kid: "air_network (Node e a ks) \<Longrightarrow> k \<in> set ks \<Longrightarrow> air_network k"
  by (auto simp: air_network_def ids_Node dest!: split_list)

lemma own_id: "iotlab_uid (node_env t) \<in> set (ids t)"
  by (cases t) (simp add: ids_Node)

lemma parent_is_no_child:
  assumes "air_network (Node e a ks)" and "k \<in> set ks"
  shows "iotlab_uid e \<notin> (\<lambda>k. iotlab_uid (node_env k)) ` set (kids k)"
proof
  assume "iotlab_uid e \<in> (\<lambda>k. iotlab_uid (node_env k)) ` set (kids k)"
  then obtain j where "j \<in> set (kids k)" "iotlab_uid e = iotlab_uid (node_env j)" by auto
  then have "iotlab_uid e \<in> set (ids k)" using own_id [of j] by (cases k) (auto simp: ids_Node)
  with assms show False by (auto simp: air_network_def ids_Node)
qed

lemma relay_boot_first_child: "relay_boot lib e = Inr s \<Longrightarrow> first_child s"
  by (auto simp: relay_boot_def network_settled_def start_relay_def initial_relay_def join_mcast_group_def
      rbind_Inr_iff Let_def split: if_splits)

lemma booted_received: "booted e ks s \<Longrightarrow> received s = []"
  by (simp add: booted_def received_def)

lemma plant_leaf: "air_network (Node e a []) \<Longrightarrow> plants (Node e a []) (Leaf e a initial_client)"
  by (simp add: air_network_def plants_def)

lemma plants_list:
  assumes "list_all2 plants ks ps"
  shows "map tally_of ps = map t_fresh ks" and "\<forall>p\<in>set ps. plant_ok p"
    and "(\<lambda>p. iotlab_uid (plant_env p)) ` set ps = (\<lambda>k. iotlab_uid (node_env k)) ` set ks"
    and "ps = [] \<longleftrightarrow> ks = []"
    and "\<forall>p\<in>set ps. \<exists>k\<in>set ks. plant_children p = (\<lambda>k. iotlab_uid (node_env k)) ` set (kids k)"
  using assms by (induction ks ps rule: list_all2_induct) (auto simp: plants_def)

lemma plant_inner:
  assumes net: "air_network (Node e a ks)" and ks: "ks \<noteq> []" and lib: "contiki_lib_ok lib"
    and ps: "plants_of lib ks = Some ps" "list_all2 plants ks ps"
  shows "\<exists>p. plant_of lib (Node e a ks) = Some p \<and> plants (Node e a ks) p"
proof -
  note kids = plants_list [OF ps(2)]
  have wf: "wf_node (Node e a ks)" "backoff_modulus e \<noteq> 0" using net ks by (simp_all add: air_network_def)
  obtain s where s: "relay_boot lib e = Inr s" "booted e ks s" using boot_of_node [OF wf(1) ks lib] .
  have rel: "relay_inv s" "set (child_ids (children s)) = (\<lambda>k. iotlab_uid (node_env k)) ` set ks"
    "first_child s" "received s = []"
    using s relay_boot_first_child [OF s(1)] booted_received [OF s(2)] by (simp_all add: booted_def ready_def)
  have "iotlab_uid e \<notin> plant_children p" if "p \<in> set ps" for p
    using kids(5) that parent_is_no_child [OF net] by blast
  then have "plants (Node e a ks) (Inner e a s ps)"
    using wf rel kids ks by (simp add: plants_def)
  then show ?thesis using ps(1) s(1) ks by simp
qed

lemma plant_of_network:
  "air_network t \<Longrightarrow> contiki_lib_ok lib \<Longrightarrow> \<exists>p. plant_of lib t = Some p \<and> plants t p"
  "\<forall>k\<in>set ks. air_network k \<Longrightarrow> contiki_lib_ok lib \<Longrightarrow>
     \<exists>ps. plants_of lib ks = Some ps \<and> list_all2 plants ks ps"
proof (induction lib t and lib ks rule: plant_of_plants_of.induct)
  case (1 lib e a ks)
  show ?case
  proof (cases "ks = []")
    case True
    then show ?thesis using "1.prems"(1) plant_leaf by simp
  next
    case False
    then obtain ps where "plants_of lib ks = Some ps" "list_all2 plants ks ps"
      using "1.IH" "1.prems" air_network_kid by blast
    then show ?thesis using plant_inner [OF "1.prems"(1) False "1.prems"(2)] by blast
  qed
next
  case (2 lib)
  then show ?case by simp
next
  case (3 lib k ks)
  then obtain p ps where "plant_of lib k = Some p" "plants k p" "plants_of lib ks = Some ps" "list_all2 plants ks ps"
    by (metis list.set_intros)
  then show ?case by simp
qed

end
