(* ===== verification/Network_Echo.thy ===== *)
theory Network_Echo
  imports Network_Air
begin

text \<open>
  What attestation rounds report when they are repeated: the first round the
  exclusive-or of all checksums; the second in addition, for every relay below
  another one, the checksum the upper one reported in the first. In a network of
  a relay below a relay the second round is silent, and so are all later ones,
  until the upper relay writes past its array.
\<close>

subsection \<open>The first two rounds\<close>

text \<open>
  The network after a round in which every relay spoke: relays hold what their
  parent said, \<open>up\<close>.
\<close>

fun t_second :: "u64 list \<Rightarrow> node \<Rightarrow> tally" where
  "t_second up (Node e a ks) = Tally (own_checksum e) (if ks = [] then [] else up) True
     (map (t_second [node_checksum (Node e a ks)]) ks)"

fun speaks :: "node \<Rightarrow> bool" where
  "speaks (Node e a ks) \<longleftrightarrow> (ks \<noteq> [] \<longrightarrow> node_checksum (Node e a ks) \<noteq> 0) \<and> length ks \<le> MAX_CHILD \<and>
     (\<forall>k\<in>set ks. speaks k)"

lemma t_heard_Some:
  "\<forall>k\<in>set ks. t_says (f k) = Some (g k) \<Longrightarrow> t_heard (map f ks) = map g ks"
  by (induction ks) (simp_all add: t_heard_def)

lemma node_checksum_leaf [simp]: "node_checksum (Node e a []) = own_checksum e"
  by (simp add: node_checksum_def)

lemma first_says: "speaks t \<Longrightarrow> t_says (t_fresh t) = Some (node_checksum t)"
proof (induction t)
  case (Node e a ks)
  show ?case
  proof (cases "ks = []")
    case True
    then show ?thesis by (simp add: t_says.simps)
  next
    case False
    have "t_heard (map t_fresh ks) = map node_checksum ks"
      using Node by (intro t_heard_Some) simp
    then show ?thesis using False Node.prems by (simp add: t_says_Tally node_checksum_Node)
  qed
qed

lemma t_overhear_second: "t_overhear v (t_second [] t) = t_second [v] t"
  by (cases t) simp

lemma first_round: "speaks t \<Longrightarrow> t_round (t_fresh t) = t_second [] t"
proof (induction t)
  case (Node e a ks)
  show ?case
  proof (cases "ks = []")
    case True
    then show ?thesis by (simp add: t_round.simps)
  next
    case False
    have "map (\<lambda>k. t_overhear v (t_round (t_fresh k))) ks = map (t_second [v]) ks" for v
      using Node by (intro map_cong refl) (simp add: t_overhear_second)
    then show ?thesis
      using False first_says [OF Node.prems] by (simp add: t_round_Tally comp_def)
  qed
qed

lemma not_full_second: "\<not> t_full (t_second [] t)"
  by (cases t) (simp add: size_defs)

lemma first_room: "speaks t \<Longrightarrow> t_room (t_fresh t)"
proof (induction t)
  case (Node e a ks)
  show ?case
  proof (cases "ks = []")
    case False
    have "t_heard (map t_fresh ks) = map node_checksum ks"
      using Node.prems by (intro t_heard_Some) (simp add: first_says)
    moreover have "\<not> t_full (t_round (t_fresh k))" if "k \<in> set ks" for k
      using that Node.prems by (simp add: first_round not_full_second)
    ultimately show ?thesis
      using False Node by (simp add: t_room_Tally list_all_iff)
  qed (simp add: t_room.simps)
qed

text \<open>What is said twice: to every relay below another one, by its parent.\<close>

fun echoes :: "node \<Rightarrow> u64 list" where
  "echoes (Node e a ks) =
     concat (map (\<lambda>k. (if kids k = [] then [] else [node_checksum (Node e a ks)]) @ echoes k) ks)"

definition echo_value :: "u64 list \<Rightarrow> node \<Rightarrow> u64" where
  "echo_value up t = (if kids t = [] then 0 else xor_list up) XOR xor_list (echoes t) XOR node_checksum t"

fun echo_speaks :: "u64 list \<Rightarrow> node \<Rightarrow> bool" where
  "echo_speaks up (Node e a ks) \<longleftrightarrow> (ks \<noteq> [] \<longrightarrow> echo_value up (Node e a ks) \<noteq> 0) \<and>
     length up + length ks \<le> MAX_CHILD \<and> (\<forall>k\<in>set ks. echo_speaks [node_checksum (Node e a ks)] k)"

lemma echo_value_kids:
  "xor_list (map (echo_value [v]) ks) =
     xor_list (concat (map (\<lambda>k. (if kids k = [] then [] else [v]) @ echoes k) ks)) XOR
     xor_list (map node_checksum ks)"
  by (induction ks) (simp_all add: echo_value_def ac_simps)

lemma second_says: "echo_speaks up t \<Longrightarrow> t_says (t_second up t) = Some (echo_value up t)"
proof (induction t arbitrary: up)
  case (Node e a ks)
  show ?case
  proof (cases "ks = []")
    case True
    then show ?thesis by (simp add: t_says.simps echo_value_def)
  next
    case False
    let ?v = "node_checksum (Node e a ks)"
    have heard: "t_heard (map (t_second [?v]) ks) = map (echo_value [?v]) ks"
      using Node by (intro t_heard_Some) simp
    have "xor_list (up @ map (echo_value [?v]) ks) XOR own_checksum e =
        xor_list up XOR xor_list (echoes (Node e a ks)) XOR (xor_list (map node_checksum ks) XOR own_checksum e)"
      by (simp add: echo_value_kids ac_simps)
    also have "xor_list (map node_checksum ks) XOR own_checksum e = ?v"
      by (simp add: node_checksum_Node)
    finally have "xor_list (up @ map (echo_value [?v]) ks) XOR own_checksum e = echo_value up (Node e a ks)"
      using False by (simp only: echo_value_def [of up "Node e a ks"] node.sel if_False)
    then show ?thesis using False Node.prems heard by (simp add: t_says_Tally)
  qed
qed

lemma second_room:
  "echo_speaks up t \<Longrightarrow> t_room (t_second up t) \<and> \<not> t_full (t_round (t_second up t))"
proof (induction t arbitrary: up)
  case (Node e a ks)
  show ?case
  proof (cases "ks = []")
    case True
    then show ?thesis by (simp add: t_room.simps t_round.simps)
  next
    case False
    let ?v = "node_checksum (Node e a ks)"
    have heard: "t_heard (map (t_second [?v]) ks) = map (echo_value [?v]) ks"
      using Node.prems by (intro t_heard_Some) (simp add: second_says)
    have "list_all t_room (map (t_second [?v]) ks)"
      and "\<forall>k\<in>set (map (t_second [?v]) ks). \<not> t_full (t_round k)"
      using Node by (auto simp: list_all_iff)
    then show ?thesis
      using False Node.prems heard second_says [OF Node.prems]
      by (simp add: t_room_Tally t_round_Tally size_defs)
  qed
qed

subsection \<open>A relay with one relay below it\<close>

lemma own_checksum_nonzero: "own_checksum e \<noteq> 0"
proof -
  have "\<not> bit (iotlab_uid e) 28" by (auto dest: bit_imp_le_length)
  then have "bit (own_checksum e) 28"
    by (simp add: own_checksum_def bit_xor_iff bit_ucast_iff)
  then show ?thesis by auto
qed

definition leaf_tallies :: "node list \<Rightarrow> tally list" where
  "leaf_tallies ls = map (\<lambda>k. Tally (node_checksum k) [] True []) ls"

lemma fresh_leaves: "\<forall>k\<in>set ls. kids k = [] \<Longrightarrow> map t_fresh ls = leaf_tallies ls"
proof (induction ls)
  case (Cons k ls)
  then show ?case by (cases k) (simp add: leaf_tallies_def)
qed (simp add: leaf_tallies_def)

lemma leaf_tallies_simps [simp]:
  "t_heard (leaf_tallies ls) = map node_checksum ls"
  "map t_round (leaf_tallies ls) = leaf_tallies ls"
  "map (t_overhear v) (leaf_tallies ls) = leaf_tallies ls"
  "list_all t_room (leaf_tallies ls)" "\<forall>k\<in>set (leaf_tallies ls). \<not> t_full (t_round k)"
  "leaf_tallies ls = [] \<longleftrightarrow> ls = []"
  by (induction ls) (simp_all add: leaf_tallies_def t_heard_def t_says.simps t_round.simps t_room.simps)

lemma low_relay:
  assumes "ls \<noteq> []" and "xor_list ps XOR (xor_list (map node_checksum ls) XOR c) \<noteq> 0"
  shows "t_says (Tally c ps True (leaf_tallies ls)) =
      Some (xor_list ps XOR (xor_list (map node_checksum ls) XOR c))"
    and "t_round (Tally c ps True (leaf_tallies ls)) = Tally c [] True (leaf_tallies ls)"
    and "t_room (Tally c ps True (leaf_tallies ls)) \<longleftrightarrow> length ps + length ls \<le> MAX_CHILD"
proof -
  show says: "t_says (Tally c ps True (leaf_tallies ls)) =
      Some (xor_list ps XOR (xor_list (map node_checksum ls) XOR c))"
    using assms by (simp add: t_says_Tally xor.assoc)
  show "t_round (Tally c ps True (leaf_tallies ls)) = Tally c [] True (leaf_tallies ls)"
    using assms(1) says by (simp add: t_round_Tally)
  show "t_room (Tally c ps True (leaf_tallies ls)) \<longleftrightarrow> length ps + length ls \<le> MAX_CHILD"
    using assms(1) by (simp add: t_room_Tally)
qed

definition chain :: "u64 \<Rightarrow> u64 list \<Rightarrow> bool \<Rightarrow> u64 \<Rightarrow> u64 list \<Rightarrow> node list \<Rightarrow> tally" where
  "chain c ps l d us ls = Tally c ps l [Tally d us True (leaf_tallies ls)]"

definition chain_ok :: "u64 \<Rightarrow> u64 \<Rightarrow> u64 \<Rightarrow> node list \<Rightarrow> bool" where
  "chain_ok c d w ls \<longleftrightarrow> ls \<noteq> [] \<and> length ls < MAX_CHILD \<and> w = xor_list (map node_checksum ls) XOR d \<and>
     c \<noteq> 0 \<and> w \<noteq> 0 \<and> w XOR c \<noteq> 0"

lemma chain_okD:
  assumes "chain_ok c d w ls"
  shows "ls \<noteq> []" "length ls < MAX_CHILD" "w = xor_list (map node_checksum ls) XOR d"
    and "c \<noteq> 0" "w \<noteq> 0" "w XOR c \<noteq> 0"
  using assms unfolding chain_ok_def by blast+

lemma chain_first:
  assumes ok: "chain_ok c d w ls"
  shows "t_says (chain c [] True d [] ls) = Some (w XOR c)"
  "t_round (chain c [] True d [] ls) = chain c [] True d [w XOR c] ls"
  "t_room (chain c [] True d [] ls)"
proof -
  note ls = chain_okD(1,2) [OF ok] and w = chain_okD(3) [OF ok] and nonzero = chain_okD(4-6) [OF ok]
  note low = low_relay [of ls "[]" d, folded w, simplified, OF ls(1) nonzero(2)]
  have heard: "t_heard [Tally d [] True (leaf_tallies ls)] = [w]" using low(1) by (simp add: t_heard_def)
  show says: "t_says (chain c [] True d [] ls) = Some (w XOR c)"
    using heard nonzero by (simp add: chain_def t_says_Tally)
  show "t_round (chain c [] True d [] ls) = chain c [] True d [w XOR c] ls"
    using says ls(1) low by (simp add: chain_def t_round_Tally)
  show "t_room (chain c [] True d [] ls)"
    using heard ls low by (simp add: chain_def t_room_Tally size_defs)
qed

lemma chain_second:
  assumes ok: "chain_ok c d w ls"
  shows "t_says (chain c [] True d [w XOR c] ls) = None"
  "t_round (chain c [] True d [w XOR c] ls) = chain c [c] False d [] ls"
  "t_room (chain c [] True d [w XOR c] ls)"
proof -
  note ls = chain_okD(1,2) [OF ok] and w = chain_okD(3) [OF ok] and nonzero = chain_okD(4-6) [OF ok]
  have cancel: "(w XOR c) XOR w = c" by (simp add: ac_simps)
  note low = low_relay [of ls "[w XOR c]" d, folded w, simplified, unfolded cancel, OF ls(1) nonzero(1)]
  have heard: "t_heard [Tally d [w XOR c] True (leaf_tallies ls)] = [c]" using low(1) by (simp add: t_heard_def)
  show says: "t_says (chain c [] True d [w XOR c] ls) = None"
    using heard by (simp add: chain_def t_says_Tally)
  show "t_round (chain c [] True d [w XOR c] ls) = chain c [c] False d [] ls"
    using says heard low by (simp add: chain_def t_round_Tally)
  show "t_room (chain c [] True d [w XOR c] ls)"
    using heard says ls low by (simp add: chain_def t_room_Tally size_defs)
qed

lemma chain_later:
  assumes ok: "chain_ok c d w ls"
  shows "t_says (chain c ps False d [] ls) = None"
  "t_round (chain c ps False d [] ls) = chain c (ps @ [w]) False d [] ls"
  "t_room (chain c ps False d [] ls) \<longleftrightarrow> length ps < MAX_CHILD"
proof -
  note ls = chain_okD(1,2) [OF ok] and w = chain_okD(3) [OF ok] and nonzero = chain_okD(4-6) [OF ok]
  note low = low_relay [of ls "[]" d, folded w, simplified, OF ls(1) nonzero(2)]
  have heard: "t_heard [Tally d [] True (leaf_tallies ls)] = [w]" using low(1) by (simp add: t_heard_def)
  show says: "t_says (chain c ps False d [] ls) = None"
    by (simp add: chain_def t_says_Tally)
  show "t_round (chain c ps False d [] ls) = chain c (ps @ [w]) False d [] ls"
    using says heard low by (simp add: chain_def t_round_Tally)
  show "t_room (chain c ps False d [] ls) \<longleftrightarrow> length ps < MAX_CHILD"
    using heard says ls low by (auto simp: chain_def t_room_Tally)
qed

lemma chain_silent:
  assumes ok: "chain_ok c d w ls"
  shows "length ps \<le> MAX_CHILD \<Longrightarrow> map_sum id fst (t_session n (chain c ps False d [] ls)) =
     (if length ps + n \<le> MAX_CHILD then Inr (replicate n None) else Inl Out_of_bounds)"
proof (induction n arbitrary: ps)
  case 0
  then show ?case by (simp add: t_session_simps)
next
  case (Suc n)
  show ?case
  proof (cases "length ps < MAX_CHILD")
    case True
    with Suc.IH [of "ps @ [w]"] show ?thesis
      by (cases "t_session n (chain c (ps @ [w]) False d [] ls)")
        (auto simp: t_session_simps chain_later [OF ok] split: if_splits)
  next
    case False
    with Suc.prems show ?thesis by (simp add: t_session_simps chain_later [OF ok])
  qed
qed

lemma chain_session:
  assumes ok: "chain_ok c d w ls"
  shows "map_sum id fst (t_session (Suc (Suc n)) (chain c [] True d [] ls)) =
     (if Suc n \<le> MAX_CHILD then Inr (Some (w XOR c) # replicate (Suc n) None) else Inl Out_of_bounds)"
  using chain_silent [OF ok, of "[c]" n]
  by (cases "t_session n (chain c [c] False d [] ls)")
    (auto simp: t_session_simps chain_first [OF ok] chain_second [OF ok] size_defs split: if_splits)

subsection \<open>Properties\<close>

lemma session_of_network:
  assumes "air_network t" and "contiki_lib_ok lib"
  shows "\<exists>p. plant_of lib t = Some p \<and>
    (\<forall>n. map_sum id tallied (air_session lib n p) = t_session n (t_fresh t))"
proof -
  obtain p where p: "plant_of lib t = Some p" "plants t p"
    using plant_of_network(1) [OF assms] by blast
  then have "plant_ok p" "tally_of p = t_fresh t" by (simp_all add: plants_def)
  with p(1) show ?thesis using air_session_tallied [of p lib] by simp
qed

text \<open>
  C5: Attestation rounds of a network of any size and shape, in which every
  broadcast reaches the parent and the children of its sender, for as many rounds
  as one likes: what the top broadcasts in each, what every relay keeps and
  whether an array overflows is exactly what the tallies say.
\<close>

theorem attestation_session_tallied:
  assumes "air_network t" and "contiki_lib_ok lib"
  shows "\<exists>p. plant_of lib t = Some p \<and>
    map_sum id tallied (air_session lib n p) = t_session n (t_fresh t)"
  using session_of_network [OF assms] by blast

lemma two_rounds:
  assumes "speaks t" and "echo_speaks [] t"
  shows "\<exists>t'. t_session 2 (t_fresh t) = Inr ([Some (node_checksum t), Some (echo_value [] t)], t')"
  using assms
  by (simp add: numeral_2_eq_2 t_session_simps first_room first_says first_round second_says second_room)


text \<open>
  C6: In a network of two relays, one below the other, with one to nine leaves,
  attestation works once. In the second round the upper relay hears its own
  checksum, echoed by the lower one, and combines to zero; the code takes that for
  an error and leaves its variables as they are, so that it never starts its timer
  again. It is silent for ten rounds, and in the next it writes past its array.
\<close>

theorem attestation_chain_falls_silent:
  assumes "t = Node e a [Node f b ls]" and "air_network t" and "contiki_lib_ok lib"
    and "ls \<noteq> []" and "length ls < MAX_CHILD" and "\<forall>k\<in>set ls. kids k = []" and "speaks t"
  shows "\<exists>p. plant_of lib t = Some p \<and> (\<forall>n. map_sum id (map (map_option att_checksum) \<circ> fst) (air_session lib (Suc (Suc n)) p) =
    (if Suc n \<le> MAX_CHILD
     then Inr (Some (xor_list (map own_checksum (nodes t))) # replicate (Suc n) None)
     else Inl Out_of_bounds))"
proof -
  let ?w = "node_checksum (Node f b ls)"
  have w: "?w = xor_list (map node_checksum ls) XOR own_checksum f" by (rule node_checksum_Node)
  have t: "node_checksum t = ?w XOR own_checksum e" using assms(1) by (simp add: node_checksum_Node [of e])
  have "?w \<noteq> 0" "?w XOR own_checksum e \<noteq> 0" using assms(1,4,7) t by simp_all
  then have ok: "chain_ok (own_checksum e) (own_checksum f) ?w ls"
    using w assms(4,5) own_checksum_nonzero by (simp add: chain_ok_def)
  have fresh: "t_fresh t = chain (own_checksum e) [] True (own_checksum f) [] ls"
    using assms(1,6) by (simp add: chain_def fresh_leaves)
  obtain p where p: "plant_of lib t = Some p"
    "\<forall>n. map_sum id tallied (air_session lib n p) = t_session n (t_fresh t)"
    using session_of_network [OF assms(2,3)] by blast
  have fst: "map_sum id (map (map_option att_checksum) \<circ> fst) r = map_sum id fst (map_sum id tallied r)"
    for r :: "(response_pkt option list \<times> plant) res"
    by (cases r) (simp_all add: tallied_def)
  show ?thesis
    using p chain_session [OF ok] t by (auto simp: fst fresh node_checksum_def)
qed

subsection \<open>A leaf, two relays\<close>

definition sample_low :: "node list \<Rightarrow> node" where
  "sample_low ls = Node (sample_env 3 512 (\<lparr>p_rank = 256, p_addr = sample_ip 9\<rparr> #
     map (\<lambda>k. \<lparr>p_rank = 768, p_addr = node_ip k\<rparr>) ls)) (sample_ip 3) ls"

definition sample_chain :: node where
  "sample_chain = Node (sample_env 9 256 [\<lparr>p_rank = 128, p_addr = sample_ip 20\<rparr>,
       \<lparr>p_rank = 512, p_addr = sample_ip 3\<rparr>]) (sample_ip 9) [sample_low [sample_leaf 1]]"

lemma sample_chain_ok: "air_network sample_chain" "speaks sample_chain"
  by (simp_all add: air_network_def sample_chain_def sample_low_def sample_leaf_def child_nbrs_def ids_def
      size_defs backoff_modulus_def node_checksum_def own_checksum_def)

lemma attestation_session_tallied_witness:
  "\<exists>p. plant_of sample_lib sample_chain = Some p \<and>
     map_sum id tallied (air_session sample_lib 5 p) = t_session 5 (t_fresh sample_chain)"
  by (rule attestation_session_tallied [OF sample_chain_ok(1) sample_lib_ok])

lemma attestation_chain_falls_silent_witness:
  "\<exists>p. plant_of sample_lib sample_chain = Some p \<and>
     map_sum id (map (map_option att_checksum) \<circ> fst) (air_session sample_lib (Suc (Suc 1)) p) =
       Inr [Some (xor_list (map own_checksum (nodes sample_chain))), None, None] \<and>
     map_sum id (map (map_option att_checksum) \<circ> fst) (air_session sample_lib (Suc (Suc 10)) p) =
       Inl Out_of_bounds"
proof -
  have "kids (sample_leaf 1) = []" by (simp add: sample_leaf_def)
  with attestation_chain_falls_silent [OF _ sample_chain_ok(1) sample_lib_ok _ _ _ sample_chain_ok(2)]
  show ?thesis
    by (fastforce simp: sample_chain_def sample_low_def size_defs eval_nat_numeral)
qed

text \<open>Three relays: the second round reports the network without its top.\<close>

definition sample_deep :: node where
  "sample_deep = Node (sample_env 20 128 [\<lparr>p_rank = 64, p_addr = sample_ip 21\<rparr>,
       \<lparr>p_rank = 256, p_addr = sample_ip 9\<rparr>]) (sample_ip 20) [sample_chain]"

lemma sample_deep_ok: "air_network sample_deep" "speaks sample_deep" "echo_speaks [] sample_deep"
  by (simp_all add: air_network_def sample_deep_def sample_chain_def sample_low_def sample_leaf_def
      child_nbrs_def ids_def size_defs backoff_modulus_def node_checksum_def own_checksum_def echo_value_def)


end
