(* ===== verification/Relay_Types.thy ===== *)
theory Relay_Types
  imports Relay_Safety
begin

text \<open>
  What a relay puts on the air: packets of the types of \<open>utility-functions.h\<close>,
  although the program writes them over uninitialised memory and copies them from
  a static variable that a timer reads later.
\<close>

subsection \<open>Typed datagrams\<close>

text \<open>
  A topology response has a path of one to nine ids; only such and attestation
  responses go to parents, only attestation responses are broadcast.
\<close>

definition topology_typed :: "response_pkt \<Rightarrow> bool" where
  "topology_typed r \<longleftrightarrow> wf_response r \<and> pkt_type r = TOPOLOGY \<and>
     1 \<le> unat (topo_pathindex r) \<and> unat (topo_pathindex r) < MAX_PATH_NODES"

definition attestation_typed :: "response_pkt \<Rightarrow> bool" where
  "attestation_typed r \<longleftrightarrow> wf_response r \<and> pkt_type r = ATTESTATION"

definition typed_effect :: "effect \<Rightarrow> bool" where
  "typed_effect f \<longleftrightarrow> (case f of
      Unicast_sendto a bs \<Rightarrow> \<exists>r. topology_typed r \<and> bs = response_bytes r
    | Broadcast_sendto bs \<Rightarrow> \<exists>r. attestation_typed r \<and> bs = response_bytes r
    | Sink_sendto bs \<Rightarrow> \<exists>r. bs = sec_rnd_bytes r
    | Mcast_sendto bs \<Rightarrow> False
    | _ \<Rightarrow> True)"

definition broadcast_set :: "effect list \<Rightarrow> bool" where
  "broadcast_set os \<longleftrightarrow> (\<exists>t n. Ctimer_set t n Call_broadcast_to_parents \<in> set os)"

text \<open>A timer is set for the broadcast only once the packet for it is there.\<close>

definition typed :: "relay \<Rightarrow> bool" where
  "typed s \<longleftrightarrow> (\<forall>f\<in>set (outs s). typed_effect f) \<and>
     (broadcast_set (outs s) \<longrightarrow> pkt_type (ctimer_resp s) = ATTESTATION)"

lemma typed_effect_simps [simp]:
  "typed_effect Udp_new" "typed_effect (Udp_bind p)" "typed_effect (Mcast_join g)"
  "typed_effect (Register p)" "typed_effect (Ctimer_set t n cb)" "typed_effect (Ctimer_reset t)"
  "typed_effect (Sink_sendto (sec_rnd_bytes q))"
  "topology_typed r \<Longrightarrow> typed_effect (Unicast_sendto a (response_bytes r))"
  "attestation_typed r \<Longrightarrow> typed_effect (Broadcast_sendto (response_bytes r))"
  by (auto simp: typed_effect_def)

lemma broadcast_set_simps [simp]:
  "\<not> broadcast_set []"
  "broadcast_set (f # fs) \<longleftrightarrow> (\<exists>t n. f = Ctimer_set t n Call_broadcast_to_parents) \<or> broadcast_set fs"
  "broadcast_set (xs @ ys) \<longleftrightarrow> broadcast_set xs \<or> broadcast_set ys"
  by (auto simp: broadcast_set_def)

lemma timer_callback_set: "timer_callback t os = Some cb \<Longrightarrow> \<exists>n. Ctimer_set t n cb \<in> set os"
  by (induction os) (auto split: option.splits effect.splits if_splits)

lemma topology_packet_typed:
  "topology_packet ck path lr r \<Longrightarrow> path \<noteq> [] \<Longrightarrow> length path < MAX_PATH_NODES \<Longrightarrow> topology_typed r"
  by (cases path) (auto simp: topology_packet_def topology_typed_def)

lemma parent_sends_typed:
  "topology_typed r \<Longrightarrow> f \<in> set (parent_sends e c r) \<Longrightarrow> typed_effect f"
  by (auto simp: parent_sends_def)

lemma broadcast_set_parents [simp]: "\<not> broadcast_set (parent_sends e c r)"
  by (auto simp: broadcast_set_def parent_sends_def)

text \<open>Only the effects and the waiting packet matter.\<close>

lemma typed_cong: "outs u = outs s \<Longrightarrow> ctimer_resp u = ctimer_resp s \<Longrightarrow> typed u = typed s"
  by (simp add: typed_def)

lemma typed_emit:
  "typed s \<Longrightarrow> typed_effect f \<Longrightarrow> (\<forall>t n. f \<noteq> Ctimer_set t n Call_broadcast_to_parents) \<Longrightarrow> typed (emit f s)"
  by (auto simp: typed_def)

lemma typed_send:
  assumes "typed s" and "topology_typed r" and "outs u = send_to_parents e r c (outs s)"
    and "ctimer_resp u = ctimer_resp s"
  shows "typed u"
  using assms parent_sends_typed by (auto simp: typed_def send_to_parents_eq)

subsection \<open>The operations\<close>

lemma send_topology_resp_typed:
  assumes "relay_arrays s" and "paths_loc s < MAX_PATH_NODES - 1" and "wf_env e" and "typed s"
    and "send_topology_resp e s = Inr s'"
  shows "typed s'"
proof -
  obtain r where r: "send_topology_resp e s = Inr (reset_variable (s\<lparr>my_checksum := own_checksum e,
       outs := send_to_parents e r 0 (outs s)\<rparr>))"
    and "topology_packet (xor_list (received s) XOR own_checksum e)
           (collected s @ [iotlab_uid e]) (max_leaf_rank s) r"
    using send_topology_resp_spec [OF assms(1-3)] .
  then have "topology_typed r"
    using assms(1,2) by (intro topology_packet_typed) (auto simp: collected_def relay_arrays_def)
  then show ?thesis using typed_send [OF assms(4)] r assms(5) by simp
qed

lemma typed_paths: "typed s \<Longrightarrow> typed (s\<lparr>paths := ps\<rparr>)"
  using typed_cong [of "s\<lparr>paths := ps\<rparr>" s] by simp

lemma flush_typed:
  assumes "typed s" and "t = s\<lparr>paths_loc := n\<rparr>" and "relay_arrays t"
    and "paths_loc t < MAX_PATH_NODES - 1" and "wf_env e" and "send_topology_resp e t = Inr u"
  shows "typed (reset_variable u)"
  using send_topology_resp_typed [OF assms(3-5) _ assms(6)] assms(1,2)
    typed_cong [of t s] typed_cong [of "reset_variable u" u] by simp

lemma merge_paths_typed:
  assumes "relay_inv s" and "i < MAX_PATH_NODES - 2" and "wf_env e" and "typed s"
    and "merge_paths e resp js i s = Inr (i', s')"
  shows "typed s' \<and> relay_inv s' \<and> i' < MAX_PATH_NODES - 2"
  using merge_paths_keeps [where P = typed and js = js and resp = resp, OF assms(1-4) typed_paths
      flush_typed [OF _ _ _ _ assms(3)]] assms(5)
  by simp

lemma process_topology_req_typed:
  assumes "relay_inv s" and "wf_env e" and "typed s" and "process_topology_req e resp child s = Inr s'"
  shows "typed s'"
proof (cases "is_child (children s) child")
  case False
  then show ?thesis using assms(3,4) by (simp add: process_topology_req_def)
next
  case True
  let ?t = "(emit (Ctimer_reset Periodic_timer) s)
       \<lparr>children := snd (child_set_pkt_received (children s) child)\<rparr>"
  let ?s = "?t\<lparr>checksum_children := (checksum_children s)[cur_loc s := topo_checksum resp],
       cur_loc := Suc (cur_loc s)\<rparr>"
  have len: "length (checksum_children s) = MAX_CHILD" and loc: "paths_loc s < MAX_PATH_NODES - 2"
    using assms(1) by (simp_all add: relay_inv_def relay_arrays_def)
  have room: "cur_loc s < MAX_CHILD"
    using assms(4) True len by (auto simp: process_topology_req_def Let_def rbind_Inr_iff arr_set_def split: if_splits)
  have inv: "relay_inv ?s" using assms(1) len room by simp
  have ty: "typed ?s"
    using typed_emit [OF assms(3), of "Ctimer_reset Periodic_timer"]
      typed_cong [of ?s "emit (Ctimer_reset Periodic_timer) s"] by simp
  obtain i v where m: "merge_paths e resp [0..<unat (topo_pathindex resp)] (paths_loc s) ?s = Inr (i, v)"
    using assms(4) True len room by (auto simp: process_topology_req_def Let_def rbind_Inr_iff)
  from merge_paths_typed [OF inv loc assms(2) ty m] have v: "typed v" "relay_inv v" "i < MAX_PATH_NODES - 2"
    by simp_all
  define u where "u = v\<lparr>paths_loc := i,
      max_leaf_rank := (if max_leaf_rank v < topo_max_leaf_rank resp
        then topo_max_leaf_rank resp else max_leaf_rank v)\<rparr>"
  have step: "process_topology_req e resp child s =
      (if cur_loc u = unat (get_child_count (children u)) then send_topology_resp e u
       else Inr (emit (Ctimer_set Periodic_timer
              (unat (get_topology_timeout e) * clock_second e) Call_send_topology_resp) u))"
    using True len room m by (simp add: process_topology_req_def Let_def u_def)
  have u: "relay_arrays u" "paths_loc u < MAX_PATH_NODES - 1"
    using v(2,3) by (simp_all add: u_def relay_inv_def)
  have "typed u" using v(1) typed_cong [of u v] by (simp add: u_def)
  then show ?thesis
    using step assms(4) send_topology_resp_typed [OF u assms(2)] typed_emit by (auto split: if_splits)
qed

lemma send_attestation_resp_typed:
  assumes "relay_inv s" and "wf_env e" and "typed s" and "send_attestation_resp shipped_build e s = Inr s'"
  shows "typed s'"
proof -
  have "relay_arrays s" using assms(1) by (simp add: relay_inv_def)
  then show ?thesis
    using assms(2-4)
    by (auto simp: send_attestation_resp_def get_combined_checksum_eq Let_def typed_def split: if_splits)
qed

lemma process_attestation_req_typed:
  assumes "typed s" and "process_attestation_req shipped_build e resp child s = Inr s'"
  shows "typed s'"
  using assms by (auto simp: process_attestation_req_def Let_def rbind_Inr_iff typed_def split: if_splits)

lemma broadcast_to_parents_typed:
  "typed s \<Longrightarrow> attestation_typed (ctimer_resp s) \<Longrightarrow> typed (broadcast_to_parents s)"
  by (simp add: broadcast_to_parents_def typed_emit)

lemma create_response_attestation:
  "req_pkt_type q = ATTESTATION \<Longrightarrow> wf_response r \<Longrightarrow> attestation_typed (snd (create_response e q r))"
  by (simp add: attestation_typed_def create_response_def attest_memory_own)

lemma mcast_tcpip_handler_typed:
  assumes "typed s"
  shows "typed (mcast_tcpip_handler shipped_build e newdata data s)"
proof -
  let ?q = "request_of_bytes data"
  let ?r = "snd (create_response e ?q zero_response)"
  consider "req_pkt_type ?q = TOPOLOGY" | "req_pkt_type ?q = ATTESTATION"
    | "req_pkt_type ?q \<noteq> TOPOLOGY" "req_pkt_type ?q \<noteq> ATTESTATION" by blast
  then show ?thesis
  proof cases
    case 1
    then have "topology_typed ?r"
      using topology_packet_typed [OF create_response_topology [OF 1 wf_zero_response]]
      by (simp add: size_defs)
    then show ?thesis
      using 1 assms typed_send [OF assms] by (simp add: mcast_tcpip_handler_def Let_def case_prod_unfold)
  next
    case 2
    then have r: "attestation_typed ?r" by (intro create_response_attestation) simp_all
    then have "typed (s\<lparr>ctimer_resp := ?r\<rparr>)" using assms by (simp add: typed_def attestation_typed_def)
    then show ?thesis
      using 2 r assms broadcast_to_parents_typed
      by (simp add: mcast_tcpip_handler_def Let_def case_prod_unfold)
  next
    case 3
    then show ?thesis using assms by (simp add: mcast_tcpip_handler_def Let_def case_prod_unfold)
  qed
qed

lemma udp_secreq_callback_typed: "typed s \<Longrightarrow> typed (udp_secreq_callback data s)"
  by (simp add: udp_secreq_callback_def unicast_send_to_sink_def typed_emit)

subsection \<open>Reachable states\<close>

lemma network_settled_typed:
  assumes "typed s" and "network_settled lib e s = Inr s'"
  shows "typed s'"
proof -
  obtain t where t: "init_child_list lib e (children s) = Inr t"
    using assms(2) by (cases "init_child_list lib e (children s)") (simp_all add: network_settled_def)
  have "typed (s\<lparr>children := t\<rparr>)" using assms(1) typed_cong [of "s\<lparr>children := t\<rparr>" s] by simp
  then show ?thesis
    using t assms(2)
    by (auto simp: network_settled_def join_mcast_group_def Let_def intro!: typed_emit split: if_splits)
qed

lemma run_callback_typed:
  assumes "relay_inv s" and "wf_env e" and "typed s" and "enabled (Timer_expired cb) s"
    and "run_callback shipped_build lib e cb s = Inr s'"
  shows "typed s'"
proof (cases cb)
  case Call_broadcast_to_parents
  then have "broadcast_set (outs s)"
    using assms(4) timer_callback_set by (fastforce simp: enabled_def broadcast_set_def)
  then have "attestation_typed (ctimer_resp s)"
    using assms(1,3) by (simp add: typed_def attestation_typed_def relay_inv_def relay_arrays_def)
  then show ?thesis using assms(3,5) Call_broadcast_to_parents broadcast_to_parents_typed by auto
next
  case Call_send_topology_resp
  have "relay_arrays s" "paths_loc s < MAX_PATH_NODES - 1" using assms(1) by (auto simp: relay_inv_def)
  then show ?thesis using assms Call_send_topology_resp send_topology_resp_typed by simp
next
  case Call_send_attestation_resp
  then show ?thesis using assms(5) send_attestation_resp_typed [OF assms(1-3)] by simp
next
  case Call_network_settled
  then show ?thesis using assms(5) network_settled_typed [OF assms(3)] by simp
qed

lemma relay_step_typed:
  assumes "relay_inv s" and "wf_env e" and "typed s" and "enabled ev s"
    and "relay_step shipped_build lib e ev s = Inr s'"
  shows "typed s'"
proof (cases ev)
  case (Checksum_rx sender data)
  then show ?thesis
    using assms(3,5) process_topology_req_typed [OF assms(1-3)] process_attestation_req_typed [OF assms(3)]
    by (auto simp: checksum_receiver_def Let_def split: if_splits)
next
  case (Tcpip_event newdata src data)
  let ?s = "s\<lparr>send_pkt_count := send_pkt_count s + 1\<rparr>"
  have "typed ?s" "relay_inv ?s" using assms(1,3) typed_cong [of ?s s] by simp_all
  then show ?thesis
    using Tcpip_event assms(2,3,5) process_topology_req_typed [of ?s] process_attestation_req_typed [of ?s]
      mcast_tcpip_handler_typed
    by (auto simp: tcpip_handler_def Let_def split: if_splits)
next
  case (Secreq_rx data)
  then show ?thesis using assms(3,5) udp_secreq_callback_typed by auto
next
  case (Timer_expired cb)
  then show ?thesis using assms run_callback_typed by simp
qed

lemma start_relay_typed: "typed (start_relay shipped_build e initial_relay)"
  by (simp add: start_relay_def Let_def typed_def initial_relay_def)

interpretation relay_typed: machine_invariant "relay_starts shipped_build" relay_possible
    "relay_machine shipped_build lib" "\<lambda>s. contiki_lib_ok lib \<longrightarrow> relay_inv s \<and> typed s" for lib
proof unfold_locales
  show "contiki_lib_ok lib \<longrightarrow> relay_inv s \<and> typed s" if "relay_starts shipped_build s" for s
    using that start_relay_typed by (auto simp: relay_starts_def relay_inv_start)
next
  fix s s' ev
  assume inv: "contiki_lib_ok lib \<longrightarrow> relay_inv s \<and> typed s" and pos: "relay_possible ev s"
    and step: "relay_machine shipped_build lib ev s = Inr s'"
  show "contiki_lib_ok lib \<longrightarrow> relay_inv s' \<and> typed s'"
  proof
    assume lib: "contiki_lib_ok lib"
    then have s: "relay_inv s" "typed s" using inv by simp_all
    have "wf_env (fst ev)" "enabled (snd ev) s" using pos by (simp_all add: relay_possible_def)
    then show "relay_inv s' \<and> typed s'"
      using relay_step_cases [OF s(1) _ lib, of "fst ev" shipped_build "snd ev"]
        relay_step_typed [OF s(1) _ s(2), of "fst ev" "snd ev" lib s'] step
      by (simp add: relay_machine_def)
  qed
qed

subsection \<open>Property\<close>

lemma response_bytes_length: "wf_response r \<Longrightarrow> length (response_bytes r) = UNION_SIZE + 1"
  by (simp add: response_bytes_def wf_response_def)

lemma sec_rnd_bytes_length: "length (sec_rnd_bytes q) = 9"
  by (simp add: sec_rnd_bytes_def)

text \<open>
  C17: Whatever a relay receives and in whatever order its timers expire, each
  datagram that it sends has the type that its receiver expects: to parents a
  topology response with a path of one to nine ids (so that it cannot drive a
  relay with this code out of its arrays), to all nodes an attestation response,
  to the border router an answer of nine bytes; it never multicasts.
\<close>

theorem relay_sends_typed:
  assumes "relay_reachable shipped_build lib s" and "contiki_lib_ok lib" and "f \<in> set (outs s)"
  shows "case f of
      Unicast_sendto a bs \<Rightarrow> length bs = UNION_SIZE + 1 \<and> (\<exists>r. response_of_bytes bs = r \<and>
        response_bytes r = bs \<and> pkt_type r = TOPOLOGY \<and>
        0 < unat (topo_pathindex r) \<and> unat (topo_pathindex r) < MAX_PATH_NODES)
    | Broadcast_sendto bs \<Rightarrow> length bs = UNION_SIZE + 1 \<and> pkt_type (response_of_bytes bs) = ATTESTATION
    | Sink_sendto bs \<Rightarrow> length bs = 9 \<and> sec_rnd_bytes (sec_rnd_of_bytes bs) = bs
    | Mcast_sendto bs \<Rightarrow> False
    | _ \<Rightarrow> True"
proof -
  have "typed_effect f"
    using relay_typed.holds [OF assms(1)] assms(2,3) by (simp add: typed_def)
  then show ?thesis
    by (cases f) (auto simp: typed_effect_def topology_typed_def attestation_typed_def
        response_bytes_length sec_rnd_bytes_length)
qed

lemma relay_sends_typed_witness:
  "\<exists>s bs. relay_reachable shipped_build sample_lib s \<and> Sink_sendto bs \<in> set (outs s) \<and>
    length bs = 9 \<and> sec_rnd_bytes (sec_rnd_of_bytes bs) = bs"
proof -
  let ?e = "sample_env 3 512 []"
  let ?s0 = "start_relay shipped_build ?e initial_relay"
  let ?ev = "Secreq_rx (request_bytes \<lparr>req_pkt_type = SECOND_ROUND, seed = 0\<rparr>)"
  let ?bs = "sec_rnd_bytes \<lparr>sr_max_index = max_index ?s0, sr_checksum = my_checksum ?s0\<rparr>"
  have "first_round_completed ?s0 \<noteq> 0" by (simp add: start_relay_def Let_def initial_relay_def)
  then have step: "relay_machine shipped_build sample_lib (?e, ?ev) ?s0 = Inr (emit (Sink_sendto ?bs) ?s0)"
    by (simp add: relay_machine_def udp_secreq_callback_def unicast_send_to_sink_def)
  have "relay_reachable shipped_build sample_lib ?s0" by (rule relay_reachable_start) simp
  moreover have "relay_possible (?e, ?ev) ?s0" by (simp add: relay_possible_def enabled_def)
  ultimately have "relay_reachable shipped_build sample_lib (emit (Sink_sendto ?bs) ?s0)"
    using step by (rule reachable.step)
  moreover from this have "length ?bs = 9 \<and> sec_rnd_bytes (sec_rnd_of_bytes ?bs) = ?bs"
    using relay_sends_typed [of sample_lib "emit (Sink_sendto ?bs) ?s0" "Sink_sendto ?bs"] by simp
  ultimately show ?thesis by (intro exI [of _ "emit (Sink_sendto ?bs) ?s0"] exI [of _ ?bs]) simp
qed

end
