(* ===== verification/Attestation.thy ===== *)
theory Attestation
  imports Prelude
begin

text \<open>
  \<open>attestation_lib.c\<close>: a byte generator in the manner of RC4, the pseudorandom
  walk over the memory it drives, and the checksum of the walk. The three
  static variables of the generator are the record \<open>rc4\<close>; \<open>next_addr\<close> calls
  itself until an address is in range and need not return, so it is a
  \<open>partial_function\<close> into \<open>option\<close>.
\<close>

subsection \<open>The generator\<close>

record rc4 =
  rc4_i :: u16
  rc4_j :: u16
  rc4_s :: "u8 list"

definition rc4_swap :: "u8 \<Rightarrow> u8 \<Rightarrow> u8 list \<Rightarrow> u8 list" where
  "rc4_swap i j s = (let tmp = s ! unat i in (s[unat i := s ! unat j])[unat j := tmp])"

fun rc4_init_loop :: "u8 list \<Rightarrow> nat \<Rightarrow> nat list \<Rightarrow> u32 \<Rightarrow> u8 list \<Rightarrow> u8 list" where
  "rc4_init_loop key n [] j s = s"
| "rc4_init_loop key n (i # is) j s =
     (let j = j + j;
          j = j + ucast (s ! i);
          j = j + ucast (key ! (i mod n));
          j = j mod 256
      in rc4_init_loop key n is j (rc4_swap (of_nat i) (ucast j) s))"

definition rc4_init :: "u8 list \<Rightarrow> nat \<Rightarrow> rc4 \<Rightarrow> rc4" where
  "rc4_init key n r =
     r\<lparr>rc4_s := rc4_init_loop key n [0..<256] 0 (map of_nat [0..<256])\<rparr>"

definition rc4_next :: "rc4 \<Rightarrow> u8 \<times> rc4" where
  "rc4_next r =
     (let i = (rc4_i r + 1) mod 256;
          j = rc4_j r + rc4_j r;
          j = j + ucast (rc4_s r ! unat i);
          j = j mod 256;
          s = rc4_swap (ucast i) (ucast j) (rc4_s r);
          tmp = (ucast (s ! unat i) :: u32) + ucast (s ! unat j);
          tmp = tmp mod 256
      in (s ! unat tmp, \<lparr>rc4_i = i, rc4_j = j, rc4_s = s\<rparr>))"

subsection \<open>Addresses\<close>

text \<open>The three draws at the head of \<open>next_addr\<close>.\<close>

definition draw_addr :: "rc4 \<Rightarrow> u32 \<times> rc4" where
  "draw_addr r =
     (let (b, r) = rc4_next r; addr = ucast b;
          addr = push_bit 8 addr;
          (b, r) = rc4_next r; addr = addr + ucast b;
          addr = push_bit 1 addr;
          (b, r) = rc4_next r; addr = addr + ucast (b AND 1)
      in (addr, r))"

text \<open>As in the source, the results of the two recursive calls are discarded.\<close>

partial_function (option) next_addr :: "rc4 \<Rightarrow> (u32 \<times> rc4) option" where
  "next_addr r =
     (let (addr, r) = draw_addr r
      in Option.bind (if addr < 16384 then Option.bind (next_addr r) (\<lambda>(_, r). Some r) else Some r)
           (\<lambda>r. Option.bind (if 65504 < addr then Option.bind (next_addr r) (\<lambda>(_, r). Some r) else Some r)
             (\<lambda>r. Some (addr, r))))"

definition read_byte_far :: "u32 \<Rightarrow> u8" where
  "read_byte_far addr = 3"

subsection \<open>The checksum\<close>

definition CHECKSUM_LENGTH :: nat where "CHECKSUM_LENGTH = 8"

definition nonce_bytes :: "u32 \<Rightarrow> u8 list" where
  "nonce_bytes nonce =
     [ucast (drop_bit 24 (nonce AND 0xff000000)), ucast (drop_bit 16 (nonce AND 0x00ff0000)),
      ucast (drop_bit 8 (nonce AND 0x0000ff00)), ucast (nonce AND 0x000000ff)]"

text \<open>One iteration on the checksum array: index \<open>byte\<close>, address \<open>current_addr\<close>.\<close>

definition checksum_step :: "u8 \<Rightarrow> u32 \<Rightarrow> u32 \<Rightarrow> u8 list \<Rightarrow> u8 list" where
  "checksum_step byte last_addr current_addr ck =
     (let tmp = byte - 2;
          tmp = tmp mod of_nat CHECKSUM_LENGTH;
          tmp = ck ! unat tmp;
          tmp = read_byte_far current_addr XOR tmp;
          tmp = tmp + ucast last_addr;
          ck = ck[unat byte := ck ! unat byte + tmp];
          carry = drop_bit 7 (ck ! unat byte);
          ck = ck[unat byte := push_bit 1 (ck ! unat byte)]
      in ck[unat byte := ck ! unat byte + carry])"

definition next_byte :: "u8 \<Rightarrow> u8" where
  "next_byte byte = (byte + 5) mod of_nat CHECKSUM_LENGTH"

fun attestation_loop ::
  "nat \<Rightarrow> u8 \<Rightarrow> u32 \<Rightarrow> u32 \<Rightarrow> u8 list \<Rightarrow> rc4 \<Rightarrow> (u8 list \<times> rc4) option" where
  "attestation_loop 0 byte last_addr current_addr ck r = Some (ck, r)"
| "attestation_loop (Suc n) byte last_addr current_addr ck r =
     Option.bind (next_addr r) (\<lambda>(a, r).
       attestation_loop n (next_byte byte) current_addr a (checksum_step byte last_addr current_addr ck) r)"

definition pack_checksum :: "u8 list \<Rightarrow> u64" where
  "pack_checksum ck = foldl (\<lambda>result b. push_bit 8 result + ucast b) 0 ck"

definition attestation :: "u32 \<Rightarrow> rc4 \<Rightarrow> (u64 \<times> rc4) option" where
  "attestation nonce r =
     (let r = rc4_init (nonce_bytes nonce) 4 r;
          r = ((\<lambda>r. snd (rc4_next r)) ^^ 256) r
      in Option.bind (next_addr r) (\<lambda>(a, r).
         Option.bind (attestation_loop 15 0 a a (replicate CHECKSUM_LENGTH 0) r) (\<lambda>(ck, r).
           Some (pack_checksum ck, r))))"

subsection \<open>The S-box stays a permutation\<close>

definition rc4_ok :: "rc4 \<Rightarrow> bool" where
  "rc4_ok r \<longleftrightarrow> mset (rc4_s r) = mset (map of_nat [0..<256]) \<and> rc4_i r < 256 \<and> rc4_j r < 256"

lemma length_rc4_swap [simp]: "length (rc4_swap i j s) = length s"
  by (simp add: rc4_swap_def Let_def)

lemma mset_rc4_swap [simp]: "length s = 256 \<Longrightarrow> mset (rc4_swap i j s) = mset s"
  by (simp add: rc4_swap_def Let_def mset_swap)

lemma rc4_init_loop_mset:
  "length s = 256 \<Longrightarrow> mset (rc4_init_loop key n is j s) = mset s"
  by (induction key n "is" j s rule: rc4_init_loop.induct) (simp_all add: Let_def)

lemma rc4_ok_length: "rc4_ok r \<Longrightarrow> length (rc4_s r) = 256"
  by (metis rc4_ok_def length_map length_upt diff_zero mset_eq_length)

lemma mod_256_less [simp]:
  "(x::u16) mod 256 < 256" "unat ((y::u32) mod 256) < 256" "unat ((x::u16) mod 256) < 256"
  by (simp_all add: word_mod_less_divisor unat_mod)

lemma rc4_ok_init: "rc4_i r < 256 \<Longrightarrow> rc4_j r < 256 \<Longrightarrow> rc4_ok (rc4_init key n r)"
  by (simp add: rc4_ok_def rc4_init_def rc4_init_loop_mset)

lemma rc4_ok_next: "rc4_ok r \<Longrightarrow> rc4_ok (snd (rc4_next r))"
  using rc4_ok_length [of r] by (simp add: rc4_ok_def rc4_next_def Let_def)

lemma rc4_ok_nexts: "rc4_ok r \<Longrightarrow> rc4_ok (((\<lambda>r. snd (rc4_next r)) ^^ n) r)"
  by (induction n) (simp_all add: rc4_ok_next)

lemma rc4_ok_draw_addr: "rc4_ok r \<Longrightarrow> rc4_ok (snd (draw_addr r))"
  by (simp add: draw_addr_def Let_def case_prod_unfold rc4_ok_next)

lemma rc4_ok_all: "rc4_ok r \<Longrightarrow> set (rc4_s r) = UNIV"
proof -
  assume ok: "rc4_ok r"
  have "x \<in> set (map of_nat [0..<256])" for x :: u8
    by (auto intro!: image_eqI [of _ _ "unat x"])
  then show ?thesis
    using ok by (metis UNIV_eq_I mset_eq_setD rc4_ok_def)
qed

lemma rc4_ok_distinct: "rc4_ok r \<Longrightarrow> distinct (rc4_s r)"
  using rc4_ok_all [of r] rc4_ok_length [of r] by (intro card_distinct) (simp add: card_word)

text \<open>
  \<open>rc4_init\<close> does not reset the two counters: what the generator yields after it
  depends on the calls made before.
\<close>

lemma rc4_init_eq_iff:
  fixes r r' :: rc4
  shows "rc4_init key n r = rc4_init key n r' \<longleftrightarrow> rc4_i r = rc4_i r' \<and> rc4_j r = rc4_j r'"
  by (cases r; cases r') (simp add: rc4_init_def)

subsection \<open>The address walk\<close>

definition in_range :: "u32 \<Rightarrow> bool" where
  "in_range a \<longleftrightarrow> 16384 \<le> a \<and> a \<le> 65504"

definition drawn :: "rc4 \<Rightarrow> nat \<Rightarrow> rc4" where
  "drawn r k = ((\<lambda>r. snd (draw_addr r)) ^^ k) r"

definition addr_at :: "rc4 \<Rightarrow> nat \<Rightarrow> u32" where
  "addr_at r k = fst (draw_addr (drawn r k))"

lemma drawn_simps: "drawn r 0 = r" "drawn r (Suc k) = drawn (snd (draw_addr r)) k"
  using funpow_swap1 [of "\<lambda>r. snd (draw_addr r)" k r] by (simp_all add: drawn_def)

lemma addr_at_Suc: "addr_at r (Suc k) = addr_at (snd (draw_addr r)) k"
  by (simp add: addr_at_def drawn_simps)

lemma next_addr_eq:
  "next_addr r =
     (if in_range (addr_at r 0) then Some (addr_at r 0, drawn r 1)
      else map_option (\<lambda>(_, r'). (addr_at r 0, r')) (next_addr (drawn r 1)))"
proof -
  have one: "drawn r 1 = snd (draw_addr r)" by (simp add: drawn_def)
  have "\<not> (a < 16384 \<and> 65504 < a)" for a :: u32
    by unat_arith
  then show ?thesis
    by (subst next_addr.simps)
      (auto simp: in_range_def addr_at_def drawn_simps one Let_def not_less not_le
        case_prod_unfold split: option.splits prod.splits intro: leD
        simp flip: not_less split: Option.bind_splits)
qed

lemma next_addr_retries:
  assumes "\<forall>j<k. \<not> in_range (addr_at r j)" and "in_range (addr_at r k)"
  shows "next_addr r = Some (addr_at r 0, drawn r (Suc k))"
  using assms
proof (induction k arbitrary: r)
  case 0
  then show ?case by (subst next_addr_eq) simp
next
  case (Suc k)
  have "\<not> in_range (addr_at r 0)" using Suc.prems(1) by simp
  moreover have "next_addr (drawn r 1) = Some (addr_at (drawn r 1) 0, drawn (drawn r 1) (Suc k))"
    using Suc.prems by (intro Suc.IH) (auto simp: addr_at_Suc drawn_simps)
  ultimately show ?case
    by (subst next_addr_eq) (simp add: drawn_simps)
qed

lemma next_addr_returns:
  assumes "next_addr r = Some y"
  shows "\<exists>k. in_range (addr_at r k)"
proof (rule next_addr.raw_induct [where P = "\<lambda>r y. \<exists>k. in_range (addr_at r k)", OF _ assms])
  fix f r y
  assume IH: "\<And>r y. f r = Some y \<Longrightarrow> \<exists>k. in_range (addr_at r k)"
    and eq: "(let (addr, r) = draw_addr r
      in Option.bind (if addr < 16384 then Option.bind (f r) (\<lambda>(_, r). Some r) else Some r)
           (\<lambda>r. Option.bind (if 65504 < addr then Option.bind (f r) (\<lambda>(_, r). Some r) else Some r)
             (\<lambda>r. Some (addr, r)))) = Some y"
  show "\<exists>k. in_range (addr_at r k)"
  proof (cases "in_range (addr_at r 0)")
    case False
    then have "addr_at r 0 < 16384 \<or> 65504 < addr_at r 0" by (auto simp: in_range_def)
    with eq obtain y where "f (snd (draw_addr r)) = Some y"
      by (auto simp: addr_at_def drawn_simps Let_def case_prod_unfold split: if_splits Option.bind_splits)
    with IH obtain k where "in_range (addr_at (snd (draw_addr r)) k)" by blast
    then have "in_range (addr_at r (Suc k))" by (simp add: addr_at_Suc)
    then show ?thesis by blast
  qed blast
qed

text \<open>
  \<open>next_addr\<close> returns exactly if some later draw is in range; what it returns
  is the first draw, in range or not.
\<close>

lemma next_addr_Some_iff:
  "next_addr r = Some (a, r') \<longleftrightarrow>
     (\<exists>k. (\<forall>j<k. \<not> in_range (addr_at r j)) \<and> in_range (addr_at r k) \<and>
          a = addr_at r 0 \<and> r' = drawn r (Suc k))"
proof
  assume ret: "next_addr r = Some (a, r')"
  then have "\<exists>k. in_range (addr_at r k)" by (rule next_addr_returns)
  then obtain k where k: "in_range (addr_at r k)" "\<forall>j<k. \<not> in_range (addr_at r j)"
    using exists_least_iff [of "\<lambda>k. in_range (addr_at r k)"] by auto
  then have "next_addr r = Some (addr_at r 0, drawn r (Suc k))"
    by (intro next_addr_retries)
  with ret k show "\<exists>k. (\<forall>j<k. \<not> in_range (addr_at r j)) \<and>
      in_range (addr_at r k) \<and> a = addr_at r 0 \<and> r' = drawn r (Suc k)"
    by (intro exI [of _ k]) simp
next
  assume "\<exists>k. (\<forall>j<k. \<not> in_range (addr_at r j)) \<and> in_range (addr_at r k) \<and>
          a = addr_at r 0 \<and> r' = drawn r (Suc k)"
  then show "next_addr r = Some (a, r')"
    using next_addr_retries by blast
qed

lemma rc4_ok_next_addr: "rc4_ok r \<Longrightarrow> next_addr r = Some (a, r') \<Longrightarrow> rc4_ok r'"
proof -
  have "rc4_ok r \<Longrightarrow> rc4_ok (drawn r k)" for k
    by (induction k) (simp_all add: drawn_def rc4_ok_draw_addr)
  then show "rc4_ok r \<Longrightarrow> next_addr r = Some (a, r') \<Longrightarrow> rc4_ok r'"
    by (auto simp: next_addr_Some_iff)
qed

subsection \<open>The checksum array\<close>

lemma bit_shifted_u8:
  "bit (push_bit 1 (x::u8)) k \<longleftrightarrow> 1 \<le> k \<and> k < 8 \<and> bit x (k - 1)"
  "bit (drop_bit 7 (x::u8)) k \<longleftrightarrow> k = 0 \<and> bit x 7"
  using bit_imp_le_length [of x "7 + k"] by (auto simp only: bit_push_bit_iff bit_drop_bit_eq) auto

lemma rotate_left_u8: "push_bit 1 x + drop_bit 7 x = word_rotl 1 (x::u8)"
proof -
  have "push_bit 1 x + drop_bit 7 x = push_bit 1 x OR drop_bit 7 x"
    by (intro disjunctive_add) (simp only: bit_shifted_u8, auto)
  also have "\<dots> = word_rotl 1 x"
  proof (rule bit_word_eqI)
    fix k assume k: "k < LENGTH(8)"
    show "bit (push_bit 1 x OR drop_bit 7 x) k = bit (word_rotl 1 x) k"
      using k by (cases k) (auto simp only: bit_or_iff bit_shifted_u8 bit_word_rotl_iff, auto)
  qed
  finally show ?thesis .
qed

lemma u8_below_8_cases:
  assumes "(b::u8) < 8"
  shows "b \<in> {0, 1, 2, 3, 4, 5, 6, 7}"
proof -
  obtain n where n: "b = of_nat n" "n < 8"
    using that [of "unat b"] assms by (simp add: word_less_nat_alt)
  then have "n = 0 \<or> n = 1 \<or> n = 2 \<or> n = 3 \<or> n = 4 \<or> n = 5 \<or> n = 6 \<or> n = 7" by arith
  then show ?thesis by (elim disjE) (simp_all add: n)
qed

text \<open>The predecessor index of \<open>byte - 2\<close> wraps inside the array.\<close>

lemma back_two:
  "byte < 8 \<Longrightarrow> unat ((byte - 2 :: u8) mod 8) = (unat byte + 6) mod 8"
  using u8_below_8_cases [of byte] by auto

text \<open>
  One iteration changes one byte: its old value, the last address and the byte
  two places before it are added up and rotated left.
\<close>

lemma checksum_step_eq:
  assumes "byte < 8" and "length ck = CHECKSUM_LENGTH"
  shows "checksum_step byte last_addr current_addr ck =
    ck[unat byte := word_rotl 1 (ck ! unat byte +
      ((read_byte_far current_addr XOR ck ! ((unat byte + 6) mod 8)) + ucast last_addr))]"
proof -
  have "unat byte < length ck"
    using assms by (simp add: CHECKSUM_LENGTH_def word_less_nat_alt)
  then show ?thesis
    using assms(1)
    by (simp add: checksum_step_def Let_def CHECKSUM_LENGTH_def back_two rotate_left_u8
        del: push_bit_Suc One_nat_def)
qed

lemma length_checksum_step [simp]: "length (checksum_step b l c ck) = length ck"
  by (simp add: checksum_step_def Let_def)

lemma next_byte_less: "next_byte byte < 8"
  by (simp add: next_byte_def CHECKSUM_LENGTH_def word_mod_less_divisor)

lemma attestation_loop_length:
  "attestation_loop n byte l c ck r = Some (ck', r') \<Longrightarrow> length ck' = length ck"
  by (induction n byte l c ck r rule: attestation_loop.induct)
    (auto split: Option.bind_splits)

lemma attestation_loop_ok:
  "attestation_loop n byte l c ck r = Some (ck', r') \<Longrightarrow> rc4_ok r \<Longrightarrow> rc4_ok r'"
  by (induction n byte l c ck r rule: attestation_loop.induct)
    (auto split: Option.bind_splits dest: rc4_ok_next_addr)

subsection \<open>Packing\<close>

lemma shift_add_is_or: "push_bit 8 (w::u64) + ucast (b::u8) = ucast b OR push_bit 8 w"
proof -
  have "push_bit 8 w + ucast b = push_bit 8 w OR (ucast b :: u64)"
    by (intro disjunctive_add)
      (auto simp: bit_push_bit_iff bit_ucast_iff dest: bit_imp_le_length)
  then show ?thesis by (simp add: or.commute)
qed

lemma pack_checksum_eq: "pack_checksum ck = le_word (rev ck)"
  by (induction ck rule: rev_induct) (simp_all add: pack_checksum_def shift_add_is_or)

lemma pack_checksum_bytes:
  "length ck = CHECKSUM_LENGTH \<Longrightarrow> rev (le_bytes CHECKSUM_LENGTH (pack_checksum ck)) = ck"
  by (simp add: pack_checksum_eq le_bytes_le_word CHECKSUM_LENGTH_def)

subsection \<open>A whole run\<close>

lemma attestation_run:
  assumes "attestation nonce r = Some (v, r')" and "rc4_i r < 256" and "rc4_j r < 256"
  obtains ck where "length ck = CHECKSUM_LENGTH" and "v = pack_checksum ck" and "rc4_ok r'"
proof -
  define r1 where "r1 = ((\<lambda>r. snd (rc4_next r)) ^^ 256) (rc4_init (nonce_bytes nonce) 4 r)"
  have ok1: "rc4_ok r1"
    unfolding r1_def using assms by (intro rc4_ok_nexts rc4_ok_init)
  obtain a r2 ck where a: "next_addr r1 = Some (a, r2)"
    and l: "attestation_loop 15 0 a a (replicate CHECKSUM_LENGTH 0) r2 = Some (ck, r')"
    and v: "v = pack_checksum ck"
    using assms(1)
    by (auto simp: attestation_def Let_def simp flip: r1_def simp del: attestation_loop.simps split: Option.bind_splits)
  have "length ck = CHECKSUM_LENGTH" using attestation_loop_length [OF l] by simp
  moreover have "rc4_ok r'"
    using ok1 a l rc4_ok_next_addr attestation_loop_ok by blast
  ultimately show ?thesis using v that by blast
qed

subsection \<open>Properties\<close>

text \<open>
  C35: The generator keeps its state a permutation of all byte values with both
  counters below 256, so that none of its array accesses can leave the array,
  through seeding, any number of bytes, and any address drawn.
\<close>

theorem rc4_state_permutation:
  assumes "rc4_i r < 256" and "rc4_j r < 256"
    and "r' = ((\<lambda>r. snd (rc4_next r)) ^^ n) (rc4_init key k r)"
  shows "distinct (rc4_s r') \<and> set (rc4_s r') = UNIV \<and> length (rc4_s r') = 256 \<and>
    rc4_i r' < 256 \<and> rc4_j r' < 256 \<and>
    (\<forall>a r''. next_addr r' = Some (a, r'') \<longrightarrow> distinct (rc4_s r'') \<and> length (rc4_s r'') = 256)"
proof -
  have ok: "rc4_ok r'" unfolding assms(3) by (intro rc4_ok_nexts rc4_ok_init assms(1,2))
  then have "rc4_ok r''" if "next_addr r' = Some (a, r'')" for a r''
    using that by (rule rc4_ok_next_addr)
  with ok show ?thesis
    by (auto simp: rc4_ok_distinct rc4_ok_all rc4_ok_length) (auto simp: rc4_ok_def)
qed

lemma rc4_state_permutation_witness:
  "distinct (rc4_s (((\<lambda>r. snd (rc4_next r)) ^^ 256)
     (rc4_init [1, 2, 3, 4] 4 \<lparr>rc4_i = 0, rc4_j = 0, rc4_s = []\<rparr>)))"
  using rc4_state_permutation [of "\<lparr>rc4_i = 0, rc4_j = 0, rc4_s = []\<rparr>" _ 256 "[1, 2, 3, 4]" 4] by simp

text \<open>
  C36: \<open>next_addr\<close> throws the results of its retries away: it returns exactly when
  some draw lies in the memory it may read, and what it returns then is the
  first draw, in range or not; it does not return when no draw is in range.
\<close>

theorem next_addr_first_draw:
  "(next_addr r = None \<longleftrightarrow> (\<forall>k. addr_at r k < 16384 \<or> 65504 < addr_at r k)) \<and>
    (next_addr r = Some (a, r') \<longrightarrow> a = fst (draw_addr r))"
proof -
  have "next_addr r = None \<longleftrightarrow> (\<forall>k. \<not> in_range (addr_at r k))"
  proof
    assume none: "next_addr r = None"
    show "\<forall>k. \<not> in_range (addr_at r k)"
    proof (rule ccontr)
      assume "\<not> (\<forall>k. \<not> in_range (addr_at r k))"
      then obtain k where "in_range (addr_at r k)" "\<forall>j<k. \<not> in_range (addr_at r j)"
        using exists_least_iff [of "\<lambda>k. in_range (addr_at r k)"] by auto
      then show False using none next_addr_retries by fastforce
    qed
  next
    assume "\<forall>k. \<not> in_range (addr_at r k)"
    then show "next_addr r = None" using next_addr_returns [of r] by (cases "next_addr r") blast+
  qed
  moreover have "addr_at r 0 = fst (draw_addr r)" by (simp add: addr_at_def drawn_simps)
  ultimately show ?thesis
    by (auto simp: next_addr_Some_iff in_range_def not_le)
qed

text \<open>A generator whose first draw is outside the memory and whose second is in range.\<close>

definition plain_rc4 :: rc4 where
  "plain_rc4 = \<lparr>rc4_i = 0, rc4_j = 0, rc4_s = (replicate 256 64)[1 := 63, 127 := 0]\<rparr>"

lemma plain_rc4_draw: "fst (draw_addr plain_rc4) = 128"
  by code_simp

lemma plain_rc4_draw_2: "addr_at plain_rc4 1 = 32896"
  by code_simp

lemma next_addr_first_draw_witness:
  "\<exists>r'. next_addr plain_rc4 = Some (128, r') \<and> \<not> in_range 128"
proof -
  have "next_addr plain_rc4 \<noteq> None"
  proof
    assume "next_addr plain_rc4 = None"
    then have "addr_at plain_rc4 1 < 16384 \<or> 65504 < addr_at plain_rc4 1"
      using next_addr_first_draw [of plain_rc4] by blast
    then show False by (simp only: plain_rc4_draw_2) simp
  qed
  then obtain a r' where r': "next_addr plain_rc4 = Some (a, r')" by auto
  then have "a = 128" using next_addr_first_draw [of plain_rc4 a r'] plain_rc4_draw by simp
  with r' show ?thesis by (simp add: in_range_def)
qed

text \<open>
  Seeding rebuilds the permutation from the nonce but leaves the two counters
  where the bytes drawn before left them: two seedings with the same nonce agree
  exactly if the counters did.
\<close>

lemma rc4_init_keeps_counters:
  "(rc4_init key n r = rc4_init key n r' \<longleftrightarrow> rc4_i r = rc4_i r' \<and> rc4_j r = rc4_j r') \<and>
    rc4_i (rc4_init key n r) = rc4_i r \<and> rc4_j (rc4_init key n r) = rc4_j r"
  by (simp add: rc4_init_eq_iff) (simp add: rc4_init_def)

text \<open>
  One iteration of the checksum changes one byte of the array, by an
  addition and a rotation to the left; for a given walk it is a bijection of
  that byte, and nothing else is lost.
\<close>

lemma checksum_step_rotates:
  assumes "byte < 8" and "length ck = CHECKSUM_LENGTH"
  shows "checksum_step byte last_addr current_addr ck =
      ck[unat byte := word_rotl 1 (ck ! unat byte +
        ((read_byte_far current_addr XOR ck ! ((unat byte + 6) mod 8)) + ucast last_addr))] \<and>
    (checksum_step byte last_addr current_addr (ck[unat byte := v]) =
        checksum_step byte last_addr current_addr (ck[unat byte := w]) \<longleftrightarrow> v = w)"
proof -
  let ?i = "unat byte" and ?j = "(unat byte + 6) mod 8"
  let ?d = "(read_byte_far current_addr XOR ck ! ?j) + ucast last_addr"
  have i: "?i < 8" using assms(1) by (simp add: word_less_nat_alt)
  then have "?j \<noteq> ?i" by presburger
  then have "checksum_step byte last_addr current_addr (ck[?i := x]) = ck[?i := word_rotl 1 (x + ?d)]" for x
    using assms i by (subst checksum_step_eq) (simp_all add: CHECKSUM_LENGTH_def)
  moreover have "word_rotl 1 (v + ?d) = word_rotl 1 (w + ?d) \<longleftrightarrow> v = w"
    by (metis add_right_cancel word_rot_lr [of 1 "v + ?d"] word_rot_lr [of 1 "w + ?d"])
  moreover have "ck[?i := x] = ck[?i := y] \<longleftrightarrow> x = y" for x y
    using i assms(2) nth_list_update_eq [of ?i ck] by (auto simp: CHECKSUM_LENGTH_def)
      (metis nth_list_update_eq)
  ultimately show ?thesis using checksum_step_eq [OF assms] by simp
qed

lemma checksum_step_rotates_witness:
  "checksum_step 0 5 9 (replicate 8 0) = [16, 0, 0, 0, 0, 0, 0, 0]"
proof -
  have "(0 :: u8) < 8" "length (replicate 8 (0 :: u8)) = CHECKSUM_LENGTH"
    by (simp_all add: CHECKSUM_LENGTH_def)
  from conjunct1 [OF checksum_step_rotates [OF this]]
  have "checksum_step 0 5 9 (replicate 8 0) = (replicate 8 0)[0 := word_rotl 1 8]"
    by (simp add: read_byte_far_def)
  also have "word_rotl 1 (8 :: u8) = 16" by code_simp
  finally show ?thesis by (simp add: eval_nat_numeral)
qed

text \<open>
  The 64-bit checksum is the eight bytes of the array with the first in the
  most significant place: every byte can be read back from it, and two arrays
  with the same checksum are equal.
\<close>

lemma pack_checksum_recovers:
  assumes "length ck = CHECKSUM_LENGTH" and "length ck' = CHECKSUM_LENGTH"
  shows "rev (le_bytes CHECKSUM_LENGTH (pack_checksum ck)) = ck \<and>
    (pack_checksum ck = pack_checksum ck' \<longleftrightarrow> ck = ck')"
  using pack_checksum_bytes assms by metis

lemma pack_checksum_recovers_witness:
  "rev (le_bytes CHECKSUM_LENGTH (pack_checksum [1, 2, 3, 4, 5, 6, 7, 8])) = [1, 2, 3, 4, 5, 6, 7, 8]"
  using pack_checksum_recovers [of "[1, 2, 3, 4, 5, 6, 7, 8]" "[1, 2, 3, 4, 5, 6, 7, 8]"]
  by (simp add: CHECKSUM_LENGTH_def)

end
