(* ===== verification/Slip_Bridge.thy ===== *)
theory Slip_Bridge
  imports Border_Router
begin

text \<open>
  \<open>border-router-server/slip-bridge.c\<close>: configuration messages on the serial
  line, the fallback interface that forwards packets to it, and \<open>putchar\<close>,
  which frames debug output. \<open>UIP_LLH_LEN\<close> and the link-layer address are
  Contiki's: fields of \<open>slip_env\<close>.
\<close>

subsection \<open>State\<close>

record slip_env =
  UIP_LLH_LEN :: nat
  uip_lladdr :: "u8 list"

record 't slip =
  uip_buf :: "u8 list"
  uip_len :: nat
  last_sender :: ipaddr
  router :: "'t border"

definition ascii :: "char \<Rightarrow> u8" where
  "ascii c = of_nat (of_char c)"

text \<open>The source address of the IPv6 header at \<open>UIP_IP_BUF\<close>.\<close>

definition srcipaddr :: "slip_env \<Rightarrow> u8 list \<Rightarrow> ipaddr" where
  "srcipaddr e buf = slice (UIP_LLH_LEN e + 8) 16 buf"

definition hexchar :: "u8 \<Rightarrow> u8" where
  "hexchar n = ascii (''0123456789abcdef'' ! unat n)"

definition uip_clear_buf :: "'t slip \<Rightarrow> 't slip" where
  "uip_clear_buf s = s\<lparr>uip_len := 0\<rparr>"

text \<open>\<open>slip_send\<close> sends the first \<open>uip_len\<close> bytes of the buffer.\<close>

definition slip_send :: "'t slip \<Rightarrow> 't slip" where
  "slip_send s = s\<lparr>router := br_emit (Slip_out (take (uip_len s) (uip_buf s))) (router s)\<rparr>"

subsection \<open>Input\<close>

fun put_mac :: "u8 list \<Rightarrow> nat list \<Rightarrow> u8 list \<Rightarrow> u8 list" where
  "put_mac mac [] buf = buf"
| "put_mac mac (j # js) buf =
     (let buf = buf[2 + j * 2 := hexchar (drop_bit 4 (mac ! j))];
          buf = buf[3 + j * 2 := hexchar (mac ! j AND 15)]
      in put_mac mac js buf)"

definition slip_input_callback :: "slip_env \<Rightarrow> 't br_env \<Rightarrow> 't slip \<Rightarrow> 't slip" where
  "slip_input_callback e be s =
     (let s =
        (if uip_buf s ! 0 = ascii CHR ''!'' then
           let s = uip_clear_buf s
           in if uip_buf s ! 1 = ascii CHR ''P'' then
                let prefix = replicate 16 0;
                    prefix = splice 0 (slice 2 8 (uip_buf s)) prefix
                in s\<lparr>router := set_prefix_64 be prefix (router s)\<rparr>
              else s
         else if uip_buf s ! 0 = ascii CHR ''?'' then
           let s =
             (if uip_buf s ! 1 = ascii CHR ''M'' then
                let s = s\<lparr>uip_buf := (uip_buf s)[0 := ascii CHR ''!'']\<rparr>;
                    s = s\<lparr>uip_buf := put_mac (uip_lladdr e) [0..<8] (uip_buf s)\<rparr>;
                    s = s\<lparr>uip_len := 18\<rparr>
                in slip_send s
              else s)
           in uip_clear_buf s
         else s)
      in s\<lparr>last_sender := srcipaddr e (uip_buf s)\<rparr>)"

subsection \<open>Initialisation\<close>

text \<open>What \<open>init\<close> asks of Contiki: the speed of the line, the process, the callback.\<close>

datatype slip_call =
    Slip_arch_init nat
  | Start_slip_process
  | Set_slip_input_callback

definition slip_init :: "slip_call list" where
  "slip_init = [Slip_arch_init 115200, Start_slip_process, Set_slip_input_callback]"

subsection \<open>Output\<close>

definition slip_output :: "slip_env \<Rightarrow> 't slip \<Rightarrow> 't slip" where
  "slip_output e s =
     (if last_sender s = srcipaddr e (uip_buf s) then s else slip_send s)"

definition SLIP_END :: u8 where "SLIP_END = 192"

text \<open>\<open>putchar\<close>: the static flag \<open>debug_frame\<close> and the bytes written so far.\<close>

record debug_out =
  debug_frame :: bool
  written :: "u8 list"

definition slip_putchar :: "u8 \<Rightarrow> debug_out \<Rightarrow> debug_out" where
  "slip_putchar c s =
     (let s = (if \<not> debug_frame s
               then s\<lparr>written := written s @ [SLIP_END, 13], debug_frame := True\<rparr> else s);
          s = s\<lparr>written := written s @ [c]\<rparr>
      in if c = 10 then s\<lparr>written := written s @ [SLIP_END], debug_frame := False\<rparr> else s)"

definition print_text :: "u8 list \<Rightarrow> debug_out \<Rightarrow> debug_out" where
  "print_text = fold slip_putchar"

subsection \<open>The answer to a query of the address\<close>

lemma length_put_mac [simp]: "length (put_mac mac js buf) = length buf"
  by (induction mac js buf rule: put_mac.induct) (simp_all add: Let_def)

definition unhex :: "u8 \<Rightarrow> u8" where
  "unhex c = (if c < 58 then c - 48 else c - 87)"

lemma nibble_cases:
  assumes "unat (n::u8) < 16"
  shows "n \<in> {0, 1, 2, 3, 4, 5, 6, 7, 8, 9, 10, 11, 12, 13, 14, 15}"
proof -
  obtain m where m: "n = of_nat m" "m < 16"
    using that [of "unat n"] assms by simp
  then have "m \<in> set [0..<16]" by simp
  then show ?thesis using m(1) by (simp add: upt_rec) (elim disjE; simp)
qed

lemma unhex_hexchar: "unat n < 16 \<Longrightarrow> unhex (hexchar n) = n"
  by (drule nibble_cases) (auto simp: unhex_def hexchar_def ascii_def)

lemma hex_digits:
  "unhex (hexchar (drop_bit 4 (b::u8))) = drop_bit 4 b" "unhex (hexchar (b AND 15)) = b AND 15"
proof -
  have "unat b div 16 < 16" using unat_u8_less [of b] by (simp add: less_mult_imp_div_less)
  then have "unat (drop_bit 4 b) < 16" by (simp add: drop_bit_eq_div unat_div)
  then show "unhex (hexchar (drop_bit 4 b)) = drop_bit 4 b" by (rule unhex_hexchar)
  have "b AND 15 = take_bit 4 b" by (simp add: take_bit_eq_mask mask_eq_exp_minus_1)
  then have "unat (b AND 15) < 16" by (simp add: take_bit_eq_mod unat_mod)
  then show "unhex (hexchar (b AND 15)) = b AND 15" by (rule unhex_hexchar)
qed

lemma nibbles_join: "push_bit 4 (drop_bit 4 b) OR (b AND 15) = (b::u8)"
proof -
  have "b AND 15 = take_bit 4 b" by (simp add: take_bit_eq_mask mask_eq_exp_minus_1)
  then show ?thesis
    by (auto intro!: bit_word_eqI simp: bit_or_iff bit_push_bit_iff bit_drop_bit_eq bit_take_bit_iff)
qed

lemma put_mac_nth:
  assumes "\<forall>j\<in>set js. 3 + j * 2 < length buf" and "i < length buf"
  shows "put_mac mac js buf ! i =
    (if 2 \<le> i \<and> (i - 2) div 2 \<in> set js then
       if even i then hexchar (drop_bit 4 (mac ! ((i - 2) div 2)))
       else hexchar (mac ! ((i - 2) div 2) AND 15)
     else buf ! i)"
  using assms
proof (induction mac js buf rule: put_mac.induct)
  case (1 mac buf)
  then show ?case by simp
next
  case (2 mac j js buf)
  let ?buf = "(buf[2 + j * 2 := hexchar (drop_bit 4 (mac ! j))])[3 + j * 2 := hexchar (mac ! j AND 15)]"
  have at: "?buf ! i = (if i = 2 + j * 2 then hexchar (drop_bit 4 (mac ! j))
      else if i = 3 + j * 2 then hexchar (mac ! j AND 15) else buf ! i)"
    using "2.prems" by (auto simp: nth_list_update)
  have idx: "2 \<le> i \<and> (i - 2) div 2 = j \<longleftrightarrow> i = 2 + j * 2 \<or> i = 3 + j * 2"
    by presburger
  have IH: "put_mac mac js ?buf ! i =
    (if 2 \<le> i \<and> (i - 2) div 2 \<in> set js then
       if even i then hexchar (drop_bit 4 (mac ! ((i - 2) div 2)))
       else hexchar (mac ! ((i - 2) div 2) AND 15)
     else ?buf ! i)"
    using "2.prems" by (intro "2.IH") simp_all
  consider "2 \<le> i" "(i - 2) div 2 \<in> set js" | "i = 2 + j * 2" "j \<notin> set js"
    | "i = 3 + j * 2" "j \<notin> set js"
    | "\<not> (2 \<le> i \<and> (i - 2) div 2 \<in> set (j # js))" "i \<noteq> 2 + j * 2" "i \<noteq> 3 + j * 2"
    using idx by auto
  then show ?case
  proof cases
    case 4
    then show ?thesis using IH at idx by (auto simp: Let_def)
  qed (use IH at in \<open>auto simp: Let_def\<close>)
qed

text \<open>What the host reads from the answer.\<close>

definition mac_of_answer :: "u8 list \<Rightarrow> u8 list" where
  "mac_of_answer bs =
     map (\<lambda>j. push_bit 4 (unhex (bs ! (2 + j * 2))) OR unhex (bs ! (3 + j * 2))) [0..<8]"

lemma mac_of_put_mac:
  assumes "length mac = 8" and "18 \<le> length buf"
  shows "mac_of_answer (take 18 (put_mac mac [0..<8] buf)) = mac"
proof (rule nth_equalityI)
  show "length (mac_of_answer (take 18 (put_mac mac [0..<8] buf))) = length mac"
    using assms by (simp add: mac_of_answer_def)
next
  fix i assume "i < length (mac_of_answer (take 18 (put_mac mac [0..<8] buf)))"
  then have "i < 8" by (simp add: mac_of_answer_def)
  with assms show "mac_of_answer (take 18 (put_mac mac [0..<8] buf)) ! i = mac ! i"
    by (simp add: mac_of_answer_def put_mac_nth hex_digits nibbles_join)
qed

lemma slip_input_query:
  assumes "uip_buf s ! 0 = ascii CHR ''?''" and "uip_buf s ! 1 = ascii CHR ''M''"
    and "18 \<le> length (uip_buf s)"
  shows "br_out (router (slip_input_callback e be s)) = br_out (router s) @
    [Slip_out (take 18 (put_mac (uip_lladdr e) [0..<8] ((uip_buf s)[0 := ascii CHR ''!''])))]"
  using assms
  by (simp add: slip_input_callback_def Let_def slip_send_def uip_clear_buf_def ascii_def)

lemma slip_input_prefix:
  assumes "uip_buf s ! 0 = ascii CHR ''!''" and "uip_buf s ! 1 = ascii CHR ''P''"
    and "10 \<le> length (uip_buf s)"
  shows "prefix (router (slip_input_callback e be s)) = slice 2 8 (uip_buf s) @ replicate 8 0"
    "prefix_set (router (slip_input_callback e be s)) = 1"
proof -
  have "splice 0 (slice 2 8 (uip_buf s)) (replicate 16 0) = slice 2 8 (uip_buf s) @ replicate 8 0"
    using assms(3) by (simp add: splice_def)
  then show "prefix (router (slip_input_callback e be s)) = slice 2 8 (uip_buf s) @ replicate 8 0"
    "prefix_set (router (slip_input_callback e be s)) = 1"
    using assms(1,2) by (simp_all add: slip_input_callback_def Let_def uip_clear_buf_def)
qed

text \<open>A packet that came over the serial line is not sent back over it.\<close>

lemma slip_no_bounce:
  "slip_output e (slip_input_callback e be s) = slip_input_callback e be s"
  by (simp add: slip_output_def slip_input_callback_def Let_def)

subsection \<open>Debug frames\<close>

fun frames :: "u8 list \<Rightarrow> u8 list \<Rightarrow> u8 list list" where
  "frames acc [] = []"
| "frames acc (b # bs) =
     (if b = SLIP_END then if acc = [] then frames [] bs else acc # frames [] bs
      else frames (acc @ [b]) bs)"

lemma frames_plain: "SLIP_END \<notin> set bs \<Longrightarrow> frames acc (bs @ cs) = frames (acc @ bs) cs"
  by (induction bs arbitrary: acc) auto

definition debug_frame_of :: "u8 list \<Rightarrow> u8 list" where
  "debug_frame_of line = 13 # line @ [10]"

lemma print_text_append: "print_text (xs @ ys) s = print_text ys (print_text xs s)"
  by (simp add: print_text_def)

lemma print_open:
  "10 \<notin> set line \<Longrightarrow> debug_frame s \<Longrightarrow>
     print_text line s = s\<lparr>written := written s @ line\<rparr>"
  by (induction line arbitrary: s) (simp_all add: print_text_def slip_putchar_def)

lemma print_line:
  assumes "10 \<notin> set line" and "\<not> debug_frame s"
  shows "print_text (line @ [10]) s =
    s\<lparr>written := written s @ [SLIP_END] @ debug_frame_of line @ [SLIP_END]\<rparr>"
proof (cases line)
  case Nil
  then show ?thesis
    using assms by (simp add: print_text_def slip_putchar_def Let_def debug_frame_of_def)
next
  case (Cons c cs)
  let ?s = "\<lparr>debug_frame = True, written = written s @ [SLIP_END, 13, c]\<rparr>"
  have c: "c \<noteq> 10" "10 \<notin> set cs" using assms(1) Cons by auto
  then have "slip_putchar c s = ?s"
    using assms(2) by (cases s) (simp add: slip_putchar_def Let_def)
  then have "print_text (line @ [10]) s = slip_putchar 10 (print_text cs ?s)"
    using Cons by (simp add: print_text_def)
  also have "print_text cs ?s = ?s\<lparr>written := written ?s @ cs\<rparr>"
    using c by (intro print_open) simp_all
  finally show ?thesis
    using assms(2) Cons by (cases s) (simp add: slip_putchar_def Let_def debug_frame_of_def)
qed

lemma frames_lines:
  assumes "\<forall>l\<in>set ls. 10 \<notin> set l \<and> SLIP_END \<notin> set l" and "\<not> debug_frame s"
    and "written s = ws"
  shows "\<not> debug_frame (print_text (concat (map (\<lambda>l. l @ [10]) ls)) s) \<and>
    written (print_text (concat (map (\<lambda>l. l @ [10]) ls)) s) =
      ws @ concat (map (\<lambda>l. [SLIP_END] @ debug_frame_of l @ [SLIP_END]) ls)"
  using assms
proof (induction ls arbitrary: s ws)
  case Nil
  then show ?case by (simp add: print_text_def)
next
  case (Cons l ls)
  let ?t = "s\<lparr>written := written s @ [SLIP_END] @ debug_frame_of l @ [SLIP_END]\<rparr>"
  have "print_text (concat (map (\<lambda>l. l @ [10]) (l # ls))) s =
      print_text (concat (map (\<lambda>l. l @ [10]) ls)) (print_text (l @ [10]) s)"
    unfolding print_text_append [symmetric] by simp
  also have "print_text (l @ [10]) s = ?t"
    using Cons.prems by (intro print_line) auto
  finally show ?case
    using Cons.IH [of ?t "written ?t"] Cons.prems by simp
qed

lemma frames_of_lines:
  assumes "\<forall>l\<in>set ls. SLIP_END \<notin> set l"
  shows "frames [] (concat (map (\<lambda>l. [SLIP_END] @ debug_frame_of l @ [SLIP_END]) ls)) =
    map debug_frame_of ls"
  using assms
proof (induction ls)
  case Nil
  then show ?case by simp
next
  case (Cons l ls)
  have "SLIP_END \<notin> set (debug_frame_of l)" and "debug_frame_of l \<noteq> []"
    using Cons.prems by (simp_all add: debug_frame_of_def SLIP_END_def)
  with Cons show ?case by (simp add: frames_plain)
qed

subsection \<open>Properties\<close>

text \<open>
  Asked for its address over the serial line, the border router answers one
  message of 18 bytes, \<open>!M\<close> and sixteen hexadecimal digits, from which the host
  recovers the eight bytes; the query is consumed.
\<close>

lemma slip_query_answers_address:
  assumes "uip_buf s ! 0 = ascii CHR ''?''" and "uip_buf s ! 1 = ascii CHR ''M''"
    and "18 \<le> length (uip_buf s)" and "length (uip_lladdr e) = 8"
  shows "\<exists>bs. br_out (router (slip_input_callback e be s)) = br_out (router s) @ [Slip_out bs] \<and>
    length bs = 18 \<and> take 2 bs = [ascii CHR ''!'', ascii CHR ''M''] \<and>
    mac_of_answer bs = uip_lladdr e \<and> uip_len (slip_input_callback e be s) = 0"
proof -
  let ?buf = "(uip_buf s)[0 := ascii CHR ''!'']"
  let ?bs = "take 18 (put_mac (uip_lladdr e) [0..<8] ?buf)"
  have len: "18 \<le> length ?buf" using assms(3) by simp
  have "take 2 ?bs = [?bs ! 0, ?bs ! 1]"
    using len by (intro nth_equalityI) (auto simp: less_2_cases_iff)
  moreover have "put_mac (uip_lladdr e) [0..<8] ?buf ! i = ?buf ! i" if "i < 2" for i
    using len that by (subst put_mac_nth) auto
  from this [of 0] this [of 1] have "?bs ! 0 = ascii CHR ''!''" "?bs ! 1 = ascii CHR ''M''"
    using len assms(2,3) by (cases "uip_buf s"; simp)+
  moreover have "uip_len (slip_input_callback e be s) = 0"
    using assms(1,2) by (simp add: slip_input_callback_def Let_def uip_clear_buf_def ascii_def)
  ultimately show ?thesis
    using slip_input_query [OF assms(1-3)] mac_of_put_mac [OF assms(4) len] len
    by (intro exI [of _ ?bs]) simp
qed

definition sample_slip :: "char \<Rightarrow> char \<Rightarrow> 32 word slip" where
  "sample_slip c d = \<lparr>uip_buf = ascii c # ascii d # replicate 100 7, uip_len = 2,
     last_sender = replicate 16 0, router = initial_border\<rparr>"

lemma slip_query_answers_address_witness:
  "\<exists>bs. br_out (router (slip_input_callback \<lparr>UIP_LLH_LEN = 0, uip_lladdr = [1, 2, 3, 4, 5, 6, 7, 255]\<rparr>
      \<lparr>clock_time = 0, set_addr_iid = (\<lambda>a. a), set_root_ok = True, addr_list = []\<rparr> (sample_slip CHR ''?'' CHR ''M'')))
      = [Slip_out bs] \<and>
    mac_of_answer bs = [1, 2, 3, 4, 5, 6, 7, 255]"
  using slip_query_answers_address [of "sample_slip CHR ''?'' CHR ''M''"
      "\<lparr>UIP_LLH_LEN = 0, uip_lladdr = [1, 2, 3, 4, 5, 6, 7, 255]\<rparr>"
      "\<lparr>clock_time = 0, set_addr_iid = (\<lambda>a. a), set_root_ok = True, addr_list = []\<rparr>"]
  by (auto simp: sample_slip_def initial_border_def)

text \<open>
  The host's \<open>!P\<close> message sets the prefix to its eight bytes followed by
  zeros, makes the router the root of its network with an address in it, and
  lets the waiting process go on at the next timer.
\<close>

lemma slip_prefix_releases_router:
  assumes "uip_buf s ! 0 = ascii CHR ''!''" and "uip_buf s ! 1 = ascii CHR ''P''"
    and "10 \<le> length (uip_buf s)"
  shows "prefix (router (slip_input_callback e be s)) = slice 2 8 (uip_buf s) @ replicate 8 0 \<and>
    Set_root (set_addr_iid be (slice 2 8 (uip_buf s) @ replicate 8 0)) \<in>
      set (br_out (router (slip_input_callback e be s))) \<and>
    br_step b be Br_timer (Awaiting_prefix, router (slip_input_callback e be s)) =
      Inr (Running, br_start_running b be (router (slip_input_callback e be s)))"
proof -
  have "splice 0 (slice 2 8 (uip_buf s)) (replicate 16 0) = slice 2 8 (uip_buf s) @ replicate 8 0"
    using assms(3) by (simp add: splice_def)
  then have "router (slip_input_callback e be s) =
      set_prefix_64 be (slice 2 8 (uip_buf s) @ replicate 8 0) (router s)"
    using assms(1,2) by (simp add: slip_input_callback_def Let_def uip_clear_buf_def)
  then show ?thesis
    by (simp add: br_prefix_loop_def) (simp add: set_prefix_64_def Let_def)
qed

lemma slip_prefix_releases_router_witness:
  "prefix (router (slip_input_callback \<lparr>UIP_LLH_LEN = 0, uip_lladdr = replicate 8 1\<rparr>
      \<lparr>clock_time = 0, set_addr_iid = (\<lambda>a. a), set_root_ok = True, addr_list = []\<rparr>
      (sample_slip CHR ''!'' CHR ''P''))) = replicate 8 7 @ replicate 8 0"
  using slip_prefix_releases_router [of "sample_slip CHR ''!'' CHR ''P''"
      "\<lparr>UIP_LLH_LEN = 0, uip_lladdr = replicate 8 1\<rparr>"
      "\<lparr>clock_time = 0, set_addr_iid = (\<lambda>a. a), set_root_ok = True, addr_list = []\<rparr>" shipped_build]
  by (simp add: sample_slip_def slice_def)



end
