(* ===== verification/C_Strings.thy ===== *)
theory C_Strings
  imports Prelude
begin

text \<open>
  The functions of the C library the verifier's parser uses, on strings without
  the terminating zero: \<open>strtok\<close>, \<open>strstr\<close>, \<open>strncmp\<close>, \<open>strcspn\<close>, \<open>atoi\<close>.
\<close>

text \<open>The token and what is left for the next call, \<open>None\<close> for a null pointer.\<close>

definition strtok :: "string \<Rightarrow> string \<Rightarrow> (string \<times> string) option" where
  "strtok s delim =
     (let s = dropWhile (\<lambda>c. c \<in> set delim) s;
          tok = takeWhile (\<lambda>c. c \<notin> set delim) s
      in if s = [] then None else Some (tok, drop (length tok + 1) s))"

fun starts_with :: "string \<Rightarrow> string \<Rightarrow> bool" where
  "starts_with [] hay = True"
| "starts_with (c # cs) [] = False"
| "starts_with (c # cs) (d # ds) = (c = d \<and> starts_with cs ds)"

text \<open>Is \<open>strstr(hay, needle)\<close> different from null?\<close>

fun strstr :: "string \<Rightarrow> string \<Rightarrow> bool" where
  "strstr [] needle = starts_with needle []"
| "strstr (c # cs) needle = (starts_with needle (c # cs) \<or> strstr cs needle)"

definition strncmp_eq :: "string \<Rightarrow> string \<Rightarrow> nat \<Rightarrow> bool" where
  "strncmp_eq a b n \<longleftrightarrow> take n a = take n b"

definition cut_newline :: "string \<Rightarrow> string" where
  "cut_newline s = takeWhile (\<lambda>c. c \<noteq> CHR 0x0A) s"

text \<open>
  \<open>fgets(line, n, fp)\<close>: the line it reads, its newline kept, and what is left of
  the file; \<open>None\<close> for the null pointer at the end of the file.
\<close>

definition fgets :: "nat \<Rightarrow> string \<Rightarrow> (string \<times> string) option" where
  "fgets n s =
     (let room = take (n - 1) s;
          k = length (takeWhile (\<lambda>c. c \<noteq> CHR 0x0A) room) + 1
      in if room = [] then None else Some (take k room, drop (length (take k room)) s))"

definition is_space :: "char \<Rightarrow> bool" where
  "is_space c \<longleftrightarrow> of_char c \<in> {9, 10, 11, 12, 13, 32 :: nat}"

definition is_digit :: "char \<Rightarrow> bool" where
  "is_digit c \<longleftrightarrow> (48 :: nat) \<le> of_char c \<and> of_char c \<le> (57 :: nat)"

fun digits_value :: "int \<Rightarrow> string \<Rightarrow> int" where
  "digits_value acc [] = acc"
| "digits_value acc (c # cs) =
     (if is_digit c then digits_value (10 * acc + (of_char c - 48)) cs else acc)"

definition atoi :: "string \<Rightarrow> int" where
  "atoi s =
     (case dropWhile is_space s of
        [] \<Rightarrow> 0
      | c # cs \<Rightarrow> if c = CHR ''-'' then - digits_value 0 cs
                 else if c = CHR ''+'' then digits_value 0 cs
                 else digits_value 0 (c # cs))"

lemma fgets_rest_length: "fgets n s = Some (l, r) \<Longrightarrow> length r < length s"
  by (cases s) (auto simp: fgets_def Let_def split: if_splits)

lemma fgets_line:
  assumes "CHR 0x0A \<notin> set l" and "length l + 1 < n"
  shows "fgets n (l @ CHR 0x0A # rest) = Some (l @ [CHR 0x0A], rest)"
proof -
  have room: "take (n - 1) (l @ CHR 0x0A # rest) = l @ CHR 0x0A # take (n - 2 - length l) rest"
    using assms(2) by (simp add: take_Cons' numeral_2_eq_2)
  moreover have "takeWhile (\<lambda>c. c \<noteq> CHR 0x0A) (l @ CHR 0x0A # ys) = l" for ys
    using assms(1) by (subst takeWhile_append2) auto
  ultimately show ?thesis
    by (simp add: fgets_def Let_def)
qed

lemma fgets_eof: "fgets n [] = None"
  by (simp add: fgets_def)

lemma starts_with_set: "starts_with needle hay \<Longrightarrow> set needle \<subseteq> set hay"
  by (induction needle hay rule: starts_with.induct) auto

lemma strstr_set: "strstr hay needle \<Longrightarrow> set needle \<subseteq> set hay"
proof (induction hay needle rule: strstr.induct)
  case (1 needle)
  then show ?case using starts_with_set by fastforce
next
  case (2 c cs needle)
  then show ?case using starts_with_set [of needle "c # cs"] by auto
qed

lemma starts_with_append: "starts_with needle (needle @ rest)"
  by (induction needle) auto

lemma strstr_prefix: "strstr (needle @ rest) needle"
  using starts_with_append [of needle rest] by (cases "needle @ rest") auto

lemma cut_newline_line: "CHR 0x0A \<notin> set s \<Longrightarrow> cut_newline (s @ CHR 0x0A # rest) = s"
  unfolding cut_newline_def by (subst takeWhile_append2) auto

lemma cut_newline_id: "CHR 0x0A \<notin> set s \<Longrightarrow> cut_newline s = s"
  by (auto simp: cut_newline_def)

lemma strtok_rest_length: "strtok s d = Some (t, r) \<Longrightarrow> length r < length s"
proof -
  assume "strtok s d = Some (t, r)"
  then have "dropWhile (\<lambda>c. c \<in> set d) s \<noteq> []"
    and "r = drop (length t + 1) (dropWhile (\<lambda>c. c \<in> set d) s)"
    by (auto simp: strtok_def Let_def split: if_splits)
  moreover have "length (dropWhile (\<lambda>c. c \<in> set d) s) \<le> length s"
    by (rule length_dropWhile_le)
  ultimately show ?thesis
    by (cases "dropWhile (\<lambda>c. c \<in> set d) s") auto
qed

lemma strtok_append:
  assumes "tok \<noteq> []" and "set tok \<inter> set delim = {}" and "d \<in> set delim"
  shows "strtok (tok @ d # rest) delim = Some (tok, rest)"
proof -
  have "takeWhile (\<lambda>c. c \<notin> set delim) (tok @ d # rest) = tok"
    using assms by (subst takeWhile_append2) auto
  moreover have "dropWhile (\<lambda>c. c \<in> set delim) (tok @ d # rest) = tok @ d # rest"
    using assms by (cases tok) auto
  ultimately show ?thesis
    using assms(1) by (simp add: strtok_def Let_def)
qed

lemma strtok_last:
  assumes "tok \<noteq> []" and "set tok \<inter> set delim = {}"
  shows "strtok tok delim = Some (tok, [])"
proof -
  have "takeWhile (\<lambda>c. c \<notin> set delim) tok = tok"
    using assms(2) by (intro takeWhile_eq_all_conv [THEN iffD2]) auto
  moreover have "dropWhile (\<lambda>c. c \<in> set delim) tok = tok"
    using assms by (cases tok) auto
  ultimately show ?thesis
    unfolding strtok_def Let_def using assms(1) by (simp del: takeWhile_eq_all_conv)
qed

lemma strtok_skip: "d \<in> set delim \<Longrightarrow> strtok (d # s) delim = strtok s delim"
  by (simp add: strtok_def)

subsection \<open>Decimal numbers\<close>

fun decimal :: "nat \<Rightarrow> string" where
  "decimal n = (if n < 10 then [char_of (48 + n)] else decimal (n div 10) @ [char_of (48 + n mod 10)])"

declare decimal.simps [simp del]

lemma of_char_digit_nat: "n < 10 \<Longrightarrow> (of_char (char_of (48 + n :: nat)) :: nat) = 48 + n"
  by (simp only: of_char_of) simp

lemma of_char_digit: "n < 10 \<Longrightarrow> (of_char (char_of (48 + n :: nat)) :: int) = 48 + int n"
  by (metis of_char_digit_nat of_nat_of_char of_nat_add of_nat_numeral)

lemma is_digit_digit: "n < 10 \<Longrightarrow> is_digit (char_of (48 + n :: nat))"
  by (simp add: is_digit_def of_char_digit_nat)

lemma decimal_digits: "\<forall>c\<in>set (decimal n). is_digit c"
proof (induction n rule: decimal.induct)
  case (1 n)
  then show ?case by (subst decimal.simps) (auto simp: is_digit_digit)
qed

lemma decimal_not_Nil: "decimal n \<noteq> []"
  by (subst decimal.simps) simp

lemma digits_value_append:
  "\<forall>c\<in>set xs. is_digit c \<Longrightarrow> digits_value acc (xs @ ys) = digits_value (digits_value acc xs) ys"
  by (induction xs arbitrary: acc) auto

lemma digits_value_decimal: "digits_value 0 (decimal n) = int n"
proof (induction n rule: decimal.induct)
  case (1 n)
  show ?case
  proof (cases "n < 10")
    case True
    then show ?thesis by (subst decimal.simps) (simp add: is_digit_digit of_char_digit)
  next
    case False
    with 1 show ?thesis
      by (subst decimal.simps)
        (simp add: digits_value_append decimal_digits is_digit_digit of_char_digit, presburger)
  qed
qed

lemma atoi_decimal:
  assumes "rest = [] \<or> \<not> is_digit (hd rest)"
  shows "atoi (decimal n @ rest) = int n"
proof -
  obtain c cs where d: "decimal n = c # cs" using decimal_not_Nil by (cases "decimal n") auto
  have "is_digit c" using decimal_digits [of n] d by simp
  then have c: "\<not> is_space c" "c \<noteq> CHR ''-''" "c \<noteq> CHR ''+''"
    by (auto simp: is_digit_def is_space_def)
  have "digits_value v rest = v" for v
    using assms by (cases rest) auto
  then have "digits_value 0 (decimal n @ rest) = int n"
    by (simp add: digits_value_append decimal_digits digits_value_decimal)
  then show ?thesis using c d by (simp add: atoi_def)
qed

lemma length_decimal: "n < 1000 \<Longrightarrow> length (decimal n) \<le> 3"
  by (subst decimal.simps, simp, subst decimal.simps, simp, subst decimal.simps, simp)

lemma not_in_decimal: "\<not> is_digit c \<Longrightarrow> c \<notin> set (decimal n)"
  using decimal_digits by blast

lemma separators_not_digits [simp]:
  "\<not> is_digit (CHR 0x09)" "\<not> is_digit (CHR 0x0A)" "\<not> is_digit (CHR '' '')"
  "\<not> is_digit (CHR '','')"
  by (simp_all add: is_digit_def)

end
