(* ===== verification/Verifier.thy ===== *)
theory Verifier
  imports Packets C_Strings
begin

text \<open>
  \<open>verifier/sec_server.c\<close>: the host program that polls nodes for the second
  round. It reads the table of node ids and addresses, then one line of node ids
  after the other; for each line it starts the border router's clock, polls the
  nodes one by one, each after the response of the one before, and stops the
  clock when as many packets have arrived as the line has nodes.
  Files are strings, addresses the text that \<open>inet_pton\<close> and \<open>inet_ntop\<close> map,
  the datagrams sent and the responses printed are the output.
\<close>

subsection \<open>State\<close>

definition MAX_NODES :: nat where "MAX_NODES = 5"
definition INET6_ADDRSTRLEN :: nat where "INET6_ADDRSTRLEN = 46"
definition LINE_SIZE :: nat where "LINE_SIZE = 1000"
definition NODE_ADDRS :: nat where "NODE_ADDRS = 150"

record v_req_pkt =
  v_req_type :: u8
  v_size :: u8
  node_addr :: "u8 list"

record v_request_packet =
  v_pkt_type :: u8
  v_run_count :: u8

record node_id_addr_mapp =
  nm_id :: u8
  nm_addr :: string

datatype v_output =
    Datagram string v_request_packet
  | Reply string u8 u64
  | Done

record verifier =
  sec_client_count :: int
  run_no :: int
  node_index :: nat
  sent_id :: int
  serv_addr :: string
  fp :: string  \<comment> \<open>what is left of the open file\<close>
  start_sent :: bool
  num_nodes :: nat
  local_rpkt :: v_req_pkt
  node_map :: "node_id_addr_mapp list"
  recv_count :: int
  spkt1 :: v_request_packet
  v_out :: "v_output list"

datatype v_stop =
    Crash fault
  | Exited nat "v_output list"

type_synonym 'a v_res = "v_stop + 'a"

fun or_crash :: "'a res \<Rightarrow> 'a v_res" where
  "or_crash (Inl e) = Inl (Crash e)"
| "or_crash (Inr x) = Inr x"

definition v_emit :: "v_output \<Rightarrow> verifier \<Rightarrow> verifier" where
  "v_emit f s = s\<lparr>v_out := v_out s @ [f]\<rparr>"

definition zero_rpkt :: v_req_pkt where
  "zero_rpkt = \<lparr>v_req_type = 0, v_size = 0, node_addr = replicate NODE_ADDRS 0\<rparr>"

definition initial_verifier :: verifier where
  "initial_verifier = \<lparr>sec_client_count = 0, run_no = 0, node_index = 0, sent_id = 0,
     serv_addr = ''fd00::a469'', fp = [], start_sent = False, num_nodes = 0, local_rpkt = zero_rpkt,
     node_map = replicate MAX_NODES \<lparr>nm_id = 0, nm_addr = []\<rparr>, recv_count = 0,
     spkt1 = \<lparr>v_pkt_type = 0, v_run_count = 0\<rparr>, v_out = []\<rparr>"

text \<open>
  \<open>current_timestamp\<close>: the milliseconds it prints for the seconds and microseconds
  of \<open>gettimeofday\<close>. The program prints them once, before it reads the first line.
\<close>

definition current_timestamp :: "int \<Rightarrow> int \<Rightarrow> int" where
  "current_timestamp tv_sec tv_usec = tv_sec * 1000 + tv_usec div 1000"

subsection \<open>The table of nodes\<close>

definition v_get_id_from_addr :: "verifier \<Rightarrow> string \<Rightarrow> int" where
  "v_get_id_from_addr s a =
     (case find (\<lambda>m. strncmp_eq a (nm_addr m) 10) (take (num_nodes s) (node_map s)) of
        None \<Rightarrow> 0
      | Some m \<Rightarrow> uint (nm_id m))"

text \<open>
  The loop goes through the whole table, so that the last entry with the id
  counts; with no such entry the buffer keeps what \<open>malloc\<close> returned.
\<close>

fun addr_loop :: "node_id_addr_mapp list \<Rightarrow> u8 \<Rightarrow> string option \<Rightarrow> string option" where
  "addr_loop [] nid a = a"
| "addr_loop (m # ms) nid a = addr_loop ms nid (if nm_id m = nid then Some (nm_addr m) else a)"

definition v_get_addr_from_id :: "verifier \<Rightarrow> u8 \<Rightarrow> string option" where
  "v_get_addr_from_id s nid = addr_loop (take (num_nodes s) (node_map s)) nid None"

definition second_token :: "string \<Rightarrow> string \<Rightarrow> string option" where
  "second_token line delim =
     (case strtok line delim of
        None \<Rightarrow> None
      | Some (t, rest) \<Rightarrow> (case strtok rest delim of None \<Rightarrow> None | Some (t', _) \<Rightarrow> Some t'))"

definition TAB :: string where "TAB = [CHR 0x09]"

text \<open>One line of \<open>node_id_addr.txt\<close>, into \<open>map[map_loc]\<close>.\<close>

definition map_line :: "string \<Rightarrow> verifier \<Rightarrow> verifier res" where
  "map_line line s =
     (case strtok line TAB of
        None \<Rightarrow> Inl Null_pointer
      | Some (t, rest) \<Rightarrow>
          rbind (arr_get (node_map s) (num_nodes s)) (\<lambda>m.
            case strtok rest TAB of
              None \<Rightarrow> Inl Null_pointer
            | Some (a, _) \<Rightarrow>
                if INET6_ADDRSTRLEN \<le> length a then Inl Out_of_bounds
                else Inr (s\<lparr>node_map := (node_map s)[num_nodes s :=
                              \<lparr>nm_id = word_of_int (atoi t), nm_addr = a\<rparr>],
                            num_nodes := num_nodes s + 1\<rparr>)))"

function load_map :: "string \<Rightarrow> verifier \<Rightarrow> verifier res" where
  "load_map file s =
     (case fgets LINE_SIZE file of
        None \<Rightarrow> Inr s
      | Some (line, rest) \<Rightarrow> rbind (map_line line s) (load_map rest))"
  by auto
termination
  by (relation "measure (length \<circ> fst)") (auto dest: fgets_rest_length)

declare load_map.simps [simp del]

subsection \<open>Sending requests\<close>

definition second_udp_send :: "(nat \<Rightarrow> bool) \<Rightarrow> v_request_packet \<Rightarrow> string \<Rightarrow> verifier
    \<Rightarrow> verifier v_res" where
  "second_udp_send sendto_ok spkt addr s =
     (if sendto_ok (length (v_out s)) then Inr (v_emit (Datagram (cut_newline addr) spkt) s)
      else Inl (Exited 4 (v_out s)))"

definition send_req_single_node :: "(nat \<Rightarrow> bool) \<Rightarrow> verifier \<Rightarrow> verifier v_res" where
  "send_req_single_node sendto_ok s =
     (let spkt = \<lparr>v_pkt_type = SECOND_ROUND, v_run_count = word_of_int (run_no s)\<rparr>
      in rbind (or_crash (arr_get (node_addr (local_rpkt s)) (node_index s))) (\<lambda>nid.
           let addr = v_get_addr_from_id s nid;
               s = s\<lparr>sent_id := uint nid\<rparr>
           in if nid = 0 then Inr s
              else case addr of
                None \<Rightarrow> Inl (Crash Uninitialised)
              | Some a \<Rightarrow> rbind (second_udp_send sendto_ok spkt a s) (\<lambda>s.
                  Inr (s\<lparr>node_index := node_index s + 1\<rparr>))))"

definition send_unicast_second_round_req :: "(nat \<Rightarrow> bool) \<Rightarrow> v_req_pkt \<Rightarrow> verifier
    \<Rightarrow> verifier v_res" where
  "send_unicast_second_round_req sendto_ok rpkt s =
     rbind
       (if start_sent s then Inr s
        else
          (let spkt = \<lparr>v_pkt_type = SECOND_TIME_START, v_run_count = word_of_int (run_no s)\<rparr>
           in rbind (second_udp_send sendto_ok spkt (serv_addr s) s) (\<lambda>s.
                Inr (s\<lparr>start_sent := True\<rparr>))))
       (\<lambda>s. send_req_single_node sendto_ok (s\<lparr>local_rpkt := rpkt, node_index := 0\<rparr>))"

subsection \<open>Reading a session\<close>

function fill_nodes :: "string \<Rightarrow> nat \<Rightarrow> u8 list \<Rightarrow> (nat \<times> u8 list) res" where
  "fill_nodes line i addrs =
     (case strtok line '', '' of
        None \<Rightarrow> Inr (i, addrs)
      | Some (token, rest) \<Rightarrow>
          rbind (arr_set addrs i (word_of_int (atoi token))) (\<lambda>addrs. fill_nodes rest (i + 1) addrs))"
  by auto
termination
  by (relation "measure (length \<circ> fst)") (auto dest: strtok_rest_length)

declare fill_nodes.simps [simp del]

definition node_line_req :: "(nat \<Rightarrow> bool) \<Rightarrow> v_req_pkt \<Rightarrow> string \<Rightarrow> verifier \<Rightarrow> verifier v_res" where
  "node_line_req sendto_ok rpkt line s =
     rbind (or_crash (fill_nodes line 0 (node_addr rpkt))) (\<lambda>(n, addrs).
       send_unicast_second_round_req sendto_ok (rpkt\<lparr>node_addr := addrs, v_size := of_nat n\<rparr>)
         (s\<lparr>sec_client_count := int n\<rparr>))"

text \<open>
  The loop of \<open>read_line_send_req\<close>; the result tells whether a line of nodes was
  found.
\<close>

function read_line_loop :: "(nat \<Rightarrow> bool) \<Rightarrow> v_req_pkt \<Rightarrow> string \<Rightarrow> verifier
    \<Rightarrow> (bool \<times> verifier) v_res" where
  "read_line_loop sendto_ok rpkt file s =
     (case fgets LINE_SIZE file of
        None \<Rightarrow> Inr (False, s\<lparr>fp := []\<rparr>)
      | Some (line, rest) \<Rightarrow>
          if strstr line ''Run_no'' then
            (case second_token line '': '' of
               None \<Rightarrow> Inl (Crash Null_pointer)
             | Some t \<Rightarrow> read_line_loop sendto_ok rpkt rest (s\<lparr>run_no := atoi t\<rparr>))
          else if strstr line ''faulty_nodes'' then
            (case second_token line '': '' of
               None \<Rightarrow> Inl (Crash Null_pointer)
             | Some t \<Rightarrow> read_line_loop sendto_ok rpkt rest s)
          else if strstr line ''****'' then read_line_loop sendto_ok rpkt rest s
          else rbind (node_line_req sendto_ok rpkt line (s\<lparr>fp := rest\<rparr>)) (\<lambda>s. Inr (True, s)))"
  by auto
termination
  by (relation "measure (\<lambda>(ok, rpkt, file, s). length file)") (auto dest: fgets_rest_length)

declare read_line_loop.simps [simp del]

definition read_line_send_req :: "(nat \<Rightarrow> bool) \<Rightarrow> verifier \<Rightarrow> (bool \<times> verifier) v_res" where
  "read_line_send_req sendto_ok s =
     read_line_loop sendto_ok (zero_rpkt\<lparr>v_req_type := SECOND_ROUND\<rparr>) (fp s) s"

subsection \<open>The main program\<close>

definition v_main :: "(nat \<Rightarrow> bool) \<Rightarrow> string option \<Rightarrow> string option \<Rightarrow> verifier v_res" where
  "v_main sendto_ok map_file run_file =
     (case map_file of
        None \<Rightarrow> Inl (Crash Null_pointer)
      | Some table \<Rightarrow>
          rbind (or_crash (load_map table initial_verifier)) (\<lambda>s.
            case run_file of
              None \<Rightarrow> send_unicast_second_round_req sendto_ok
                        (zero_rpkt\<lparr>v_req_type := SECOND_ROUND, v_size := 1,
                           node_addr := (replicate NODE_ADDRS 0)[0 := 6]\<rparr>) s
            | Some runs \<Rightarrow>
                rbind (read_line_send_req sendto_ok (s\<lparr>fp := runs\<rparr>)) (\<lambda>(found, s).
                  if found then Inr s else Inl (Exited 0 (v_out s @ [Done])))))"

text \<open>The program: without a socket, or when it cannot be bound, nothing is sent.\<close>

definition v_program ::
  "bool \<Rightarrow> bool \<Rightarrow> (nat \<Rightarrow> bool) \<Rightarrow> string option \<Rightarrow> string option \<Rightarrow> verifier v_res" where
  "v_program socket_ok bind_ok sendto_ok map_file run_file =
     (if \<not> socket_ok then Inl (Exited 1 [])
      else if \<not> bind_ok then Inl (Exited 1 [])
      else v_main sendto_ok map_file run_file)"

text \<open>One turn of \<open>while(1)\<close>: a response arrives, or \<open>recvfrom\<close> fails.\<close>

datatype v_event =
    Response string sec_rnd_resp
  | Recv_error

fun v_turn :: "(nat \<Rightarrow> bool) \<Rightarrow> v_event \<Rightarrow> verifier \<Rightarrow> verifier v_res" where
  "v_turn sendto_ok Recv_error s = Inl (Exited 4 (v_out s))"
| "v_turn sendto_ok (Response addrbuf response) s =
     (let s = s\<lparr>recv_count := recv_count s + 1\<rparr>;
          s = v_emit (Reply addrbuf (sr_max_index response) (sr_checksum response)) s
      in if sec_client_count s = recv_count s then
           let s = s\<lparr>spkt1 := \<lparr>v_pkt_type = SECOND_TIME_STOP, v_run_count = word_of_int (run_no s)\<rparr>\<rparr>
           in rbind (second_udp_send sendto_ok (spkt1 s) (serv_addr s) s) (\<lambda>s.
              let s = s\<lparr>recv_count := 0\<rparr>
              in rbind (read_line_send_req sendto_ok s) (\<lambda>(found, s).
                   if found then Inr s
                   else
                     let s = v_emit Done s;
                         s = s\<lparr>spkt1 := (spkt1 s)\<lparr>v_pkt_type := SECOND_TIME_DONE\<rparr>\<rparr>
                     in rbind (second_udp_send sendto_ok (spkt1 s) (serv_addr s) s) (\<lambda>s.
                          Inl (Exited 0 (v_out s)))))
         else if sent_id s = v_get_id_from_addr s addrbuf then send_req_single_node sendto_ok s
         else Inr s)"

fun v_turns :: "(nat \<Rightarrow> bool) \<Rightarrow> v_event list \<Rightarrow> verifier \<Rightarrow> verifier v_res" where
  "v_turns sendto_ok [] s = Inr s"
| "v_turns sendto_ok (ev # evs) s = rbind (v_turn sendto_ok ev s) (v_turns sendto_ok evs)"

end
