(* ===== verification/Verifier_Facts.thy ===== *)
theory Verifier_Facts
  imports Verifier
begin

text \<open>
  What \<open>sec_server.c\<close> does with well-formed files: the table it builds from
  \<open>node_id_addr.txt\<close>, the polling order of a session, and how sessions follow each
  other.
\<close>

subsection \<open>The table of nodes\<close>

definition NL :: string where "NL = [CHR 0x0A]"

definition table_line :: "u8 \<times> string \<Rightarrow> string" where
  "table_line e = decimal (unat (fst e)) @ TAB @ snd e @ NL"

definition table_entry :: "u8 \<times> string \<Rightarrow> node_id_addr_mapp" where
  "table_entry e = \<lparr>nm_id = fst e, nm_addr = snd e @ NL\<rparr>"

lemma table_entry_simps [simp]:
  "nm_id (table_entry e) = fst e" "nm_addr (table_entry e) = snd e @ NL"
  by (simp_all add: table_entry_def)

definition ok_addr :: "string \<Rightarrow> bool" where
  "ok_addr a \<longleftrightarrow> a \<noteq> [] \<and> CHR 0x09 \<notin> set a \<and> CHR 0x0A \<notin> set a \<and> length a + 1 < INET6_ADDRSTRLEN"

lemma fgets_table_line:
  assumes "ok_addr (snd e)"
  shows "fgets LINE_SIZE (table_line e @ rest) = Some (table_line e, rest)"
proof -
  let ?l = "decimal (unat (fst e)) @ TAB @ snd e"
  have "length (decimal (unat (fst e))) \<le> 3"
    using unat_u8_less [of "fst e"] by (intro length_decimal) linarith
  then have "length ?l + 1 < LINE_SIZE" and "CHR 0x0A \<notin> set ?l"
    using assms by (auto simp: ok_addr_def TAB_def LINE_SIZE_def INET6_ADDRSTRLEN_def not_in_decimal)
  from fgets_line [OF this(2,1), of rest] show ?thesis
    by (simp add: table_line_def NL_def)
qed

lemma map_line_table:
  assumes "ok_addr (snd e)"
  shows "map_line (table_line e) s =
    (if num_nodes s < length (node_map s)
     then Inr (s\<lparr>node_map := (node_map s)[num_nodes s := table_entry e], num_nodes := num_nodes s + 1\<rparr>)
     else Inl Out_of_bounds)"
proof -
  let ?d = "decimal (unat (fst e))"
  have "strtok (?d @ CHR 0x09 # snd e @ NL) TAB = Some (?d, snd e @ NL)"
    by (rule strtok_append) (auto simp: decimal_not_Nil TAB_def not_in_decimal)
  then have line: "strtok (table_line e) TAB = Some (?d, snd e @ NL)"
    by (simp add: table_line_def TAB_def)
  have "strtok (snd e @ NL) TAB = Some (snd e @ NL, [])"
    using assms by (intro strtok_last) (auto simp: ok_addr_def TAB_def NL_def)
  moreover have "\<not> INET6_ADDRSTRLEN \<le> length (snd e @ NL)"
    using assms by (simp add: ok_addr_def NL_def)
  moreover have "atoi ?d = int (unat (fst e))"
    using atoi_decimal [of "[]"] by simp
  ultimately show ?thesis
    by (simp add: map_line_def line arr_get_def table_entry_def)
qed

lemma load_map_lines:
  assumes "\<forall>e\<in>set es. ok_addr (snd e)" and "num_nodes s \<le> length (node_map s)"
  shows "load_map (concat (map table_line es)) s =
    (if num_nodes s + length es \<le> length (node_map s)
     then Inr (s\<lparr>node_map := splice (num_nodes s) (map table_entry es) (node_map s),
                 num_nodes := num_nodes s + length es\<rparr>)
     else Inl Out_of_bounds)"
  using assms
proof (induction es arbitrary: s)
  case Nil
  then show ?case by (subst load_map.simps) (simp add: fgets_eof)
next
  case (Cons e es)
  show ?case
  proof (cases "num_nodes s < length (node_map s)")
    case True
    with Cons show ?thesis
      by (subst load_map.simps)
        (simp add: fgets_table_line map_line_table splice_update [of "num_nodes s", simplified])
  next
    case False
    with Cons.prems show ?thesis
      by (subst load_map.simps) (simp add: fgets_table_line map_line_table)
  qed
qed

text \<open>The table of the shipped \<open>node_id_addr.txt\<close>.\<close>

definition shipped_table :: "(u8 \<times> string) list" where
  "shipped_table =
     [(109, ''fd00::1062''), (112, ''fd00::a578''), (113, ''fd00::a671''), (116, ''fd00::8969''),
      (117, ''fd00::2262''), (120, ''fd00::a469''), (121, ''fd00::8572''), (124, ''fd00::9772''),
      (125, ''fd00::9672''), (128, ''fd00::9980'')]"

subsection \<open>Looking up ids and addresses\<close>

definition has_table :: "(u8 \<times> string) list \<Rightarrow> verifier \<Rightarrow> bool" where
  "has_table es s \<longleftrightarrow> num_nodes s = length es \<and> take (length es) (node_map s) = map table_entry es"

lemma addr_loop_unknown:
  "nid \<notin> fst ` set es \<Longrightarrow> addr_loop (map table_entry es) nid y = y"
  by (induction es arbitrary: y) auto

lemma addr_loop_table:
  "distinct (map fst es) \<Longrightarrow> (nid, a) \<in> set es \<Longrightarrow> addr_loop (map table_entry es) nid x = Some (a @ NL)"
proof (induction es arbitrary: x)
  case Nil
  then show ?case by simp
next
  case (Cons e es)
  show ?case
  proof (cases "(nid, a) \<in> set es")
    case True
    with Cons show ?thesis by simp
  next
    case False
    with Cons.prems have e: "e = (nid, a)" and "fst e \<notin> fst ` set es" by auto
    then have "addr_loop (map table_entry es) nid (Some (a @ NL)) = Some (a @ NL)"
      by (intro addr_loop_unknown) simp
    then show ?thesis by (simp add: e)
  qed
qed

lemma v_get_addr_from_id_table:
  assumes "has_table es s" and "distinct (map fst es)" and "(nid, a) \<in> set es"
  shows "v_get_addr_from_id s nid = Some (a @ NL)"
  using assms by (simp add: v_get_addr_from_id_def has_table_def addr_loop_table)

text \<open>
  \<open>get_id_from_addr\<close> compares ten characters: the addresses of the testbed
  have at least ten, and the first ten tell them apart.
\<close>

definition ten_apart :: "(u8 \<times> string) list \<Rightarrow> bool" where
  "ten_apart es \<longleftrightarrow> distinct (map fst es) \<and> distinct (map (\<lambda>e. take 10 (snd e)) es)
     \<and> (\<forall>e\<in>set es. 10 \<le> length (snd e) \<and> ok_addr (snd e))"

lemma find_table:
  assumes "distinct (map (\<lambda>e. take 10 (snd e)) es)" and "\<forall>e\<in>set es. 10 \<le> length (snd e)"
    and "(nid, a) \<in> set es"
  shows "find (\<lambda>m. strncmp_eq a (nm_addr m) 10) (map table_entry es) = Some (table_entry (nid, a))"
  using assms
proof (induction es)
  case Nil
  then show ?case by simp
next
  case (Cons e es)
  show ?case
  proof (cases "take 10 a = take 10 (snd e)")
    case True
    then have "e = (nid, a)"
      using Cons.prems by (cases e) (force simp: image_iff)
    then show ?thesis
      using Cons.prems by (simp add: strncmp_eq_def)
  next
    case False
    with Cons show ?thesis by (auto simp: strncmp_eq_def)
  qed
qed

lemma v_get_id_from_addr_table:
  assumes "has_table es s" and "ten_apart es" and "(nid, a) \<in> set es"
  shows "v_get_id_from_addr s a = uint nid"
  using assms find_table [of es nid a]
  by (simp add: v_get_id_from_addr_def has_table_def ten_apart_def)


subsection \<open>Lines of node ids\<close>

fun node_line :: "u8 list \<Rightarrow> string" where
  "node_line [] = NL"
| "node_line [n] = decimal (unat n) @ NL"
| "node_line (n # m # ns) = decimal (unat n) @ '', '' @ node_line (m # ns)"

lemma node_line_body:
  "\<exists>b. node_line ns = b @ NL \<and> CHR 0x0A \<notin> set b \<and> length b \<le> 5 * length ns
     \<and> (\<forall>c\<in>set b. is_digit c \<or> c = CHR '','' \<or> c = CHR '' '')"
proof (induction ns rule: node_line.induct)
  case (2 n)
  have "length (decimal (unat n)) \<le> 3"
    using unat_u8_less [of n] by (intro length_decimal) linarith
  then show ?case
    by (intro exI [of _ "decimal (unat n)"]) (use decimal_digits in \<open>auto simp: not_in_decimal\<close>)
next
  case (3 n m ns)
  then obtain b where b: "node_line (m # ns) = b @ NL" "CHR 0x0A \<notin> set b"
    "length b \<le> 5 * length (m # ns)" "\<forall>c\<in>set b. is_digit c \<or> c = CHR '','' \<or> c = CHR '' ''"
    by blast
  have "length (decimal (unat n)) \<le> 3"
    using unat_u8_less [of n] by (intro length_decimal) linarith
  with b show ?case
    by (intro exI [of _ "decimal (unat n) @ '', '' @ b"])
      (use decimal_digits in \<open>auto simp: not_in_decimal\<close>)
qed simp

lemma fgets_node_line:
  assumes "length ns \<le> NODE_ADDRS"
  shows "fgets LINE_SIZE (node_line ns @ rest) = Some (node_line ns, rest)"
proof -
  obtain b where b: "node_line ns = b @ NL" "CHR 0x0A \<notin> set b" "length b \<le> 5 * length ns"
    using node_line_body by blast
  with assms have "length b + 1 < LINE_SIZE" by (simp add: NODE_ADDRS_def LINE_SIZE_def)
  from fgets_line [OF b(2) this, of rest] show ?thesis using b(1) by (simp add: NL_def)
qed

lemma node_line_plain:
  "\<not> strstr (node_line ns) ''Run_no''" "\<not> strstr (node_line ns) ''faulty_nodes''"
  "\<not> strstr (node_line ns) ''****''"
proof -
  obtain b where b: "node_line ns = b @ NL"
    "\<forall>c\<in>set b. is_digit c \<or> c = CHR '','' \<or> c = CHR '' ''"
    using node_line_body by blast
  have "CHR ''R'' \<notin> set (node_line ns)" "CHR ''f'' \<notin> set (node_line ns)"
    "CHR ''*'' \<notin> set (node_line ns)"
    using b by (auto simp: NL_def is_digit_def)
  then show "\<not> strstr (node_line ns) ''Run_no''" "\<not> strstr (node_line ns) ''faulty_nodes''"
    "\<not> strstr (node_line ns) ''****''"
    by (auto dest!: strstr_set)
qed

lemma fill_nodes_skip: "fill_nodes (CHR '' '' # l) i addrs = fill_nodes l i addrs"
  by (subst (1 2) fill_nodes.simps) (simp add: strtok_skip)

lemma fill_nodes_line:
  assumes "ns \<noteq> []" and "i \<le> length addrs"
  shows "fill_nodes (node_line ns) i addrs =
    (if i + length ns \<le> length addrs then Inr (i + length ns, splice i ns addrs)
     else Inl Out_of_bounds)"
  using assms
proof (induction ns arbitrary: i addrs rule: node_line.induct)
  case (2 n)
  have "strtok (decimal (unat n) @ NL) '', '' = Some (decimal (unat n) @ NL, [])"
    by (rule strtok_last) (auto simp: decimal_not_Nil NL_def not_in_decimal)
  moreover have "atoi (decimal (unat n) @ NL) = uint n"
    using atoi_decimal [of NL] by (simp add: NL_def)
  moreover have "fill_nodes [] j xs = Inr (j, xs)" for j xs
    by (subst fill_nodes.simps) (simp add: strtok_def)
  ultimately show ?case
    using 2 splice_update [of i addrs "[]"]
    by (subst fill_nodes.simps) (auto simp: arr_set_def)
next
  case (3 n m ns)
  let ?l = "node_line (m # ns)"
  have "strtok (decimal (unat n) @ CHR '','' # CHR '' '' # ?l) '', '' =
      Some (decimal (unat n), CHR '' '' # ?l)"
    by (rule strtok_append) (auto simp: decimal_not_Nil not_in_decimal)
  moreover have "atoi (decimal (unat n)) = uint n"
    using atoi_decimal [of "[]"] by simp
  ultimately show ?case
    using 3 splice_update [of i addrs "m # ns"]
    by (subst fill_nodes.simps) (auto simp: arr_set_def fill_nodes_skip)
qed simp


subsection \<open>Reading the description of a run\<close>

definition stars :: string where "stars = replicate 28 (CHR ''*'') @ NL"

definition run_no_line :: "u8 \<Rightarrow> string" where
  "run_no_line k = ''Run_no: '' @ decimal (unat k) @ NL"

definition run_text :: "u8 \<times> u8 list \<Rightarrow> string" where
  "run_text r = stars @ run_no_line (fst r) @ node_line (snd r)"

definition node_req :: "u8 list \<Rightarrow> v_req_pkt" where
  "node_req ns = \<lparr>v_req_type = SECOND_ROUND, v_size = of_nat (length ns),
     node_addr = splice 0 ns (replicate NODE_ADDRS 0)\<rparr>"

definition node_address :: "(u8 \<times> string) list \<Rightarrow> u8 \<Rightarrow> string" where
  "node_address es n = (case map_of es n of Some a \<Rightarrow> a | None \<Rightarrow> [])"

definition start_pkt :: "u8 \<Rightarrow> v_output" where
  "start_pkt k = Datagram ''fd00::a469'' \<lparr>v_pkt_type = SECOND_TIME_START, v_run_count = k\<rparr>"

definition stop_pkt :: "u8 \<Rightarrow> v_output" where
  "stop_pkt k = Datagram ''fd00::a469'' \<lparr>v_pkt_type = SECOND_TIME_STOP, v_run_count = k\<rparr>"

definition done_pkt :: "u8 \<Rightarrow> v_output" where
  "done_pkt k = Datagram ''fd00::a469'' \<lparr>v_pkt_type = SECOND_TIME_DONE, v_run_count = k\<rparr>"

definition poll_pkt :: "(u8 \<times> string) list \<Rightarrow> u8 \<Rightarrow> u8 \<Rightarrow> v_output" where
  "poll_pkt es k n = Datagram (node_address es n) \<lparr>v_pkt_type = SECOND_ROUND, v_run_count = k\<rparr>"

text \<open>Runs whose nodes are all in the table and fit the request.\<close>

definition ok_run :: "(u8 \<times> string) list \<Rightarrow> u8 list \<Rightarrow> bool" where
  "ok_run es ns \<longleftrightarrow> ns \<noteq> [] \<and> length ns \<le> NODE_ADDRS \<and> 0 \<notin> set ns \<and> set ns \<subseteq> fst ` set es"

definition serves :: "(u8 \<times> string) list \<Rightarrow> verifier \<Rightarrow> bool" where
  "serves es s \<longleftrightarrow> has_table es s \<and> ten_apart es \<and> serv_addr s = ''fd00::a469''"

abbreviation always :: "nat \<Rightarrow> bool" where
  "always \<equiv> (\<lambda>n. True)"

lemma address_in_table:
  assumes "ten_apart es" and "n \<in> fst ` set es"
  shows "(n, node_address es n) \<in> set es"
  using assms by (force simp: node_address_def ten_apart_def split: option.splits
    dest: map_of_SomeD simp: map_of_eq_None_iff)

lemma serves_simps:
  assumes "serves es s" and "n \<in> fst ` set es"
  shows "v_get_addr_from_id s n = Some (node_address es n @ NL)"
    and "v_get_id_from_addr s (node_address es n) = uint n"
    and "cut_newline (node_address es n @ NL) = node_address es n"
proof -
  have n: "(n, node_address es n) \<in> set es" and es: "has_table es s" "ten_apart es" "distinct (map fst es)"
    using assms address_in_table by (auto simp: serves_def ten_apart_def)
  show "v_get_addr_from_id s n = Some (node_address es n @ NL)"
    using v_get_addr_from_id_table [OF es(1) es(3) n] .
  show "v_get_id_from_addr s (node_address es n) = uint n"
    using v_get_id_from_addr_table [OF es(1,2) n] .
  show "cut_newline (node_address es n @ NL) = node_address es n"
    using n es(2) unfolding NL_def
    by (intro cut_newline_line) (auto simp: ten_apart_def ok_addr_def)
qed

lemma serves_update [simp]:
  "serves es (s\<lparr>sec_client_count := a\<rparr>) = serves es s" "serves es (s\<lparr>run_no := a\<rparr>) = serves es s"
  "serves es (s\<lparr>node_index := i\<rparr>) = serves es s" "serves es (s\<lparr>sent_id := a\<rparr>) = serves es s"
  "serves es (s\<lparr>fp := f\<rparr>) = serves es s" "serves es (s\<lparr>start_sent := b\<rparr>) = serves es s"
  "serves es (s\<lparr>local_rpkt := r\<rparr>) = serves es s" "serves es (s\<lparr>recv_count := a\<rparr>) = serves es s"
  "serves es (s\<lparr>spkt1 := q\<rparr>) = serves es s" "serves es (s\<lparr>v_out := os\<rparr>) = serves es s"
  by (simp_all add: serves_def has_table_def)

lemma send_req_single_node_ok:
  assumes "serves es s" and "node_index s < length (node_addr (local_rpkt s))"
    and "n = node_addr (local_rpkt s) ! node_index s" and "n \<noteq> 0" and "n \<in> fst ` set es"
  shows "send_req_single_node always s = Inr (s\<lparr>sent_id := uint n, node_index := node_index s + 1,
    v_out := v_out s @ [poll_pkt es (word_of_int (run_no s)) n]\<rparr>)"
  using assms serves_simps [OF assms(1) assms(5)]
  by (simp add: send_req_single_node_def second_udp_send_def v_emit_def poll_pkt_def Let_def)

definition after_read :: "(u8 \<times> string) list \<Rightarrow> u8 list \<Rightarrow> string \<Rightarrow> verifier \<Rightarrow> verifier" where
  "after_read es ns rest s = s\<lparr>fp := rest, sec_client_count := int (length ns), start_sent := True,
     local_rpkt := node_req ns, node_index := 1, sent_id := uint (hd ns),
     v_out := v_out s @ (if start_sent s then [] else [start_pkt (word_of_int (run_no s))])
       @ [poll_pkt es (word_of_int (run_no s)) (hd ns)]\<rparr>"

lemma node_line_req_ok:
  assumes "serves es s" and "ok_run es ns"
  shows "node_line_req always (zero_rpkt\<lparr>v_req_type := SECOND_ROUND\<rparr>) (node_line ns) (s\<lparr>fp := rest\<rparr>)
    = Inr (after_read es ns rest s)"
proof -
  obtain n ns' where ns: "ns = n # ns'" and n: "n \<noteq> 0" "n \<in> fst ` set es"
    using assms(2) by (cases ns) (auto simp: ok_run_def)
  have fill: "fill_nodes (node_line ns) 0 (replicate NODE_ADDRS 0)
      = Inr (length ns, splice 0 ns (replicate NODE_ADDRS 0))"
    using assms(2) by (subst fill_nodes_line) (auto simp: ok_run_def)
  have srv: "serv_addr s = ''fd00::a469''" using assms(1) by (simp add: serves_def)
  have "CHR 0x0A \<notin> set ''fd00::a469''" by simp
  then have cut: "cut_newline ''fd00::a469'' = ''fd00::a469''" by (rule cut_newline_id)
  have addrs: "node_addr (node_req ns) ! 0 = n" "0 < length (node_addr (node_req ns))"
    by (simp_all add: node_req_def ns splice_def)
  let ?s = "if start_sent s then s\<lparr>fp := rest, sec_client_count := int (length ns)\<rparr>
    else s\<lparr>fp := rest, sec_client_count := int (length ns),
      v_out := v_out s @ [start_pkt (word_of_int (run_no s))], start_sent := True\<rparr>"
  have step: "send_req_single_node always (?s\<lparr>local_rpkt := node_req ns, node_index := 0\<rparr>)
      = Inr (after_read es ns rest s)"
    using assms(1) addrs n
    by (subst send_req_single_node_ok [of es _ n]) (auto simp: after_read_def ns)
  then show ?thesis
    by (auto simp: node_line_req_def zero_rpkt_def fill send_unicast_second_round_req_def
      second_udp_send_def v_emit_def srv cut start_pkt_def node_req_def Let_def)
qed


lemma fgets_run_no_line: "fgets LINE_SIZE (run_no_line k @ rest) = Some (run_no_line k, rest)"
proof -
  let ?l = "''Run_no: '' @ decimal (unat k)"
  have "length (decimal (unat k)) \<le> 3"
    using unat_u8_less [of k] by (intro length_decimal) linarith
  then have "CHR 0x0A \<notin> set ?l" and "length ?l + 1 < LINE_SIZE"
    by (auto simp: LINE_SIZE_def not_in_decimal)
  from fgets_line [OF this, of rest] show ?thesis by (simp add: run_no_line_def NL_def)
qed

lemma fgets_stars: "fgets LINE_SIZE (stars @ rest) = Some (stars, rest)"
proof -
  have "CHR 0x0A \<notin> set (replicate 28 (CHR ''*''))" and "length (replicate 28 (CHR ''*'')) + 1 < LINE_SIZE"
    by (simp_all add: LINE_SIZE_def)
  from fgets_line [OF this, of rest] show ?thesis by (simp add: stars_def NL_def)
qed

lemma stars_class:
  "\<not> strstr stars ''Run_no''" "\<not> strstr stars ''faulty_nodes''" "strstr stars ''****''"
  by (simp_all add: stars_def NL_def eval_nat_numeral)

lemma run_no_token: "second_token (run_no_line k) '': '' = Some (decimal (unat k) @ NL)"
proof -
  have "strtok (''Run_no'' @ CHR '':'' # CHR '' '' # decimal (unat k) @ NL) '': '' =
      Some (''Run_no'', CHR '' '' # decimal (unat k) @ NL)"
    by (rule strtok_append) auto
  moreover have "strtok (decimal (unat k) @ NL) '': '' = Some (decimal (unat k) @ NL, [])"
  proof (rule strtok_last)
    have "\<not> is_digit (CHR '':'')" by (simp add: is_digit_def)
    then show "set (decimal (unat k) @ NL) \<inter> set '': '' = {}"
      by (auto simp: NL_def not_in_decimal)
  qed (simp add: NL_def)
  ultimately show ?thesis
    by (simp add: second_token_def run_no_line_def strtok_skip)
qed

lemma read_line_loop_run:
  assumes "serves es s" and "ok_run es ns"
  shows "read_line_loop always (zero_rpkt\<lparr>v_req_type := SECOND_ROUND\<rparr>) (run_text (k, ns) @ rest) s
    = Inr (True, after_read es ns rest (s\<lparr>run_no := uint k\<rparr>))"
proof -
  have nodes: "fgets LINE_SIZE (node_line ns @ rest) = Some (node_line ns, rest)"
    using assms(2) by (intro fgets_node_line) (simp add: ok_run_def)
  have "strstr (run_no_line k) ''Run_no''"
    using strstr_prefix [of "''Run_no''"] by (simp add: run_no_line_def)
  moreover have "atoi (decimal (unat k) @ NL) = uint k"
    using atoi_decimal [of NL] by (simp add: NL_def)
  ultimately show ?thesis
    using assms
    by (simp add: run_text_def read_line_loop.simps [of _ _ "stars @ _"]
        read_line_loop.simps [of _ _ "run_no_line k @ _"]
        read_line_loop.simps [of _ _ "node_line ns @ _"]
        fgets_stars stars_class fgets_run_no_line run_no_token nodes node_line_plain node_line_req_ok)
qed

lemma read_line_send_req_run:
  assumes "serves es s" and "ok_run es ns" and "fp s = run_text (k, ns) @ rest"
  shows "read_line_send_req always s = Inr (True, after_read es ns rest (s\<lparr>run_no := uint k\<rparr>))"
  using assms by (simp add: read_line_send_req_def read_line_loop_run)

lemma read_line_send_req_end: "fp s = [] \<Longrightarrow> read_line_send_req ok s = Inr (False, s)"
  by (simp add: read_line_send_req_def read_line_loop.simps fgets_eof)


subsection \<open>Polling\<close>

definition answers :: "(u8 \<times> string) list \<Rightarrow> u8 list \<Rightarrow> sec_rnd_resp list \<Rightarrow> v_event list" where
  "answers es ns rs = map2 (\<lambda>n r. Response (node_address es n) r) ns rs"

definition reply :: "(u8 \<times> string) list \<Rightarrow> u8 \<Rightarrow> sec_rnd_resp \<Rightarrow> v_output" where
  "reply es n r = Reply (node_address es n) (sr_max_index r) (sr_checksum r)"

text \<open>After the first poll: every response is followed by the poll of the next node.\<close>

fun poll_log :: "(u8 \<times> string) list \<Rightarrow> u8 \<Rightarrow> u8 list \<Rightarrow> sec_rnd_resp list \<Rightarrow> v_output list" where
  "poll_log es k (n # m # ns) (r # rs) = reply es n r # poll_pkt es k m # poll_log es k (m # ns) rs"
| "poll_log es k [n] (r # rs) = [reply es n r]"
| "poll_log es k _ _ = []"

text \<open>The branch of the main loop that ends a run.\<close>

definition end_run :: "(nat \<Rightarrow> bool) \<Rightarrow> verifier \<Rightarrow> verifier v_res" where
  "end_run ok s =
     (let s = s\<lparr>spkt1 := \<lparr>v_pkt_type = SECOND_TIME_STOP, v_run_count = word_of_int (run_no s)\<rparr>\<rparr>
      in rbind (second_udp_send ok (spkt1 s) (serv_addr s) s) (\<lambda>s.
         let s = s\<lparr>recv_count := 0\<rparr>
         in rbind (read_line_send_req ok s) (\<lambda>(found, s).
              if found then Inr s
              else
                let s = v_emit Done s;
                    s = s\<lparr>spkt1 := (spkt1 s)\<lparr>v_pkt_type := SECOND_TIME_DONE\<rparr>\<rparr>
                in rbind (second_udp_send ok (spkt1 s) (serv_addr s) s) (\<lambda>s.
                     Inl (Exited 0 (v_out s))))))"

lemma v_turn_end:
  assumes "recv_count s + 1 = sec_client_count s"
  shows "v_turn ok (Response a r) s =
    end_run ok (s\<lparr>recv_count := recv_count s + 1, v_out := v_out s @ [Reply a (sr_max_index r) (sr_checksum r)]\<rparr>)"
  using assms by (simp add: end_run_def v_emit_def Let_def)

lemma v_turn_poll:
  assumes "recv_count s + 1 \<noteq> sec_client_count s"
  shows "v_turn ok (Response a r) s =
    (let s' = s\<lparr>recv_count := recv_count s + 1, v_out := v_out s @ [Reply a (sr_max_index r) (sr_checksum r)]\<rparr>
     in if sent_id s = v_get_id_from_addr s a then send_req_single_node ok s' else Inr s')"
  using assms by (auto simp: v_emit_def Let_def v_get_id_from_addr_def)

declare v_turn.simps [simp del]

definition polling :: "u8 list \<Rightarrow> u8 \<Rightarrow> nat \<Rightarrow> verifier \<Rightarrow> bool" where
  "polling ns k i s \<longleftrightarrow> local_rpkt s = node_req ns \<and> node_index s = i + 1 \<and> sent_id s = uint (ns ! i)
     \<and> recv_count s = int i \<and> sec_client_count s = int (length ns) \<and> run_no s = uint k"

lemma node_req_nth:
  assumes "length ns \<le> NODE_ADDRS" and "i < length ns"
  shows "node_addr (node_req ns) ! i = ns ! i" and "i < length (node_addr (node_req ns))"
  using assms by (simp_all add: node_req_def nth_splice)

lemma polling_step:
  assumes "serves es s" and "ok_run es ns" and "polling ns k i s" and "i + 1 < length ns"
  shows "v_turn always (Response (node_address es (ns ! i)) r) s =
    Inr (s\<lparr>recv_count := int (i + 1), sent_id := uint (ns ! (i + 1)), node_index := i + 2,
           v_out := v_out s @ [reply es (ns ! i) r, poll_pkt es k (ns ! (i + 1))]\<rparr>)"
proof -
  have "ns ! i \<in> set ns" "ns ! (i + 1) \<in> set ns" using assms(4) by auto
  then have i: "ns ! i \<in> fst ` set es" "ns ! (i + 1) \<in> fst ` set es" "ns ! (i + 1) \<noteq> 0"
    using assms(2) unfolding ok_run_def by (blast, blast, metis)
  have nth: "node_addr (node_req ns) ! (i + 1) = ns ! (i + 1)" "i + 1 < length (node_addr (node_req ns))"
    using assms(2,4) by (auto simp: ok_run_def intro: node_req_nth)
  have "recv_count s + 1 \<noteq> sec_client_count s" using assms(3,4) by (auto simp: polling_def)
  from v_turn_poll [OF this] show ?thesis
    using assms(1,3) serves_simps(2) [OF assms(1) i(1)] i nth
    by (simp add: polling_def send_req_single_node_ok [of es _ "ns ! (i + 1)"] reply_def add.commute)
qed

lemma drop_eq_Cons:
  assumes "drop i xs = y # ys"
  shows "i < length xs" "xs ! i = y" "drop (i + 1) xs = ys" "length xs = i + 1 + length ys"
    "last xs = last (y # ys)"
proof -
  have xs: "xs = take i xs @ y # ys" using append_take_drop_id [of i xs] assms by simp
  have i: "i < length xs" using assms by (metis drop_all list.distinct(1) not_le)
  then show "i < length xs" .
  show "xs ! i = y" "drop (i + 1) xs = ys" using assms Cons_nth_drop_Suc [OF i] by auto
  show "last xs = last (y # ys)" by (subst xs) simp
  show "length xs = i + 1 + length ys" using i by (subst xs) simp
qed

lemma polling_all:
  assumes "serves es s" and "ok_run es ns" and "polling ns k i s" and "drop i ns = n # rest"
    and "length rs = length rest + 1"
  shows "v_turns always (answers es (n # rest) rs @ evs) s =
    rbind (end_run always (s\<lparr>node_index := length ns, sent_id := uint (last ns), recv_count := int (length ns),
      v_out := v_out s @ poll_log es k (n # rest) rs\<rparr>)) (v_turns always evs)"
  using assms
proof (induction rest arbitrary: i n rs s)
  case Nil
  then obtain r where r: "rs = [r]" by (cases rs) auto
  note i = drop_eq_Cons [OF Nil.prems(4)]
  have "recv_count s + 1 = sec_client_count s" using Nil.prems(3) i by (simp add: polling_def)
  moreover have "s\<lparr>recv_count := recv_count s + 1, v_out := v_out s @ [reply es n r]\<rparr> =
    s\<lparr>node_index := length ns, sent_id := uint (last ns), recv_count := int (length ns),
      v_out := v_out s @ [reply es n r]\<rparr>"
    using Nil.prems(3) i by (intro verifier.equality) (auto simp: polling_def)
  ultimately show ?case
    by (simp add: answers_def r v_turn_end reply_def)
next
  case (Cons m rest)
  then obtain r rs' where r: "rs = r # rs'" "length rs' = length rest + 1" by (cases rs) auto
  note i = drop_eq_Cons [OF Cons.prems(4)]
  note j = drop_eq_Cons [OF i(3)]
  let ?s = "s\<lparr>recv_count := int (i + 1), sent_id := uint m, node_index := i + 2,
    v_out := v_out s @ [reply es n r, poll_pkt es k m]\<rparr>"
  have step: "v_turn always (Response (node_address es n) r) s = Inr ?s"
    using polling_step [OF Cons.prems(1-3), of r] i j by simp
  have "polling ns k (i + 1) ?s"
    using Cons.prems(3) j by (simp add: polling_def)
  then have "v_turns always (answers es (m # rest) rs' @ evs) ?s =
    rbind (end_run always (?s\<lparr>node_index := length ns, sent_id := uint (last ns),
      recv_count := int (length ns), v_out := v_out ?s @ poll_log es k (m # rest) rs'\<rparr>))
      (v_turns always evs)"
    using Cons.prems(1,2) i(3) r(2) by (intro Cons.IH) auto
  then show ?case using step by (simp add: answers_def r)
qed


subsection \<open>Sessions\<close>

type_synonym v_run = "u8 \<times> u8 list \<times> sec_rnd_resp list"

definition run_log :: "(u8 \<times> string) list \<Rightarrow> v_run \<Rightarrow> v_output list" where
  "run_log es r = (case r of (k, ns, rs) \<Rightarrow> poll_pkt es k (hd ns) # poll_log es k ns rs @ [stop_pkt k])"

definition good_run :: "(u8 \<times> string) list \<Rightarrow> v_run \<Rightarrow> bool" where
  "good_run es r \<longleftrightarrow> (case r of (k, ns, rs) \<Rightarrow> ok_run es ns \<and> length rs = length ns)"

definition run_answers :: "(u8 \<times> string) list \<Rightarrow> v_run \<Rightarrow> v_event list" where
  "run_answers es r = (case r of (k, ns, rs) \<Rightarrow> answers es ns rs)"

definition runs_file :: "v_run list \<Rightarrow> string" where
  "runs_file runs = concat (map (\<lambda>(k, ns, rs). run_text (k, ns)) runs)"

lemma end_run_next:
  assumes "serves es s" and "ok_run es ns" and "fp s = run_text (k', ns) @ rest" and "run_no s = uint k"
  shows "end_run always s = Inr (after_read es ns rest (s\<lparr>run_no := uint k', recv_count := 0,
    spkt1 := \<lparr>v_pkt_type = SECOND_TIME_STOP, v_run_count = k\<rparr>, v_out := v_out s @ [stop_pkt k]\<rparr>))"
proof -
  have "cut_newline ''fd00::a469'' = ''fd00::a469''" by (rule cut_newline_id) simp
  then show ?thesis
    using assms
    by (simp add: end_run_def second_udp_send_def v_emit_def Let_def stop_pkt_def serves_def
        read_line_send_req_run [of es _ ns k' rest] has_table_def after_read_def)
qed

lemma end_run_last:
  assumes "serves es s" and "fp s = []" and "run_no s = uint k"
  shows "end_run always s = Inl (Exited 0 (v_out s @ [stop_pkt k, Done, done_pkt k]))"
proof -
  have "cut_newline ''fd00::a469'' = ''fd00::a469''" by (rule cut_newline_id) simp
  then show ?thesis
    using assms
    by (simp add: end_run_def second_udp_send_def v_emit_def Let_def stop_pkt_def done_pkt_def
        serves_def read_line_send_req_end)
qed

lemma polling_after_read:
  assumes "ok_run es ns" and "run_no s = uint k" and "recv_count s = 0"
  shows "polling ns k 0 (after_read es ns rest s)"
  using assms by (cases ns) (auto simp: polling_def after_read_def ok_run_def)

lemma serves_after_read [simp]: "serves es (after_read es ns rest s) = serves es s"
  by (simp add: after_read_def)

lemma session_from:
  assumes "serves es s" and "polling ns k 0 s" and "good_run es (k, ns, rs)"
    and "\<forall>r\<in>set runs. good_run es r" and "fp s = runs_file runs" and "start_sent s"
  shows "v_turns always (answers es ns rs @ concat (map (run_answers es) runs)) s =
    Inl (Exited 0 (v_out s @ poll_log es k ns rs @ [stop_pkt k] @ concat (map (run_log es) runs)
      @ [Done, done_pkt (last (k # map fst runs))]))"
  using assms
proof (induction runs arbitrary: k ns rs s)
  case Nil
  obtain n rest where ns: "ns = n # rest" using Nil.prems(3) by (cases ns) (auto simp: good_run_def ok_run_def)
  have run: "ok_run es ns" "length rs = length rest + 1" "fp s = []" "run_no s = uint k"
    using Nil.prems by (auto simp: good_run_def ns runs_file_def polling_def)
  then show ?case
    using polling_all [OF Nil.prems(1) run(1) Nil.prems(2), of n rest rs "[]"] Nil.prems(1)
    by (simp add: ns end_run_last)
next
  case (Cons r runs)
  obtain k' ns' rs' where r: "r = (k', ns', rs')" by (cases r) auto
  obtain n rest where ns: "ns = n # rest" using Cons.prems(3) by (cases ns) (auto simp: good_run_def ok_run_def)
  have run: "ok_run es ns" "length rs = length rest + 1" "run_no s = uint k" "ok_run es ns'"
    "fp s = run_text (k', ns') @ runs_file runs"
    using Cons.prems by (auto simp: good_run_def ns r runs_file_def polling_def)
  let ?t = "s\<lparr>node_index := length ns, sent_id := uint (last ns), recv_count := int (length ns),
      v_out := v_out s @ poll_log es k ns rs\<rparr>"
  let ?u = "after_read es ns' (runs_file runs) (?t\<lparr>run_no := uint k', recv_count := 0,
    spkt1 := \<lparr>v_pkt_type = SECOND_TIME_STOP, v_run_count = k\<rparr>, v_out := v_out ?t @ [stop_pkt k]\<rparr>)"
  have "end_run always ?t = Inr ?u"
    using run Cons.prems(1) by (intro end_run_next) auto
  then have "v_turns always (answers es ns rs @ concat (map (run_answers es) (r # runs))) s =
      v_turns always (answers es ns' rs' @ concat (map (run_answers es) runs)) ?u"
    using polling_all [OF Cons.prems(1) run(1) Cons.prems(2), of n rest rs
      "answers es ns' rs' @ concat (map (run_answers es) runs)"] run(2)
    by (simp add: ns run_answers_def r)
  also have "\<dots> = Inl (Exited 0 (v_out ?u @ poll_log es k' ns' rs' @ [stop_pkt k']
      @ concat (map (run_log es) runs) @ [Done, done_pkt (last (k' # map fst runs))]))"
    using Cons.prems run by (intro Cons.IH polling_after_read) (auto simp: r after_read_def)
  finally show ?case
    using Cons.prems(6) by (simp add: after_read_def run_log_def [of es "(k', ns', rs')"] r)
qed


lemma load_map_initial:
  assumes "ten_apart es" and "length es \<le> MAX_NODES"
  shows "\<exists>s. load_map (concat (map table_line es)) initial_verifier = Inr s \<and> serves es s \<and>
    recv_count s = 0 \<and> v_out s = [] \<and> \<not> start_sent s"
proof -
  have "load_map (concat (map table_line es)) initial_verifier = Inr (initial_verifier\<lparr>
      node_map := splice 0 (map table_entry es) (node_map initial_verifier), num_nodes := length es\<rparr>)"
    using assms by (subst load_map_lines) (auto simp: initial_verifier_def ten_apart_def)
  then show ?thesis
    using assms(1) by (auto simp: serves_def has_table_def initial_verifier_def splice_def)
qed

lemma session_exits:
  assumes "ten_apart es" and "length es \<le> MAX_NODES"
    and "runs \<noteq> []" and "\<forall>r\<in>set runs. good_run es r"
  shows "rbind (v_main always (Some (concat (map table_line es))) (Some (runs_file runs)))
      (v_turns always (concat (map (run_answers es) runs))) =
    Inl (Exited 0 (start_pkt (fst (hd runs)) # concat (map (run_log es) runs)
      @ [Done, done_pkt (fst (last runs))]))"
proof -
  obtain k ns rs runs' where runs: "runs = (k, ns, rs) # runs'"
    using assms(3) by (cases runs) auto
  then have run: "ok_run es ns" using assms(4) by (simp add: good_run_def)
  obtain s where s: "load_map (concat (map table_line es)) initial_verifier = Inr s" "serves es s"
    "recv_count s = 0" "v_out s = []" "\<not> start_sent s"
    using load_map_initial [OF assms(1,2)] by blast
  let ?s = "s\<lparr>fp := runs_file runs\<rparr>"
  let ?u = "after_read es ns (runs_file runs') (?s\<lparr>run_no := uint k\<rparr>)"
  have "read_line_send_req always ?s = Inr (True, ?u)"
    using s run by (intro read_line_send_req_run) (auto simp: runs_file_def runs)
  moreover have "v_turns always (answers es ns rs @ concat (map (run_answers es) runs')) ?u =
    Inl (Exited 0 (v_out ?u @ poll_log es k ns rs @ [stop_pkt k] @ concat (map (run_log es) runs')
      @ [Done, done_pkt (last (k # map fst runs'))]))"
    using s run assms(4) runs
    by (intro session_from polling_after_read) (auto simp: after_read_def)
  ultimately show ?thesis
    using s by (simp add: v_main_def runs run_answers_def [of es "(k, ns, rs)"]
      run_log_def [of es "(k, ns, rs)"] after_read_def last_map)
qed

subsection \<open>Properties\<close>


lemma shipped_table_ten_apart: "ten_apart shipped_table"
  by (simp add: ten_apart_def shipped_table_def ok_addr_def INET6_ADDRSTRLEN_def)


lemma stray_turns:
  assumes "sec_client_count s = recv_count s + int (length rs)" and "rs \<noteq> []"
    and "sent_id s \<noteq> v_get_id_from_addr s a"
  shows "v_turns ok (map (Response a) rs) s = rbind (end_run ok (s\<lparr>recv_count := sec_client_count s,
      v_out := v_out s @ map (\<lambda>r. Reply a (sr_max_index r) (sr_checksum r)) rs\<rparr>)) Inr"
  using assms
proof (induction rs arbitrary: s)
  case (Cons r rs)
  let ?s = "s\<lparr>recv_count := recv_count s + 1, v_out := v_out s @ [Reply a (sr_max_index r) (sr_checksum r)]\<rparr>"
  show ?case
  proof (cases "rs = []")
    case True
    moreover from this have "recv_count s + 1 = sec_client_count s" using Cons.prems by simp
    moreover have "v_turns ok [] = Inr" by auto
    ultimately show ?thesis by (simp add: v_turn_end)
  next
    case False
    then have "recv_count s + 1 \<noteq> sec_client_count s" using Cons.prems(1) by (cases rs) auto
    then have "v_turn ok (Response a r) s = Inr ?s"
      using Cons.prems(3) by (simp add: v_turn_poll)
    moreover have "v_get_id_from_addr ?s a = v_get_id_from_addr s a"
      by (simp add: v_get_id_from_addr_def)
    then have "v_turns ok (map (Response a) rs) ?s = rbind (end_run ok (?s\<lparr>recv_count := sec_client_count ?s,
        v_out := v_out ?s @ map (\<lambda>r. Reply a (sr_max_index r) (sr_checksum r)) rs\<rparr>)) Inr"
      using Cons.prems False by (intro Cons.IH) auto
    ultimately show ?thesis by simp
  qed
qed simp

text \<open>
  C37: The verifier counts packets, not nodes: packets from an address that is
  not the polled node's, as many as the run has nodes, end the run with a stop
  although only its first node was polled.
\<close>

theorem stray_packets_end_run:
  assumes "serves es s" and "polling ns k 0 s" and "length rs = length ns" and "ns \<noteq> []"
    and "fp s = []" and "v_get_id_from_addr s a \<noteq> uint (ns ! 0)"
  shows "v_turns always (map (Response a) rs) s = Inl (Exited 0 (v_out s @
    map (\<lambda>r. Reply a (sr_max_index r) (sr_checksum r)) rs @ [stop_pkt k, Done, done_pkt k]))"
proof -
  have st: "recv_count s = 0" "sec_client_count s = int (length rs)" "sent_id s = uint (ns ! 0)" "run_no s = uint k"
    using assms(2,3) by (simp_all add: polling_def)
  have "rs \<noteq> []" using assms(3,4) by auto
  then have "v_turns always (map (Response a) rs) s = rbind (end_run always (s\<lparr>recv_count := sec_client_count s,
      v_out := v_out s @ map (\<lambda>r. Reply a (sr_max_index r) (sr_checksum r)) rs\<rparr>)) Inr"
    using st assms(6) by (intro stray_turns) auto
  then show ?thesis
    using assms(1,5) st(4)
    by (simp add: end_run_last [of es _ k])
qed

definition sample_table :: "(u8 \<times> string) list" where
  "sample_table = [(109, ''fd00::1062''), (128, ''fd00::9980'')]"

definition sample_runs :: "v_run list" where
  "sample_runs = [(1, [128, 109], replicate 2 \<lparr>sr_max_index = 0, sr_checksum = 5\<rparr>),
     (2, [109], replicate 1 \<lparr>sr_max_index = 3, sr_checksum = 6\<rparr>)]"

definition sample_verifier :: verifier where
  "sample_verifier = initial_verifier\<lparr>num_nodes := 2,
     node_map := map table_entry sample_table @ replicate 3 \<lparr>nm_id = 0, nm_addr = []\<rparr>\<rparr>"

lemma sample_table_ok [simp]:
  "ten_apart sample_table" "length sample_table \<le> MAX_NODES" "ok_run sample_table [128, 109]"
  "ok_run sample_table [109]"
  by (simp_all add: ten_apart_def sample_table_def ok_addr_def INET6_ADDRSTRLEN_def MAX_NODES_def
      ok_run_def NODE_ADDRS_def)

lemma stray_packets_end_run_witness:
  "v_turns always (map (Response ''fd00::ffff'') [\<lparr>sr_max_index = 0, sr_checksum = 5\<rparr>, \<lparr>sr_max_index = 0, sr_checksum = 5\<rparr>])
      (after_read sample_table [128, 109] [] (sample_verifier\<lparr>run_no := 1\<rparr>)) =
    Inl (Exited 0 [start_pkt 1, poll_pkt sample_table 1 128, Reply ''fd00::ffff'' 0 5,
      Reply ''fd00::ffff'' 0 5, stop_pkt 1, Done, done_pkt 1])"
proof -
  let ?s = "after_read sample_table [128, 109] [] (sample_verifier\<lparr>run_no := 1\<rparr>)"
  have srv: "serves sample_table sample_verifier"
    by (simp add: serves_def has_table_def sample_verifier_def initial_verifier_def)
      (simp add: sample_table_def)
  have "polling [128, 109] 1 0 ?s"
    by (rule polling_after_read [of sample_table]) (simp_all add: sample_verifier_def initial_verifier_def)
  moreover have "v_get_id_from_addr ?s ''fd00::ffff'' = 0"
    by (simp add: v_get_id_from_addr_def after_read_def sample_verifier_def sample_table_def strncmp_eq_def
        NL_def)
  then have "v_get_id_from_addr ?s ''fd00::ffff'' \<noteq> uint ([128, 109 :: u8] ! 0)" by simp
  moreover have "serves sample_table ?s" using srv by simp
  moreover have "fp ?s = []" by (simp add: after_read_def)
  moreover have "v_out ?s = [start_pkt 1, poll_pkt sample_table 1 128]"
    by (simp add: after_read_def sample_verifier_def initial_verifier_def)
  ultimately show ?thesis
    using stray_packets_end_run [of sample_table ?s "[128, 109]" 1
        "[\<lparr>sr_max_index = 0, sr_checksum = 5\<rparr>, \<lparr>sr_max_index = 0, sr_checksum = 5\<rparr>]" "''fd00::ffff''"]
    by (simp del: v_turns.simps)
qed

text \<open>
  C9: A session of the verifier, from its socket and its two files to its exit,
  when every polled node answers: the border router's clock is started once, each run polls
  the nodes of its line in order, every poll after the response to the one
  before, and ends with one stop; after the last run the verifier says it is
  done and exits.
\<close>

theorem verifier_session:
  assumes "ten_apart es" and "length es \<le> MAX_NODES"
    and "runs \<noteq> []" and "\<forall>r\<in>set runs. good_run es r"
  shows "rbind (v_program True True always (Some (concat (map table_line es))) (Some (runs_file runs)))
      (v_turns always (concat (map (run_answers es) runs))) =
    Inl (Exited 0 (start_pkt (fst (hd runs)) # concat (map (run_log es) runs)
      @ [Done, done_pkt (fst (last runs))]))"
  using session_exits [OF assms] by (simp add: v_program_def)

lemma verifier_session_witness:
  "rbind (v_program True True always (Some (concat (map table_line sample_table))) (Some (runs_file sample_runs)))
      (v_turns always (concat (map (run_answers sample_table) sample_runs))) =
    Inl (Exited 0 (start_pkt 1 # concat (map (run_log sample_table) sample_runs) @ [Done, done_pkt 2]))"
proof -
  have "\<forall>r\<in>set sample_runs. good_run sample_table r"
    by (simp add: sample_runs_def good_run_def)
  from verifier_session [OF sample_table_ok(1,2) _ this] show ?thesis
    by (simp add: sample_runs_def)
qed

end
