(* ===== verification/Session_Timing.thy ===== *)
theory Session_Timing
  imports Verifier_Facts Border_Router
begin

text \<open>
  The verifier and the border router together: the datagrams of a session of the
  verifier, handled by the border router, which times its runs.
\<close>

text \<open>The datagrams of the verifier that reach the border router, as bytes.\<close>

definition router_inbox :: "v_output list \<Rightarrow> u8 list list" where
  "router_inbox os = concat (map (\<lambda>f. case f of
     Datagram a p \<Rightarrow> if a = ''fd00::a469'' then [[v_pkt_type p, v_run_count p]] else []
   | _ \<Rightarrow> []) os)"

definition router_handles :: "(u8 list \<times> 'c::len word br_env) list \<Rightarrow> 'c word border \<Rightarrow> 'c word border" where
  "router_handles ds s = fold (\<lambda>(d, e) s. br_tcpip_handler e d s) ds s"

lemma router_inbox_append [simp]: "router_inbox (xs @ ys) = router_inbox xs @ router_inbox ys"
  by (simp add: router_inbox_def)

lemma router_inbox_log:
  assumes "''fd00::a469'' \<notin> snd ` set es"
  shows "router_inbox (poll_log es k ns rs) = []" and "router_inbox [poll_pkt es k n] = []"
proof -
  show one: "router_inbox [poll_pkt es k n] = []" for n
  proof -
    have "node_address es n \<noteq> ''fd00::a469''"
      using assms by (force simp: node_address_def split: option.splits dest: map_of_SomeD)
    then show ?thesis unfolding router_inbox_def poll_pkt_def by simp
  qed
  show "router_inbox (poll_log es k ns rs) = []"
    using one by (induction es k ns rs rule: poll_log.induct)
      (simp_all add: router_inbox_def reply_def)
qed

lemma router_inbox_runs:
  assumes "''fd00::a469'' \<notin> snd ` set es"
  shows "router_inbox (concat (map (run_log es) runs)) = map (\<lambda>r. [SECOND_TIME_STOP, fst r]) runs"
proof (induction runs)
  case Nil
  then show ?case by (simp add: router_inbox_def)
next
  case (Cons r runs)
  obtain k ns rs where r: "r = (k, ns, rs)" by (cases r) auto
  have "router_inbox (run_log es r) = router_inbox ([poll_pkt es k (hd ns)] @ poll_log es k ns rs @ [stop_pkt k])"
    by (simp add: run_log_def r)
  also have "\<dots> = [[SECOND_TIME_STOP, k]]"
    unfolding router_inbox_append router_inbox_log [OF assms]
    by (simp add: router_inbox_def stop_pkt_def)
  finally show ?case using Cons r by simp
qed

lemma router_handles_stops:
  "length ts = length runs \<Longrightarrow>
     router_handles (zip (map (\<lambda>r. [SECOND_TIME_STOP, fst r]) runs) ts) s = stop_runs (zip (map fst runs) ts) s"
  by (induction runs ts arbitrary: s rule: list_induct2')
    (simp_all add: router_handles_def)



end
