(* ===== verification/Udp_Server.thy ===== *)
theory Udp_Server
  imports Border_Router
begin

text \<open>
  \<open>border-router-server/udp-server.c\<close>: the server without a SLIP border
  router's web page and radio handling, an earlier copy of
  \<open>border-router.c\<close>. Its static variables are those of the record \<open>border\<close>;
  its functions are translated from its own text, and compared with the border
  router's below.
\<close>

subsection \<open>Operations\<close>

definition us_multicast_send :: "u8 \<Rightarrow> 't border \<Rightarrow> 't border" where
  "us_multicast_send token s =
     (let mpkt = \<lparr>req_pkt_type = token, seed = 1234\<rparr>
      in br_emit (Mcast_out (request_bytes mpkt)) s)"

fun us_print_path :: "response_pkt \<Rightarrow> nat \<Rightarrow> nat \<Rightarrow> u16 list res" where
  "us_print_path resp i 0 = Inr []"
| "us_print_path resp i (Suc n) =
     rbind (topo_path resp i) (\<lambda>v. rbind (us_print_path resp (i + 1) n) (\<lambda>vs. Inr (v # vs)))"

definition us_checksum_callback :: "ipaddr \<Rightarrow> u8 list \<Rightarrow> 't border \<Rightarrow> 't border res" where
  "us_checksum_callback sender data s =
     (let resp = response_of_bytes data
      in if pkt_type resp = TOPOLOGY then
           rbind (us_print_path resp 0 (unat (topo_pathindex resp))) (\<lambda>path.
             Inr (br_emit (Print_checksum (ucast (topo_checksum resp)) (get_id_from_addr sender))
               (br_emit (Print_agg_path path) s)))
         else if pkt_type resp = ATTESTATION then
           let s = s\<lparr>cnt := cnt s + 1\<rparr>
           in Inr (br_emit (Print_checksum (ucast (att_checksum resp)) (get_id_from_addr sender)) s)
         else Inr s)"

definition us_tcpip_handler :: "'c::len word br_env \<Rightarrow> u8 list \<Rightarrow> 'c word border \<Rightarrow> 'c word border" where
  "us_tcpip_handler e data s =
     (let rpkt = br_req_of_bytes data;
          s = br_emit (Print_request (req_type rpkt)) s;
          s = s\<lparr>cnt := 0\<rparr>
      in if req_type rpkt = TOPOLOGY \<or> req_type rpkt = ATTESTATION
         then us_multicast_send (req_type rpkt) s
         else if req_type rpkt = SECOND_TIME_START then
           let s = s\<lparr>ct := clock_time e\<rparr>;
               s = s\<lparr>ct2 := ct s\<rparr>
           in br_emit (Print_start (ucast (ct2 s))) s
         else if req_type rpkt = SECOND_TIME_STOP then
           let s = s\<lparr>ct1 := clock_time e\<rparr>;
               s = s\<lparr>time_diff := ct1 s - ct s\<rparr>;
               s = br_emit (Print_stop (run_count rpkt) (ucast (time_diff s)) (ucast (ct s))
                     (ucast (ct1 s))) s
           in s\<lparr>ct := ct1 s\<rparr>
         else if req_type rpkt = SECOND_TIME_DONE then br_emit Print_done s
         else s)"

definition us_request_prefix :: "'t border \<Rightarrow> 't border" where
  "us_request_prefix s = br_emit (Slip_out [of_nat (of_char CHR ''?''), of_nat (of_char CHR ''P'')]) s"

definition us_set_prefix_64 :: "'t br_env \<Rightarrow> ipaddr \<Rightarrow> 't border \<Rightarrow> 't border" where
  "us_set_prefix_64 e prefix_64 s =
     (let s = s\<lparr>prefix := prefix_64\<rparr>;
          ipaddr = prefix_64;
          s = s\<lparr>prefix_set := 1\<rparr>;
          ipaddr = set_addr_iid e ipaddr;
          s = br_emit (Addr_add ipaddr) s;
          s = br_emit (Set_root ipaddr) s
      in if set_root_ok e then br_emit (Set_rpl_prefix (prefix s) 64) s else s)"

subsection \<open>The process\<close>

definition us_create_broadcast_conn_server :: "'t border \<Rightarrow> 't border" where
  "us_create_broadcast_conn_server s = br_emit (Listen 4010) s"

definition us_prepare_mcast :: "'t border \<Rightarrow> 't border" where
  "us_prepare_mcast s = br_emit (Open_mcast [0xFF1E, 0, 0, 0, 0, 0, 0x89, 0xABCA] 5001) s"

declare us_create_broadcast_conn_server_def [simp] us_prepare_mcast_def [simp]

definition us_start_running :: "build \<Rightarrow> 't border \<Rightarrow> 't border" where
  "us_start_running b s =
     (let s = br_emit Mac_on s;
          s = br_emit (Listen 12345) s;
          s = (if broadcast_to_parents_on b then us_create_broadcast_conn_server s else br_emit (Listen 4005) s);
          s = (if attestation_time_test b then br_emit (Listen 4005) s else s)
      in us_prepare_mcast s)"

definition us_prefix_loop :: "build \<Rightarrow> 't border \<Rightarrow> br_phase \<times> 't border" where
  "us_prefix_loop b s =
     (if prefix_set s = 0 then (Awaiting_prefix, us_request_prefix (br_emit Etimer_set s))
      else (Running, us_start_running b s))"

definition us_init :: "build \<Rightarrow> 't border \<Rightarrow> br_phase \<times> 't border" where
  "us_init b s = us_prefix_loop b (s\<lparr>prefix_set := 0\<rparr>)"

fun us_step :: "build \<Rightarrow> 'c::len word br_env \<Rightarrow> br_event \<Rightarrow> br_phase \<times> 'c word border
    \<Rightarrow> (br_phase \<times> 'c word border) res" where
  "us_step b e (Br_prefix p) (ph, s) = Inr (ph, us_set_prefix_64 e p s)"
| "us_step b e Br_timer (Awaiting_prefix, s) = Inr (us_prefix_loop b s)"
| "us_step b e (Br_tcpip data) (Running, s) = Inr (Running, us_tcpip_handler e data s)"
| "us_step b e (Br_checksum sender data) (Running, s) =
     rbind (us_checksum_callback sender data s) (\<lambda>s. Inr (Running, s))"
| "us_step b e _ ps = Inr ps"

subsection \<open>The two servers\<close>

text \<open>
  The border router's output without the running count of responses and without
  what only the border router does when it starts: \<open>orchestra_init\<close> and the list of
  its addresses.
\<close>

fun router_only :: "br_output \<Rightarrow> bool" where
  "router_only (Print_received n) = True"
| "router_only Orchestra_init = True"
| "router_only Print_heading = True"
| "router_only (Print_address a) = True"
| "router_only _ = False"

definition quiet :: "'t border \<Rightarrow> 't border" where
  "quiet s = s\<lparr>br_out := filter (\<lambda>f. \<not> router_only f) (br_out s)\<rparr>"

lemma quiet_emit: "quiet (br_emit f s) = (if router_only f then quiet s else br_emit f (quiet s))"
  by (simp add: quiet_def br_emit_def)

lemma quiet_updates:
  "quiet (s\<lparr>cnt := c\<rparr>) = (quiet s)\<lparr>cnt := c\<rparr>" "quiet (s\<lparr>ct := t\<rparr>) = (quiet s)\<lparr>ct := t\<rparr>"
  "quiet (s\<lparr>ct1 := t\<rparr>) = (quiet s)\<lparr>ct1 := t\<rparr>" "quiet (s\<lparr>ct2 := t\<rparr>) = (quiet s)\<lparr>ct2 := t\<rparr>"
  "quiet (s\<lparr>time_diff := t\<rparr>) = (quiet s)\<lparr>time_diff := t\<rparr>" "quiet (s\<lparr>prefix := p\<rparr>) = (quiet s)\<lparr>prefix := p\<rparr>"
  "quiet (s\<lparr>prefix_set := x\<rparr>) = (quiet s)\<lparr>prefix_set := x\<rparr>"
  by (simp_all add: quiet_def)

lemma quiet_fields:
  "cnt (quiet s) = cnt s" "ct (quiet s) = ct s" "ct1 (quiet s) = ct1 s" "ct2 (quiet s) = ct2 s"
  "time_diff (quiet s) = time_diff s" "prefix (quiet s) = prefix s" "prefix_set (quiet s) = prefix_set s"
  by (simp_all add: quiet_def)

lemma quiet_addresses [simp]: "quiet (print_local_addresses e s) = quiet s"
  by (simp add: quiet_def print_local_addresses_def print_addresses_eq br_emit_def filter_empty_conv)

lemmas quiet_simps = quiet_emit quiet_updates quiet_fields

lemma us_print_path_eq: "us_print_path resp i n = print_path resp [i..<i + n]"
proof (induction n arbitrary: i)
  case (Suc n)
  have "[i..<i + Suc n] = i # [Suc i..<Suc i + n]" by (simp add: upt_conv_Cons)
  with Suc show ?case by simp
qed simp

lemma us_checksum_callback_eq:
  "us_checksum_callback sender data (quiet s) = map_sum id quiet (udp_checksum_callback sender data s)"
  by (cases "print_path (response_of_bytes data) [0..<unat (topo_pathindex (response_of_bytes data))]")
    (auto simp: us_checksum_callback_def udp_checksum_callback_def us_print_path_eq Let_def quiet_simps)

lemma us_tcpip_handler_eq: "us_tcpip_handler e data (quiet s) = quiet (br_tcpip_handler e data s)"
  by (simp add: us_tcpip_handler_def br_tcpip_handler_def us_multicast_send_def multicast_send_def
      Let_def quiet_simps)

lemma us_prefix_loop_eq:
  "us_prefix_loop b (quiet s) = map_prod id quiet (br_prefix_loop b e s)"
  by (simp add: us_prefix_loop_def br_prefix_loop_def us_request_prefix_def request_prefix_def
      us_start_running_def br_start_running_def Let_def quiet_simps br_verifier_port_def
      br_checksum_port_def br_mcast_port_def br_unicast_checksum_port_def)

lemma us_set_prefix_64_eq: "us_set_prefix_64 e p (quiet s) = quiet (set_prefix_64 e p s)"
  by (simp add: us_set_prefix_64_def set_prefix_64_def Let_def quiet_simps)

text \<open>
  The server as a machine like the border router; it has no boot phase and no
  button.
\<close>

definition us_machine :: "build \<Rightarrow> 'c::len word br_env \<times> br_event \<Rightarrow> br_phase \<times> 'c word border
    \<Rightarrow> (br_phase \<times> 'c word border) res" where
  "us_machine b ev = us_step b (fst ev) (snd ev)"

fun no_button :: "'t br_env \<times> br_event \<Rightarrow> bool" where
  "no_button (e, Br_button) = False"
| "no_button _ = True"

lemma us_step_simulates:
  assumes "ph \<noteq> Boot" and "ev \<noteq> Br_button"
  shows "us_step b e ev (ph, quiet s) = map_sum id (map_prod id quiet) (br_step b e ev (ph, s))"
proof (cases ev)
  case (Br_checksum sender data)
  then show ?thesis
    using assms(1) us_checksum_callback_eq [of sender data s]
    by (cases ph; cases "udp_checksum_callback sender data s") auto
qed (use assms in \<open>cases ph; simp add: us_tcpip_handler_eq us_prefix_loop_eq us_set_prefix_64_eq\<close>)+

lemma br_step_leaves_boot:
  "br_step b e ev (ph, s) = Inr (ph', s') \<Longrightarrow> ph \<noteq> Boot \<Longrightarrow> ph' \<noteq> Boot"
  by (cases ev; cases ph) (auto simp: br_prefix_loop_def split: if_splits)

interpretation server: simulation "us_machine b" "br_machine b" "map_prod id quiet" no_button
    "\<lambda>ps. fst ps \<noteq> Boot" for b
proof unfold_locales
  fix e :: "'a word br_env \<times> br_event" and t :: "br_phase \<times> 'a word border"
  assume ok: "no_button e" "fst t \<noteq> Boot"
  then have "snd e \<noteq> Br_button" by (cases e) auto
  with ok us_step_simulates [of "fst t" "snd e" b "fst e" "snd t"]
  show "us_machine b e (map_prod id quiet t) = map_sum id (map_prod id quiet) (br_machine b e t)"
    by (cases t) (simp add: us_machine_def br_machine_def)
next
  fix e :: "'a word br_env \<times> br_event" and t t' :: "br_phase \<times> 'a word border"
  assume "fst t \<noteq> Boot" and "br_machine b e t = Inr t'"
  then show "fst t' \<noteq> Boot"
    by (cases t; cases t') (auto simp: br_machine_def dest: br_step_leaves_boot)
qed

subsection \<open>Properties\<close>



end
