(* ===== verification/Web_Page.thy ===== *)
theory Web_Page
  imports Platform C_Strings
begin

text \<open>
  The web page of \<open>border-router.c\<close>: \<open>ipaddr_add\<close>, which formats an IPv6 address
  with its first run of zeros compressed, and \<open>generate_routes\<close>, which
  formats the neighbours, the routes and the links of the border router into a
  buffer of 256 characters and sends the buffer whenever it may get full. The
  configuration macros that the file itself sets to 0 are taken as such;
  \<open>RPL_WITH_NON_STORING\<close> is an argument. Waiting in \<open>SEND_STRING\<close> is not
  modelled: one connection, whose strings are sent in order.
\<close>

subsection \<open>The buffer\<close>

text \<open>
  \<open>content\<close> is the string in \<open>buf\<close>, \<open>blen\<close> the offset at which the next text goes.
  \<open>snprintf\<close> cuts the text off at the end of the buffer but returns its full
  length; once \<open>blen\<close> exceeds 256, \<open>sizeof(buf) - blen\<close> wraps around.
\<close>

definition BUF_SIZE :: nat where "BUF_SIZE = 256"

record page =
  content :: string
  blen :: nat
  sent_strings :: "string list"

definition ADD :: "string \<Rightarrow> page \<Rightarrow> page res" where
  "ADD t s =
     (if BUF_SIZE < blen s then Inl Out_of_bounds
      else if blen s = BUF_SIZE then Inr (s\<lparr>blen := blen s + length t\<rparr>)
      else Inr (s\<lparr>content := take (blen s) (content s) @ take (BUF_SIZE - blen s - 1) t,
                  blen := blen s + length t\<rparr>))"

definition SEND_STRING :: "string \<Rightarrow> page \<Rightarrow> page" where
  "SEND_STRING t s = s\<lparr>sent_strings := sent_strings s @ [t]\<rparr>"

definition send_buf :: "page \<Rightarrow> page" where
  "send_buf s = (SEND_STRING (content s) s)\<lparr>blen := 0\<rparr>"

subsection \<open>Addresses\<close>

definition hex_digit :: "nat \<Rightarrow> char" where
  "hex_digit n = ''0123456789abcdef'' ! n"

fun hex :: "nat \<Rightarrow> string" where
  "hex n = (if n < 16 then [hex_digit n] else hex (n div 16) @ [hex_digit (n mod 16)])"

declare hex.simps [simp del]

definition addr_group :: "ipaddr \<Rightarrow> nat \<Rightarrow> u16" where
  "addr_group a i = push_bit 8 (ucast (a ! i)) + ucast (a ! (i + 1))"

text \<open>The loop of \<open>ipaddr_add\<close>: \<open>f\<close> counts the zero groups of the run being compressed.\<close>

fun ipaddr_loop :: "ipaddr \<Rightarrow> nat list \<Rightarrow> int \<Rightarrow> page \<Rightarrow> page res" where
  "ipaddr_loop addr [] f s = Inr s"
| "ipaddr_loop addr (i # is) f s =
     (let a = addr_group addr i
      in if a = 0 \<and> 0 \<le> f then
           rbind (if f = 0 then ADD ''::'' s else Inr s) (\<lambda>s. ipaddr_loop addr is (f + 1) s)
         else
           rbind (if 0 < f then Inr s else if 0 < i then ADD '':'' s else Inr s) (\<lambda>s.
           rbind (ADD (hex (unat a)) s) (\<lambda>s.
             ipaddr_loop addr is (if 0 < f then - 1 else f) s)))"

definition ipaddr_add :: "ipaddr \<Rightarrow> page \<Rightarrow> page res" where
  "ipaddr_add addr s = ipaddr_loop addr [0, 2, 4, 6, 8, 10, 12, 14] 0 s"

subsection \<open>The page\<close>

record route =
  r_ipaddr :: ipaddr
  r_length :: u8
  r_nexthop :: "ipaddr option"  \<comment> \<open>\<open>uip_ds6_route_nexthop\<close>, null if there is none\<close>
  r_lifetime :: u32

record link =
  l_child :: ipaddr
  l_parent :: "ipaddr option"
  l_lifetime :: u32

definition TOP :: string where
  "TOP = ''<html><head><title>ContikiRPL</title></head><body>'' @ [CHR 0x0A]"
definition BOTTOM :: string where "BOTTOM = ''</body></html>'' @ [CHR 0x0A]"

fun neighbor_rows :: "ipaddr list \<Rightarrow> page \<Rightarrow> page res" where
  "neighbor_rows [] s = Inr s"
| "neighbor_rows (n # ns) s =
     rbind (ipaddr_add n s) (\<lambda>s. rbind (ADD [CHR 0x0A] s) (\<lambda>s.
       neighbor_rows ns (if BUF_SIZE - 45 < blen s then send_buf s else s)))"

fun route_rows :: "route list \<Rightarrow> page \<Rightarrow> page res" where
  "route_rows [] s = Inr s"
| "route_rows (r # rs) s =
     rbind (ipaddr_add (r_ipaddr r) s) (\<lambda>s.
     rbind (ADD (''/'' @ decimal (unat (r_length r)) @ '' (via '') s) (\<lambda>s.
     rbind (case r_nexthop r of None \<Rightarrow> Inl Null_pointer | Some a \<Rightarrow> ipaddr_add a s) (\<lambda>s.
     rbind (ADD ('') '' @ decimal (unat (r_lifetime r)) @ ''s'' @ [CHR 0x0A]) s) (\<lambda>s.
       route_rows rs (send_buf s)))))"

fun link_rows :: "link list \<Rightarrow> page \<Rightarrow> page res" where
  "link_rows [] s = Inr s"
| "link_rows (l # ls) s =
     (case l_parent l of
        None \<Rightarrow> link_rows ls s
      | Some p \<Rightarrow>
          rbind (ipaddr_add (l_child l) s) (\<lambda>s.
          rbind (ADD '' (parent: '' s) (\<lambda>s.
          rbind (ipaddr_add p s) (\<lambda>s.
          rbind (ADD ('') '' @ decimal (unat (l_lifetime l)) @ ''s'' @ [CHR 0x0A]) s) (\<lambda>s.
            link_rows ls (send_buf s))))))"

definition generate_routes ::
  "bool \<Rightarrow> ipaddr list \<Rightarrow> route list \<Rightarrow> link list \<Rightarrow> page \<Rightarrow> page res" where
  "generate_routes non_storing nbrs routes links s =
     rbind (ADD ''Neighbors<pre>'' ((SEND_STRING TOP s)\<lparr>blen := 0\<rparr>)) (\<lambda>s.
     rbind (neighbor_rows nbrs s) (\<lambda>s.
     rbind (ADD (''</pre>Routes<pre>'' @ [CHR 0x0A]) s) (\<lambda>s.
     rbind (route_rows routes (send_buf s)) (\<lambda>s.
     rbind (ADD ''</pre>'' s) (\<lambda>s.
     rbind
       (if non_storing then
          rbind (ADD (''Links<pre>'' @ [CHR 0x0A]) s) (\<lambda>s.
          rbind (link_rows links (send_buf s)) (ADD ''</pre>''))
        else Inr s)
       (\<lambda>s. Inr (SEND_STRING BOTTOM (SEND_STRING (content s) s))))))))"

subsection \<open>The text of an address\<close>

definition groups :: "ipaddr \<Rightarrow> u16 list" where
  "groups a = map (addr_group a) [0, 2, 4, 6, 8, 10, 12, 14]"

fun join_groups :: "u16 list \<Rightarrow> string" where
  "join_groups [] = []"
| "join_groups [g] = hex (unat g)"
| "join_groups (g # h # gs) = hex (unat g) @ '':'' @ join_groups (h # gs)"

text \<open>The loop of \<open>ipaddr_add\<close> on the groups, its output as a string.\<close>

fun group_text :: "bool \<Rightarrow> int \<Rightarrow> u16 list \<Rightarrow> string" where
  "group_text first f [] = []"
| "group_text first f (a # as) =
     (if a = 0 \<and> 0 \<le> f then (if f = 0 then ''::'' else []) @ group_text False (f + 1) as
      else (if 0 < f then [] else if \<not> first then '':'' else []) @ hex (unat a) @
        group_text False (if 0 < f then - 1 else f) as)"

definition ipaddr_text :: "ipaddr \<Rightarrow> string" where
  "ipaddr_text a = group_text True 0 (groups a)"

text \<open>RFC 4291: the groups in hexadecimal, one run of zero groups as \<open>::\<close>, here the first.\<close>

definition rfc_text :: "u16 list \<Rightarrow> string" where
  "rfc_text gs =
     (let pre = takeWhile (\<lambda>g. g \<noteq> 0) gs;
          post = dropWhile (\<lambda>g. g = 0) (dropWhile (\<lambda>g. g \<noteq> 0) gs)
      in if pre = gs then join_groups gs else join_groups pre @ ''::'' @ join_groups post)"

lemma group_text_after: "group_text False (- 1) gs = concat (map (\<lambda>g. '':'' @ hex (unat g)) gs)"
  by (induction gs) simp_all

lemma join_groups_Cons:
  "join_groups (g # gs) = hex (unat g) @ concat (map (\<lambda>g. '':'' @ hex (unat g)) gs)"
  by (induction gs arbitrary: g) simp_all

lemma group_text_zeros:
  "0 < f \<Longrightarrow> group_text False f gs = join_groups (dropWhile (\<lambda>g. g = 0) gs)"
  by (induction gs arbitrary: f) (simp_all add: group_text_after join_groups_Cons)

lemma group_text_rfc:
  "group_text first 0 gs =
     (let pre = takeWhile (\<lambda>g. g \<noteq> 0) gs;
          post = dropWhile (\<lambda>g. g = 0) (dropWhile (\<lambda>g. g \<noteq> 0) gs);
          lead = (if first \<or> pre = [] then [] else '':'')
      in lead @ (if pre = gs then join_groups gs else join_groups pre @ ''::'' @ join_groups post))"
proof (induction gs arbitrary: first)
  case Nil
  then show ?case by simp
next
  case (Cons g gs)
  show ?case
  proof (cases "g = 0")
    case True
    then show ?thesis by (simp add: group_text_zeros)
  next
    case False
    then show ?thesis
      using Cons.IH [of False]
      by (cases gs) (auto simp: Let_def join_groups_Cons split: if_splits)
  qed
qed

lemma ipaddr_text_rfc: "ipaddr_text a = rfc_text (groups a)"
  unfolding ipaddr_text_def group_text_rfc rfc_text_def by (simp add: Let_def)

lemma length_hex: "n < 65536 \<Longrightarrow> length (hex n) \<le> 4"
  by (subst hex.simps, simp, subst hex.simps, simp, subst hex.simps, simp, subst hex.simps, simp)

lemma length_hex_u16: "length (hex (unat (g :: u16))) \<le> 4"
  using unsigned_less [of g] by (intro length_hex) simp

lemma length_group_text: "length (group_text False f gs) \<le> 5 * length gs"
proof (induction gs arbitrary: f)
  case (Cons g gs)
  show ?case
    using Cons.IH [of "f + 1"] Cons.IH [of f] Cons.IH [of "- 1"] length_hex_u16 [of g] by auto
qed simp

lemma length_ipaddr_text: "length (ipaddr_text a) \<le> 39"
proof -
  obtain g gs where g: "groups a = g # gs" "length gs = 7" by (simp add: groups_def)
  show ?thesis
    using length_group_text [of 1 gs] length_group_text [of 0 gs] length_hex_u16 [of g] g(2)
    by (simp add: ipaddr_text_def g(1))
qed

subsection \<open>Building the page\<close>

text \<open>All that is on the page so far, sent or in the buffer, is \<open>w\<close>.\<close>

definition page_text :: "string \<Rightarrow> page \<Rightarrow> bool" where
  "page_text w s \<longleftrightarrow> (0 < blen s \<longrightarrow> length (content s) = blen s) \<and>
     w = concat (sent_strings s) @ take (blen s) (content s)"

lemma ADD_text:
  assumes "page_text w s" and "blen s + length t < BUF_SIZE"
  shows "\<exists>s'. ADD t s = Inr s' \<and> page_text (w @ t) s' \<and> blen s' = blen s + length t"
proof -
  let ?s' = "s\<lparr>content := take (blen s) (content s) @ t, blen := blen s + length t\<rparr>"
  have "length t \<le> BUF_SIZE - blen s - 1" using assms(2) by linarith
  then have "ADD t s = Inr ?s'" using assms(2) by (simp add: ADD_def)
  moreover have "page_text (w @ t) ?s'"
    using assms(1) by (cases "blen s = 0") (auto simp: page_text_def)
  ultimately show ?thesis by auto
qed

lemma send_buf_text: "page_text w s \<Longrightarrow> 0 < blen s \<Longrightarrow> page_text w (send_buf s) \<and> blen (send_buf s) = 0"
  by (auto simp: page_text_def send_buf_def SEND_STRING_def)

text \<open>A zero group that is left out adds at most a colon, a shown one its separator and its digits.\<close>

lemma ipaddr_loop_zero:
  assumes "page_text w s" and "addr_group a i = 0" and "0 \<le> f"
    and "blen s + length (if f = 0 then ''::'' else []) < BUF_SIZE"
  obtains s1 where "ipaddr_loop a (i # is) f s = ipaddr_loop a is (f + 1) s1"
    and "page_text (w @ (if f = 0 then ''::'' else [])) s1"
    and "blen s1 = blen s + length (if f = 0 then ''::'' else [])"
  using ADD_text [OF assms(1,4)] assms that by (cases "f = 0") (auto simp: Let_def)

abbreviation colon_text :: "bool \<Rightarrow> int \<Rightarrow> string" where
  "colon_text first f \<equiv> if 0 < f then [] else if \<not> first then '':'' else []"

lemma ipaddr_loop_shown:
  assumes "page_text w s" and "\<not> (addr_group a i = 0 \<and> 0 \<le> f)" and "first \<longleftrightarrow> i = 0"
    and "blen s + length (colon_text first f @ hex (unat (addr_group a i))) < BUF_SIZE"
  obtains s2 where "ipaddr_loop a (i # is) f s = ipaddr_loop a is (if 0 < f then - 1 else f) s2"
    and "page_text (w @ colon_text first f @ hex (unat (addr_group a i))) s2"
    and "blen s2 = blen s + length (colon_text first f @ hex (unat (addr_group a i)))"
proof -
  have "blen s + length (colon_text first f) < BUF_SIZE" using assms(4) by simp
  from ADD_text [OF assms(1) this] obtain s1 where
    s1: "(if 0 < f then Inr s else if 0 < i then ADD '':'' s else Inr s) = Inr s1"
    "page_text (w @ colon_text first f) s1" "blen s1 = blen s + length (colon_text first f)"
    using assms(1,3) by (cases "0 < f"; cases "i = 0") auto
  have "blen s1 + length (hex (unat (addr_group a i))) < BUF_SIZE"
    using assms(4) s1(3) by simp
  from ADD_text [OF s1(2) this] obtain s2 where
    s2: "ADD (hex (unat (addr_group a i))) s1 = Inr s2"
    "page_text ((w @ colon_text first f) @ hex (unat (addr_group a i))) s2"
    "blen s2 = blen s1 + length (hex (unat (addr_group a i)))"
    by auto
  have "ipaddr_loop a (i # is) f s = ipaddr_loop a is (if 0 < f then - 1 else f) s2"
    using s1(1) s2(1) by (auto simp: Let_def assms(2) simp del: not_le)
  then show ?thesis using that [of s2] s1(3) s2(2,3) by simp
qed

lemma ipaddr_loop_text:
  assumes "page_text w s"
    and "blen s + length (group_text first f (map (addr_group a) is)) < BUF_SIZE"
    and "\<forall>i\<in>set is. first \<or> 0 < i" and "first \<longrightarrow> (\<exists>js. is = 0 # js \<and> (\<forall>j\<in>set js. 0 < j))"
  shows "\<exists>s'. ipaddr_loop a is f s = Inr s' \<and>
    page_text (w @ group_text first f (map (addr_group a) is)) s' \<and>
    blen s' = blen s + length (group_text first f (map (addr_group a) is))"
  using assms
proof (induction "is" arbitrary: w s first f)
  case Nil
  then show ?case by simp
next
  case (Cons i "is")
  have pos: "\<forall>j\<in>set is. 0 < j" using Cons.prems(3,4) by (cases first) auto
  have first: "first \<longleftrightarrow> i = 0" using Cons.prems(3,4) by (cases first) auto
  have IH: "\<exists>s'. ipaddr_loop a is f s = Inr s' \<and>
      page_text (w @ group_text False f (map (addr_group a) is)) s' \<and>
      blen s' = blen s + length (group_text False f (map (addr_group a) is))"
    if "page_text w s" "blen s + length (group_text False f (map (addr_group a) is)) < BUF_SIZE" for w s f
    using Cons.IH [OF that] pos by simp
  show ?case
  proof (cases "addr_group a i = 0 \<and> 0 \<le> f")
    case True
    then have "blen s + length (if f = 0 then ''::'' else []) < BUF_SIZE" using Cons.prems(2) by auto
    with Cons.prems(1) True obtain s1 where s1: "ipaddr_loop a (i # is) f s = ipaddr_loop a is (f + 1) s1"
      "page_text (w @ (if f = 0 then ''::'' else [])) s1"
      "blen s1 = blen s + length (if f = 0 then ''::'' else [])"
      using ipaddr_loop_zero by blast
    then show ?thesis using IH [OF s1(2), of "f + 1"] Cons.prems(2) True by auto
  next
    case False
    have eq: "group_text first f (map (addr_group a) (i # is)) = colon_text first f @
        hex (unat (addr_group a i)) @ group_text False (if 0 < f then - 1 else f) (map (addr_group a) is)"
      using False by auto
    then have "blen s + length (colon_text first f @ hex (unat (addr_group a i))) < BUF_SIZE"
      using Cons.prems(2) by simp
    from ipaddr_loop_shown [OF Cons.prems(1) False first this] obtain s2 where
      s2: "ipaddr_loop a (i # is) f s = ipaddr_loop a is (if 0 < f then - 1 else f) s2"
      "page_text (w @ colon_text first f @ hex (unat (addr_group a i))) s2"
      "blen s2 = blen s + length (colon_text first f @ hex (unat (addr_group a i)))" .
    with IH [OF s2(2), of "if 0 < f then - 1 else f"] Cons.prems(2) show ?thesis
      unfolding eq by (auto simp: add.assoc)
  qed
qed

lemma ipaddr_add_text:
  assumes "page_text w s" and "blen s + length (ipaddr_text a) < BUF_SIZE"
  shows "\<exists>s'. ipaddr_add a s = Inr s' \<and> page_text (w @ ipaddr_text a) s' \<and>
    blen s' = blen s + length (ipaddr_text a)"
  using ipaddr_loop_text [OF assms(1), of True 0 a "[0, 2, 4, 6, 8, 10, 12, 14]"] assms(2)
  by (simp add: ipaddr_add_def ipaddr_text_def groups_def)

subsection \<open>The rows\<close>

definition neighbor_text :: "ipaddr \<Rightarrow> string" where
  "neighbor_text n = ipaddr_text n @ [CHR 0x0A]"

definition route_text :: "route \<Rightarrow> string" where
  "route_text r = ipaddr_text (r_ipaddr r) @ ''/'' @ decimal (unat (r_length r)) @ '' (via '' @
     (case r_nexthop r of None \<Rightarrow> [] | Some a \<Rightarrow> ipaddr_text a) @
     '') '' @ decimal (unat (r_lifetime r)) @ ''s'' @ [CHR 0x0A]"

definition link_text :: "link \<Rightarrow> string" where
  "link_text l = (case l_parent l of None \<Rightarrow> []
     | Some p \<Rightarrow> ipaddr_text (l_child l) @ '' (parent: '' @ ipaddr_text p @
         '') '' @ decimal (unat (l_lifetime l)) @ ''s'' @ [CHR 0x0A])"

lemma length_decimal_u32: "length (decimal (unat (n :: u32))) \<le> 10"
proof -
  have step: "length (decimal m) \<le> k + 1" if "m div 10 < 10 ^ k" "\<And>x. x < 10 ^ k \<Longrightarrow> length (decimal x) \<le> k" "0 < k" for m k :: nat
    using that(2) [OF that(1)] that(3) by (subst decimal.simps) simp
  have "0 < k \<Longrightarrow> m < 10 ^ k \<Longrightarrow> length (decimal m) \<le> k" for m k :: nat
  proof (induction k arbitrary: m)
    case (Suc k)
    show ?case
    proof (cases "k = 0")
      case True
      with Suc.prems show ?thesis by (subst decimal.simps) simp
    next
      case False
      have "m div 10 < 10 ^ k" using Suc.prems(2) by (simp add: less_mult_imp_div_less mult.commute)
      from step [OF this Suc.IH] False show ?thesis by simp
    qed
  qed simp
  moreover have "unat n < 10 ^ 10" using unsigned_less [of n, where 'a = nat] by simp
  ultimately show ?thesis by (metis zero_less_numeral)
qed

lemma neighbor_rows_text:
  assumes "page_text w s" and "blen s \<le> BUF_SIZE - 45"
  shows "\<exists>s'. neighbor_rows ns s = Inr s' \<and> page_text (w @ concat (map neighbor_text ns)) s' \<and>
    blen s' \<le> BUF_SIZE - 45"
  using assms
proof (induction ns arbitrary: w s)
  case Nil
  then show ?case by auto
next
  case (Cons n ns)
  have len: "length (ipaddr_text n) \<le> 39" by (rule length_ipaddr_text)
  have "blen s + length (ipaddr_text n) < BUF_SIZE" using Cons.prems(2) len by (simp add: BUF_SIZE_def)
  from ipaddr_add_text [OF Cons.prems(1) this] obtain s1 where s1: "ipaddr_add n s = Inr s1"
    "page_text (w @ ipaddr_text n) s1" "blen s1 = blen s + length (ipaddr_text n)" by blast
  have "blen s1 + length [CHR 0x0A] < BUF_SIZE" using Cons.prems(2) len s1(3) by (simp add: BUF_SIZE_def)
  from ADD_text [OF s1(2) this] obtain s2 where s2: "ADD [CHR 0x0A] s1 = Inr s2"
    "page_text ((w @ ipaddr_text n) @ [CHR 0x0A]) s2" "blen s2 = blen s1 + 1" by auto
  let ?s3 = "if BUF_SIZE - 45 < blen s2 then send_buf s2 else s2"
  have "page_text ((w @ ipaddr_text n) @ [CHR 0x0A]) ?s3" and "blen ?s3 \<le> BUF_SIZE - 45"
    using send_buf_text [OF s2(2)] s2(2,3) by auto
  from Cons.IH [OF this] s1(1) s2(1) show ?case by (simp add: neighbor_text_def)
qed

lemma route_row:
  assumes "page_text w s" and "blen s = 0" and "r_nexthop r \<noteq> None"
  shows "\<exists>s'. route_rows (r # rs) s = route_rows rs s' \<and> page_text (w @ route_text r) s' \<and> blen s' = 0"
proof -
  obtain a where a: "r_nexthop r = Some a" using assms(3) by auto
  let ?t1 = "ipaddr_text (r_ipaddr r)" and ?t2 = "''/'' @ decimal (unat (r_length r)) @ '' (via ''"
  let ?t3 = "ipaddr_text a" and ?t4 = "'') '' @ decimal (unat (r_lifetime r)) @ ''s'' @ [CHR 0x0A]"
  have "length (decimal (unat (r_length r))) \<le> 3"
    using unat_u8_less [of "r_length r"] by (intro length_decimal) linarith
  then have l2: "length ?t2 \<le> 10" by simp
  have l4: "length ?t4 \<le> 14" using length_decimal_u32 [of "r_lifetime r"] by simp
  have l13: "length ?t1 \<le> 39" "length ?t3 \<le> 39" by (rule length_ipaddr_text)+
  have "blen s + length ?t1 < BUF_SIZE" using assms(2) l13 by (simp add: BUF_SIZE_def)
  from ipaddr_add_text [OF assms(1) this] obtain s1 where s1: "ipaddr_add (r_ipaddr r) s = Inr s1"
    "page_text (w @ ?t1) s1" "blen s1 = blen s + length ?t1" by blast
  have "blen s1 + length ?t2 < BUF_SIZE" using assms(2) l13 l2 s1(3) by (simp add: BUF_SIZE_def)
  from ADD_text [OF s1(2) this] obtain s2 where s2: "ADD ?t2 s1 = Inr s2" "page_text ((w @ ?t1) @ ?t2) s2"
    "blen s2 = blen s1 + length ?t2" by blast
  have "blen s2 + length ?t3 < BUF_SIZE" using assms(2) l13 l2 s1(3) s2(3) by (simp add: BUF_SIZE_def)
  from ipaddr_add_text [OF s2(2) this] obtain s3 where s3: "ipaddr_add a s2 = Inr s3"
    "page_text (((w @ ?t1) @ ?t2) @ ?t3) s3" "blen s3 = blen s2 + length ?t3" by blast
  have "blen s3 + length ?t4 < BUF_SIZE"
    using assms(2) l13 l2 l4 s1(3) s2(3) s3(3) by (simp add: BUF_SIZE_def)
  from ADD_text [OF s3(2) this] obtain s4 where s4: "ADD ?t4 s3 = Inr s4"
    "page_text ((((w @ ?t1) @ ?t2) @ ?t3) @ ?t4) s4" "blen s4 = blen s3 + length ?t4" by blast
  have "0 < blen s4" using s4(3) by simp
  from send_buf_text [OF s4(2) this] show ?thesis
    using a s1(1) s2(1) s3(1) s4(1) by (intro exI [of _ "send_buf s4"]) (simp add: route_text_def)
qed

lemma route_row_fault:
  assumes "page_text w s" and "blen s = 0" and "r_nexthop r = None"
  shows "route_rows (r # rs) s = Inl Null_pointer"
proof -
  let ?t1 = "ipaddr_text (r_ipaddr r)" and ?t2 = "''/'' @ decimal (unat (r_length r)) @ '' (via ''"
  have "length (decimal (unat (r_length r))) \<le> 3"
    using unat_u8_less [of "r_length r"] by (intro length_decimal) linarith
  then have l2: "length ?t2 \<le> 10" by simp
  have l1: "length ?t1 \<le> 39" by (rule length_ipaddr_text)
  have "blen s + length ?t1 < BUF_SIZE" using assms(2) l1 by (simp add: BUF_SIZE_def)
  from ipaddr_add_text [OF assms(1) this] obtain s1 where s1: "ipaddr_add (r_ipaddr r) s = Inr s1"
    "page_text (w @ ?t1) s1" "blen s1 = blen s + length ?t1" by blast
  have "blen s1 + length ?t2 < BUF_SIZE" using assms(2) l1 l2 s1(3) by (simp add: BUF_SIZE_def)
  from ADD_text [OF s1(2) this] s1(1) assms(3) show ?thesis by auto
qed

lemma route_rows_text:
  assumes "page_text w s" and "blen s = 0"
  shows "if \<exists>r\<in>set rs. r_nexthop r = None then route_rows rs s = Inl Null_pointer
    else \<exists>s'. route_rows rs s = Inr s' \<and> page_text (w @ concat (map route_text rs)) s' \<and> blen s' = 0"
  using assms
proof (induction rs arbitrary: w s)
  case Nil
  then show ?case by simp
next
  case (Cons r rs)
  show ?case
  proof (cases "r_nexthop r = None")
    case True
    then show ?thesis using route_row_fault [OF Cons.prems] by simp
  next
    case False
    then obtain s' where s': "route_rows (r # rs) s = route_rows rs s'" "page_text (w @ route_text r) s'"
      "blen s' = 0"
      using route_row [OF Cons.prems] by blast
    from Cons.IH [OF s'(2,3)] False show ?thesis unfolding s'(1) by (auto split: if_splits)
  qed
qed

lemma link_rows_text:
  assumes "page_text w s" and "blen s = 0"
  shows "\<exists>s'. link_rows ls s = Inr s' \<and> page_text (w @ concat (map link_text ls)) s' \<and> blen s' = 0"
  using assms
proof (induction ls arbitrary: w s)
  case Nil
  then show ?case by auto
next
  case (Cons l ls)
  show ?case
  proof (cases "l_parent l")
    case None
    then show ?thesis using Cons by (simp add: link_text_def)
  next
    case (Some p)
    let ?t1 = "ipaddr_text (l_child l)" and ?t2 = "'' (parent: ''"
    let ?t3 = "ipaddr_text p" and ?t4 = "'') '' @ decimal (unat (l_lifetime l)) @ ''s'' @ [CHR 0x0A]"
    have l4: "length ?t4 \<le> 14" using length_decimal_u32 [of "l_lifetime l"] by simp
    have l13: "length ?t1 \<le> 39" "length ?t3 \<le> 39" by (rule length_ipaddr_text)+
    have "blen s + length ?t1 < BUF_SIZE" using Cons.prems(2) l13 by (simp add: BUF_SIZE_def)
    from ipaddr_add_text [OF Cons.prems(1) this] obtain s1 where s1: "ipaddr_add (l_child l) s = Inr s1"
      "page_text (w @ ?t1) s1" "blen s1 = blen s + length ?t1" by blast
    have "blen s1 + length ?t2 < BUF_SIZE" using Cons.prems(2) l13 s1(3) by (simp add: BUF_SIZE_def)
    from ADD_text [OF s1(2) this] obtain s2 where s2: "ADD ?t2 s1 = Inr s2" "page_text ((w @ ?t1) @ ?t2) s2"
      "blen s2 = blen s1 + length ?t2" by blast
    have "blen s2 + length ?t3 < BUF_SIZE" using Cons.prems(2) l13 s1(3) s2(3) by (simp add: BUF_SIZE_def)
    from ipaddr_add_text [OF s2(2) this] obtain s3 where s3: "ipaddr_add p s2 = Inr s3"
      "page_text (((w @ ?t1) @ ?t2) @ ?t3) s3" "blen s3 = blen s2 + length ?t3" by blast
    have "blen s3 + length ?t4 < BUF_SIZE"
      using Cons.prems(2) l13 l4 s1(3) s2(3) s3(3) by (simp add: BUF_SIZE_def)
    from ADD_text [OF s3(2) this] obtain s4 where s4: "ADD ?t4 s3 = Inr s4"
      "page_text ((((w @ ?t1) @ ?t2) @ ?t3) @ ?t4) s4" "blen s4 = blen s3 + length ?t4" by blast
    have "0 < blen s4" using s4(3) by simp
    note sb = send_buf_text [OF s4(2) this]
    from Cons.IH [OF conjunct1 [OF sb] conjunct2 [OF sb]] show ?thesis
      using Some s1(1) s2(1) s3(1) s4(1) by (simp add: link_text_def)
  qed
qed

subsection \<open>Properties\<close>

text \<open>
  C32: An address is written as RFC 4291 has it, its groups in hexadecimal and a
  run of zero groups compressed (the first run, were it a single group, and not
  the longest), in at most 39 characters.
\<close>

theorem ipaddr_add_rfc_text:
  assumes "page_text w s" and "blen s + 39 < BUF_SIZE"
  shows "\<exists>s'. ipaddr_add a s = Inr s' \<and> page_text (w @ rfc_text (groups a)) s' \<and>
    length (rfc_text (groups a)) \<le> 39"
  using ipaddr_add_text [OF assms(1), of a] length_ipaddr_text [of a] assms(2)
  by (auto simp: ipaddr_text_rfc)

definition empty_page :: page where
  "empty_page = \<lparr>content = [], blen = 0, sent_strings = []\<rparr>"

lemma ipaddr_add_rfc_text_witness:
  "\<exists>s'. ipaddr_add (0xfd # replicate 13 0 @ [0xa4, 0x69]) empty_page = Inr s' \<and> page_text ''fd00::a469'' s'"
proof -
  have "page_text [] empty_page" by (simp add: page_text_def empty_page_def)
  moreover have "groups (0xfd # replicate 13 0 @ [0xa4, 0x69]) = [0xfd00, 0, 0, 0, 0, 0, 0, 0xa469]"
    by (simp add: groups_def addr_group_def nth_append)
  moreover have "hex 64768 = ''fd00''" "hex 42089 = ''a469''"
    by (simp_all add: hex.simps hex_digit_def)
  then have "rfc_text [0xfd00, 0, 0, 0, 0, 0, 0, 0xa469] = ''fd00::a469''"
    by (simp add: rfc_text_def)
  ultimately show ?thesis
    using ipaddr_add_rfc_text [of "[]" empty_page "0xfd # replicate 13 0 @ [0xa4, 0x69]"]
    by (auto simp: empty_page_def BUF_SIZE_def)
qed

text \<open>The head of the page, up to the table of routes, and the links.\<close>

lemma page_head_text:
  obtains s1 s2 s3 where "ADD ''Neighbors<pre>'' ((SEND_STRING TOP s)\<lparr>blen := 0\<rparr>) = Inr s1"
    and "neighbor_rows nbrs s1 = Inr s2" and "ADD (''</pre>Routes<pre>'' @ [CHR 0x0A]) s2 = Inr s3"
    and "page_text ((((concat (sent_strings s) @ TOP) @ ''Neighbors<pre>'') @
      concat (map neighbor_text nbrs)) @ ''</pre>Routes<pre>'' @ [CHR 0x0A]) s3" and "0 < blen s3"
proof -
  let ?w = "concat (sent_strings s) @ TOP"
  let ?s0 = "(SEND_STRING TOP s)\<lparr>blen := 0\<rparr>"
  have "page_text ?w ?s0" by (simp add: page_text_def SEND_STRING_def)
  from ADD_text [OF this, of "''Neighbors<pre>''"] obtain s1 where s1: "ADD ''Neighbors<pre>'' ?s0 = Inr s1"
    "page_text (?w @ ''Neighbors<pre>'') s1" "blen s1 = 14"
    by (auto simp: BUF_SIZE_def)
  let ?w2 = "(?w @ ''Neighbors<pre>'') @ concat (map neighbor_text nbrs)"
  from neighbor_rows_text [OF s1(2), of nbrs] s1(3) obtain s2 where s2: "neighbor_rows nbrs s1 = Inr s2"
    "page_text ?w2 s2" "blen s2 \<le> BUF_SIZE - 45"
    by (auto simp: BUF_SIZE_def)
  let ?r = "''</pre>Routes<pre>'' @ [CHR 0x0A]"
  have "blen s2 + length ?r < BUF_SIZE" using s2(3) by (simp add: BUF_SIZE_def)
  from ADD_text [OF s2(2) this] obtain s3 where "ADD ?r s2 = Inr s3" "page_text (?w2 @ ?r) s3"
    "blen s3 = blen s2 + length ?r" by blast
  then show ?thesis using that s1(1) s2(1) by simp
qed

lemma page_links_text:
  assumes "page_text w s" and "blen s = 6"
  obtains s' where "(if non_storing then
          rbind (ADD (''Links<pre>'' @ [CHR 0x0A]) s) (\<lambda>s.
          rbind (link_rows links (send_buf s)) (ADD ''</pre>''))
        else Inr s) = Inr s'"
    and "page_text (w @ (if non_storing then ''Links<pre>'' @ [CHR 0x0A] @ concat (map link_text links) @ ''</pre>''
      else [])) s'" and "blen s' = 6"
proof (cases non_storing)
  case True
  let ?k = "''Links<pre>'' @ [CHR 0x0A]"
  have "blen s + length ?k < BUF_SIZE" using assms(2) by (simp add: BUF_SIZE_def)
  from ADD_text [OF assms(1) this] obtain s6 where s6: "ADD ?k s = Inr s6"
    "page_text (w @ ?k) s6" "blen s6 = blen s + length ?k" by blast
  then have "0 < blen s6" by simp
  note sb = send_buf_text [OF s6(2) this]
  from link_rows_text [OF conjunct1 [OF sb] conjunct2 [OF sb], of links] obtain s7 where
    s7: "link_rows links (send_buf s6) = Inr s7" "blen s7 = 0"
    "page_text ((w @ ?k) @ concat (map link_text links)) s7" by blast
  from ADD_text [OF s7(3), of "''</pre>''"] s7(2) obtain s8 where "ADD ''</pre>'' s7 = Inr s8"
    "page_text (((w @ ?k) @ concat (map link_text links)) @ ''</pre>'') s8" "blen s8 = 6"
    by (auto simp: BUF_SIZE_def)
  then show ?thesis using that True s6(1) s7(1) by simp
next
  case False
  then show ?thesis using that assms by simp
qed

text \<open>
  C31: The page of the border router is complete, however many neighbours, routes
  and links there are: the strings that are sent make up the whole text, the
  buffer of 256 characters never overflows and nothing is cut off. The one way
  to fail is a route whose next hop is unknown, which \<open>ipaddr_add\<close> reads through
  a null pointer.
\<close>

theorem generate_routes_complete:
  "case generate_routes non_storing nbrs routes links s of
     Inl f \<Rightarrow> f = Null_pointer \<and> (\<exists>r\<in>set routes. r_nexthop r = None)
   | Inr s' \<Rightarrow> list_all (\<lambda>r. r_nexthop r \<noteq> None) routes \<and>
      concat (sent_strings s') = concat (sent_strings s) @ TOP @ ''Neighbors<pre>'' @
        concat (map neighbor_text nbrs) @ ''</pre>Routes<pre>'' @ [CHR 0x0A] @
        concat (map route_text routes) @ ''</pre>'' @
        (if non_storing then ''Links<pre>'' @ [CHR 0x0A] @ concat (map link_text links) @ ''</pre>'' else []) @
        BOTTOM"
proof -
  from page_head_text obtain s1 s2 s3 where head: "ADD ''Neighbors<pre>'' ((SEND_STRING TOP s)\<lparr>blen := 0\<rparr>) = Inr s1"
    "neighbor_rows nbrs s1 = Inr s2" "ADD (''</pre>Routes<pre>'' @ [CHR 0x0A]) s2 = Inr s3"
    and s3: "page_text ((((concat (sent_strings s) @ TOP) @ ''Neighbors<pre>'') @
      concat (map neighbor_text nbrs)) @ ''</pre>Routes<pre>'' @ [CHR 0x0A]) s3" (is "page_text ?w s3") "0 < blen s3" .
  note sb = send_buf_text [OF s3]
  have start: "generate_routes non_storing nbrs routes links s =
     rbind (route_rows routes (send_buf s3)) (\<lambda>s.
     rbind (ADD ''</pre>'' s) (\<lambda>s.
     rbind
       (if non_storing then
          rbind (ADD (''Links<pre>'' @ [CHR 0x0A]) s) (\<lambda>s.
          rbind (link_rows links (send_buf s)) (ADD ''</pre>''))
        else Inr s)
       (\<lambda>s. Inr (SEND_STRING BOTTOM (SEND_STRING (content s) s)))))"
    by (simp only: generate_routes_def head rbind.simps)
  show ?thesis
  proof (cases "\<exists>r\<in>set routes. r_nexthop r = None")
    case True
    with route_rows_text [OF conjunct1 [OF sb] conjunct2 [OF sb], of routes] show ?thesis
      unfolding start by simp
  next
    case False
    let ?w4 = "?w @ concat (map route_text routes)"
    obtain s4 where s4: "route_rows routes (send_buf s3) = Inr s4" "page_text ?w4 s4" "blen s4 = 0"
      using route_rows_text [OF conjunct1 [OF sb] conjunct2 [OF sb], of routes] False by auto
    from ADD_text [OF s4(2), of "''</pre>''"] s4(3) obtain s5 where s5: "ADD ''</pre>'' s4 = Inr s5"
      "page_text (?w4 @ ''</pre>'') s5" "blen s5 = 6" by (auto simp: BUF_SIZE_def)
    from page_links_text [OF s5(2,3), of non_storing links] obtain s6 where s6: "(if non_storing then
          rbind (ADD (''Links<pre>'' @ [CHR 0x0A]) s5) (\<lambda>s.
          rbind (link_rows links (send_buf s)) (ADD ''</pre>''))
        else Inr s5) = Inr s6" "page_text ((?w4 @ ''</pre>'') @ (if non_storing
          then ''Links<pre>'' @ [CHR 0x0A] @ concat (map link_text links) @ ''</pre>'' else [])) s6" "blen s6 = 6" .
    have "generate_routes non_storing nbrs routes links s =
        Inr (SEND_STRING BOTTOM (SEND_STRING (content s6) s6))"
      unfolding start using s4(1) s5(1) s6(1) by (simp only: rbind.simps)
    then show ?thesis
      using False s6(2,3) by (auto simp: SEND_STRING_def list_all_iff page_text_def)
  qed
qed

end
