(* ===== verification/Logging.thy ===== *)
theory Logging
  imports Web_Page C_Strings
begin

text \<open>
  \<open>log.c\<close>: the levels of the logging modules, which can be lowered at run time
  but not raised above the compiled level, and the short forms in which
  addresses are printed; \<open>log.h\<close> and \<open>log-conf.h\<close>: the macros that programs log with
  and their defaults. What a build configures, Contiki's address classes, its text
  of an address and the ids of its deployment module are arguments.
\<close>

subsection \<open>Levels\<close>

definition LOG_LEVEL_NONE :: int where "LOG_LEVEL_NONE = 0"
definition LOG_LEVEL_ERR :: int where "LOG_LEVEL_ERR = 1"
definition LOG_LEVEL_WARN :: int where "LOG_LEVEL_WARN = 2"
definition LOG_LEVEL_INFO :: int where "LOG_LEVEL_INFO = 3"
definition LOG_LEVEL_DBG :: int where "LOG_LEVEL_DBG = 4"

lemmas log_level_defs = LOG_LEVEL_NONE_def LOG_LEVEL_ERR_def LOG_LEVEL_WARN_def
  LOG_LEVEL_INFO_def LOG_LEVEL_DBG_def

record log_module =
  lm_name :: string
  curr_log_level :: int
  max_log_level :: int

text \<open>The table: every module starts at its compiled level.\<close>

definition module_names :: "string list" where
  "module_names = [''rpl'', ''tcpip'', ''ipv6'', ''6lowpan'', ''nullnet'', ''mac'', ''framer'', ''6top'',
     ''coap'', ''lwm2m'', ''main'']"

definition all_modules :: "(string \<Rightarrow> int) \<Rightarrow> log_module list" where
  "all_modules conf =
     map (\<lambda>n. \<lparr>lm_name = n, curr_log_level = conf n, max_log_level = conf n\<rparr>) module_names"

fun set_levels :: "bool \<Rightarrow> string \<Rightarrow> int \<Rightarrow> log_module list \<Rightarrow> log_module list" where
  "set_levels module_all module level [] = []"
| "set_levels module_all module level (m # ms) =
     (if module_all \<or> module = lm_name m
      then m\<lparr>curr_log_level := min level (max_log_level m)\<rparr> else m) #
     set_levels module_all module level ms"

definition log_set_level :: "string option \<Rightarrow> int \<Rightarrow> log_module list \<Rightarrow> log_module list res" where
  "log_set_level module level ms =
     (if LOG_LEVEL_NONE \<le> level \<and> level \<le> LOG_LEVEL_DBG then
        case module of
          None \<Rightarrow> Inl Null_pointer  \<comment> \<open>\<open>strcmp\<close> of a null pointer\<close>
        | Some m \<Rightarrow> Inr (set_levels (m = ''all'') m level ms)
      else Inr ms)"

fun get_level :: "string \<Rightarrow> log_module list \<Rightarrow> int" where
  "get_level module [] = - 1"
| "get_level module (m # ms) =
     (if module = lm_name m then curr_log_level m else get_level module ms)"

definition log_get_level :: "string option \<Rightarrow> log_module list \<Rightarrow> int" where
  "log_get_level module ms = (case module of None \<Rightarrow> - 1 | Some m \<Rightarrow> get_level m ms)"

definition log_level_to_str :: "int \<Rightarrow> string" where
  "log_level_to_str level =
     (if level = LOG_LEVEL_NONE then ''None''
      else if level = LOG_LEVEL_ERR then ''Errors''
      else if level = LOG_LEVEL_WARN then ''Warnings''
      else if level = LOG_LEVEL_INFO then ''Info''
      else if level = LOG_LEVEL_DBG then ''Debug''
      else ''N/A'')"

text \<open>The test in the macro \<open>LOG\<close>, with \<open>LOG_LEVEL_<module>\<close> of \<open>log.h\<close>.\<close>

definition log_enabled :: "int \<Rightarrow> log_module \<Rightarrow> bool" where
  "log_enabled level m \<longleftrightarrow> level \<le> min (max_log_level m) (curr_log_level m)"

subsection \<open>Addresses\<close>

text \<open>\<open>snprintf(buf, size, ...)\<close>: the string in the buffer and the length returned.\<close>

definition snprintf :: "nat \<Rightarrow> string \<Rightarrow> string \<times> nat" where
  "snprintf sz t = (take (sz - 1) t, length t)"

definition hex_pad :: "nat \<Rightarrow> nat \<Rightarrow> string" where
  "hex_pad width n = replicate (width - length (hex n)) (CHR ''0'') @ hex n"

definition dec_pad :: "nat \<Rightarrow> nat \<Rightarrow> string" where
  "dec_pad width n = replicate (width - length (decimal n)) (CHR ''0'') @ decimal n"

text \<open>
  \<open>uiplib\<close>: the string that \<open>uiplib_ipaddr_snprint\<close> writes into a buffer of the
  given size, here of \<open>UIPLIB_IPV6_MAX_STR_LEN\<close> characters.
\<close>

definition log_6addr :: "(nat \<Rightarrow> ipaddr option \<Rightarrow> string) \<Rightarrow> nat \<Rightarrow> ipaddr option \<Rightarrow> string" where
  "log_6addr uiplib max_str_len addr = uiplib max_str_len addr"

text \<open>
  \<open>deployment_id\<close>: the ids of the deployment module of Contiki, in a build with
  \<open>BUILD_WITH_DEPLOYMENT\<close>.
\<close>

definition log_6addr_compact_snprint ::
  "(ipaddr \<Rightarrow> nat) option \<Rightarrow> (ipaddr \<Rightarrow> bool) \<Rightarrow> (ipaddr \<Rightarrow> bool) \<Rightarrow> nat \<Rightarrow> ipaddr option \<Rightarrow> string \<times> nat" where
  "log_6addr_compact_snprint deployment_id is_mcast is_linklocal sz addr =
     (case addr of
        None \<Rightarrow> snprintf sz ''6A-NULL''
      | Some a \<Rightarrow>
          let prefix = (if is_mcast a then ''6M'' else if is_linklocal a then ''6L'' else ''6G'')
          in (case deployment_id of
                Some node_of \<Rightarrow> snprintf sz (prefix @ ''-'' @ dec_pad 3 (node_of a))
              | None \<Rightarrow> snprintf sz (prefix @ ''-'' @ hex_pad 4 (unat (addr_group a 14)))))"

definition log_6addr_compact :: "(ipaddr \<Rightarrow> nat) option \<Rightarrow> (ipaddr \<Rightarrow> bool) \<Rightarrow> (ipaddr \<Rightarrow> bool) \<Rightarrow> ipaddr option \<Rightarrow> string" where
  "log_6addr_compact deployment_id is_mcast is_linklocal addr =
     fst (log_6addr_compact_snprint deployment_id is_mcast is_linklocal 8 addr)"

text \<open>A link-layer address is printed in pieces, each one call of \<open>LOG_OUTPUT\<close>.\<close>

fun lladdr_loop :: "u8 list \<Rightarrow> nat \<Rightarrow> string list" where
  "lladdr_loop [] i = []"
| "lladdr_loop (b # bs) i =
     (if 0 < i \<and> i mod 2 = 0 then [''.''] else []) @ hex_pad 2 (unat b) # lladdr_loop bs (i + 1)"

definition log_lladdr :: "u8 list option \<Rightarrow> string list" where
  "log_lladdr lladdr =
     (case lladdr of None \<Rightarrow> [''(NULL LL addr)''] | Some a \<Rightarrow> lladdr_loop a 0)"

definition log_lladdr_compact :: "(u8 list \<Rightarrow> nat) option \<Rightarrow> u8 list option \<Rightarrow> string" where
  "log_lladdr_compact deployment_id lladdr =
     (case lladdr of
        None \<Rightarrow> ''LL-NULL''
      | Some a \<Rightarrow> if list_all (\<lambda>b. b = 0) a then ''LL-NULL''
          else (case deployment_id of
                  Some node_of \<Rightarrow> ''LL-'' @ dec_pad 4 (node_of a)
                | None \<Rightarrow> ''LL-'' @ hex_pad 4 (unat (addr_group a (length a - 2)))))"

subsection \<open>Facts\<close>

lemma set_levels_names [simp]: "map lm_name (set_levels al n l ms) = map lm_name ms"
  by (induction ms) simp_all

lemma get_level_set:
  "get_level n (set_levels al m l ms) =
     (if n \<in> lm_name ` set ms \<and> (al \<or> n = m)
      then min l (max_log_level (the (find (\<lambda>x. lm_name x = n) ms))) else get_level n ms)"
  by (induction ms) auto

lemma addr_group_id: "addr_group a 14 = get_id_from_addr a"
proof -
  have "push_bit 8 (ucast x :: u16) + ucast (y :: u8) = push_bit 8 (ucast x) OR ucast y" for x :: u8 and y
    by (intro disjunctive_add) (auto simp: bit_push_bit_iff bit_ucast_iff dest: bit_imp_le_length)
  then show ?thesis by (simp add: addr_group_def get_id_from_addr_def)
qed

subsection \<open>Properties\<close>

text \<open>
  A log level set at run time is what is read back, unless the module was
  compiled for less, which stays the limit; a level out of range and a name that
  is not in the table change nothing, \<open>all\<close> sets every module, and no sequence
  of settings makes a module print what was compiled out.
\<close>

lemma log_level_set_get:
  "log_set_level (Some m) l (all_modules conf) = Inr ms \<Longrightarrow>
     log_get_level (Some n) ms =
       (if n \<notin> set module_names then - 1
        else if 0 \<le> l \<and> l \<le> 4 \<and> (m = ''all'' \<or> m = n) then min l (conf n) else conf n) \<and>
     list_all (\<lambda>x. log_enabled k x \<longrightarrow> k \<le> conf (lm_name x)) ms"
proof -
  assume set: "log_set_level (Some m) l (all_modules conf) = Inr ms"
  have find: "find (\<lambda>x. lm_name x = i) (map (\<lambda>n. \<lparr>lm_name = n, curr_log_level = conf n, max_log_level = conf n\<rparr>) ns)
      = (if i \<in> set ns then Some \<lparr>lm_name = i, curr_log_level = conf i, max_log_level = conf i\<rparr> else None)" for i ns
    by (induction ns) auto
  have get: "get_level i (map (\<lambda>n. \<lparr>lm_name = n, curr_log_level = conf n, max_log_level = conf n\<rparr>) ns)
      = (if i \<in> set ns then conf i else - 1)" for i ns
    by (induction ns) auto
  have ms: "ms = (if 0 \<le> l \<and> l \<le> 4 then set_levels (m = ''all'') m l (all_modules conf) else all_modules conf)"
    using set by (auto simp: log_set_level_def log_level_defs split: if_splits)
  have inv: "list_all (\<lambda>x. max_log_level x = conf (lm_name x)) (set_levels al m l xs)"
    if "list_all (\<lambda>x. max_log_level x = conf (lm_name x)) xs" for al m l and xs :: "log_module list"
    using that by (induction xs) auto
  have "list_all (\<lambda>x. max_log_level x = conf (lm_name x)) (all_modules conf)"
    by (simp add: all_modules_def list_all_iff)
  with inv have "list_all (\<lambda>x. max_log_level x = conf (lm_name x)) ms"
    by (simp add: ms)
  then have "list_all (\<lambda>x. log_enabled k x \<longrightarrow> k \<le> conf (lm_name x)) ms"
    by (auto simp: log_enabled_def list_all_iff)
  moreover have "lm_name ` set (all_modules conf) = set module_names"
    by (auto simp: all_modules_def image_image)
  ultimately show ?thesis
    by (auto simp: ms log_get_level_def get_level_set all_modules_def find get)
qed

lemma log_level_set_get_witness:
  "log_get_level (Some ''mac'') (set_levels False ''mac'' 4 (all_modules (\<lambda>n. 3))) = 3"
proof -
  have "log_set_level (Some ''mac'') 4 (all_modules (\<lambda>n. 3)) = Inr (set_levels False ''mac'' 4 (all_modules (\<lambda>n. 3)))"
    by (simp add: log_set_level_def log_level_defs)
  from log_level_set_get [OF this, of "''mac''"] show ?thesis by (simp add: module_names_def)
qed

text \<open>
  The short form of an address fits its buffer of eight characters, and shows
  the class of the address and the id that the attestation protocol uses for
  the node.
\<close>

lemma log_6addr_compact_shows_id:
  "length (log_6addr_compact None is_mcast is_linklocal (Some a)) = 7 \<and>
    take 3 (log_6addr_compact None is_mcast is_linklocal (Some a)) =
      (if is_mcast a then ''6M-'' else if is_linklocal a then ''6L-'' else ''6G-'') \<and>
    drop 3 (log_6addr_compact None is_mcast is_linklocal (Some a)) = hex_pad 4 (unat (get_id_from_addr a)) \<and>
    log_6addr_compact None is_mcast is_linklocal None = ''6A-NULL''"
proof -
  have "length (hex_pad 4 (unat (get_id_from_addr a))) = 4"
    using length_hex_u16 [of "get_id_from_addr a"] by (simp add: hex_pad_def)
  then show ?thesis
    by (simp add: log_6addr_compact_def log_6addr_compact_snprint_def snprintf_def addr_group_id Let_def)
qed

end
