(* ===== verification/Log_Statements.thy ===== *)
theory Log_Statements
  imports Logging
begin

text \<open>
  \<open>log-conf.h\<close> and the macros of \<open>log.h\<close>: what a log statement of a program
  prints, by the configuration of the build and the levels set at run time. The
  output is the list of the texts passed to \<open>printf\<close>, already formatted.
\<close>

subsection \<open>\<open>log-conf.h\<close>\<close>

text \<open>
  What a build may define, \<open>None\<close> if it does not: the switches, the functions
  called in place of \<open>printf\<close> and of the prefix, the levels by module name.
\<close>

record log_conf =
  LOG_CONF_WITH_COMPACT_ADDR :: "int option"
  LOG_CONF_WITH_LOC :: "int option"
  LOG_CONF_WITH_MODULE_PREFIX :: "int option"
  LOG_CONF_WITH_ANNOTATE :: "int option"
  LOG_CONF_OUTPUT :: "(string \<Rightarrow> string list \<Rightarrow> string list) option"
  LOG_CONF_OUTPUT_PREFIX :: "(int \<Rightarrow> string \<Rightarrow> string \<Rightarrow> string list \<Rightarrow> string list) option"
  conf_level :: "string \<Rightarrow> int option"

definition LOG_WITH_COMPACT_ADDR :: "log_conf \<Rightarrow> int" where
  "LOG_WITH_COMPACT_ADDR c = (case LOG_CONF_WITH_COMPACT_ADDR c of Some x \<Rightarrow> x | None \<Rightarrow> 0)"

definition LOG_WITH_LOC :: "log_conf \<Rightarrow> int" where
  "LOG_WITH_LOC c = (case LOG_CONF_WITH_LOC c of Some x \<Rightarrow> x | None \<Rightarrow> 0)"

definition LOG_WITH_MODULE_PREFIX :: "log_conf \<Rightarrow> int" where
  "LOG_WITH_MODULE_PREFIX c = (case LOG_CONF_WITH_MODULE_PREFIX c of Some x \<Rightarrow> x | None \<Rightarrow> 1)"

definition LOG_WITH_ANNOTATE :: "log_conf \<Rightarrow> int" where
  "LOG_WITH_ANNOTATE c = (case LOG_CONF_WITH_ANNOTATE c of Some x \<Rightarrow> x | None \<Rightarrow> 0)"

definition LOG_OUTPUT :: "log_conf \<Rightarrow> string \<Rightarrow> string list \<Rightarrow> string list" where
  "LOG_OUTPUT c t os = (case LOG_CONF_OUTPUT c of Some f \<Rightarrow> f t os | None \<Rightarrow> os @ [t])"

text \<open>\<open>%-4s\<close> and \<open>%-10s\<close>: padded on the right.\<close>

definition pad_right :: "nat \<Rightarrow> string \<Rightarrow> string" where
  "pad_right width t = t @ replicate (width - length t) (CHR '' '')"

definition LOG_OUTPUT_PREFIX :: "log_conf \<Rightarrow> int \<Rightarrow> string \<Rightarrow> string \<Rightarrow> string list \<Rightarrow> string list" where
  "LOG_OUTPUT_PREFIX c level levelstr module os =
     (case LOG_CONF_OUTPUT_PREFIX c of
        Some f \<Rightarrow> f level levelstr module os
      | None \<Rightarrow> LOG_OUTPUT c (''['' @ pad_right 4 levelstr @ '': '' @ pad_right 10 module @ ''] '') os)"

definition LOG_CONF_LEVEL :: "log_conf \<Rightarrow> string \<Rightarrow> int" where
  "LOG_CONF_LEVEL c module =
     (case conf_level c module of
        Some l \<Rightarrow> l
      | None \<Rightarrow> if module = ''main'' then LOG_LEVEL_INFO else LOG_LEVEL_NONE)"

subsection \<open>The macros of \<open>log.h\<close>\<close>

text \<open>\<open>LOG_LEVEL_RPL\<close> and the like: the level of a module.\<close>

definition LOG_LEVEL_of :: "log_conf \<Rightarrow> log_module \<Rightarrow> int" where
  "LOG_LEVEL_of c m = min (LOG_CONF_LEVEL c (lm_name m)) (curr_log_level m)"

text \<open>The place of a statement: \<open>LOG_LEVEL\<close>, \<open>LOG_MODULE\<close>, \<open>__FILE__\<close>, \<open>__LINE__\<close>.\<close>

record log_site =
  site_level :: int
  site_module :: string
  site_file :: string
  site_line :: nat

definition LOG :: "log_conf \<Rightarrow> log_site \<Rightarrow> bool \<Rightarrow> int \<Rightarrow> string \<Rightarrow> string \<Rightarrow> string list \<Rightarrow> string list" where
  "LOG c site newline level levelstr t os =
     (if level \<le> site_level site then
        let os = (if newline then
            let os = (if LOG_WITH_MODULE_PREFIX c \<noteq> 0
                      then LOG_OUTPUT_PREFIX c level levelstr (site_module site) os else os)
            in (if LOG_WITH_LOC c \<noteq> 0
                then LOG_OUTPUT c (''['' @ site_file site @ '': '' @ decimal (site_line site) @ ''] '') os
                else os)
          else os)
        in LOG_OUTPUT c t os
      else os)"

definition LOG_ANNOTATE :: "log_conf \<Rightarrow> string \<Rightarrow> string list \<Rightarrow> string list" where
  "LOG_ANNOTATE c t os = (if LOG_WITH_ANNOTATE c \<noteq> 0 then LOG_OUTPUT c t os else os)"

definition LOG_LLADDR ::
  "log_conf \<Rightarrow> (u8 list \<Rightarrow> nat) option \<Rightarrow> log_site \<Rightarrow> int \<Rightarrow> u8 list option \<Rightarrow> string list \<Rightarrow> string list" where
  "LOG_LLADDR c deployment_id site level lladdr os =
     (if level \<le> site_level site then
        if LOG_WITH_COMPACT_ADDR c \<noteq> 0 then LOG_OUTPUT c (log_lladdr_compact deployment_id lladdr) os
        else fold (LOG_OUTPUT c) (log_lladdr lladdr) os
      else os)"

text \<open>The kinds of statements: \<open>LOG_PRINT\<close>, \<open>LOG_ERR\<close> and so on.\<close>

datatype log_kind = PRI | ERR | WARN | INFO | DBG

fun kind_level :: "log_kind \<Rightarrow> int" where
  "kind_level PRI = 0"
| "kind_level ERR = LOG_LEVEL_ERR"
| "kind_level WARN = LOG_LEVEL_WARN"
| "kind_level INFO = LOG_LEVEL_INFO"
| "kind_level DBG = LOG_LEVEL_DBG"

fun kind_str :: "log_kind \<Rightarrow> string" where
  "kind_str PRI = ''PRI''"
| "kind_str ERR = ''ERR''"
| "kind_str WARN = ''WARN''"
| "kind_str INFO = ''INFO''"
| "kind_str DBG = ''DBG''"

definition LOG_kind :: "log_conf \<Rightarrow> log_site \<Rightarrow> log_kind \<Rightarrow> string \<Rightarrow> string list \<Rightarrow> string list" where
  "LOG_kind c site k = LOG c site True (kind_level k) (kind_str k)"

text \<open>\<open>LOG_PRINT_\<close>, \<open>LOG_ERR_\<close> and so on continue a line.\<close>

definition LOG_kind_cont :: "log_conf \<Rightarrow> log_site \<Rightarrow> log_kind \<Rightarrow> string \<Rightarrow> string list \<Rightarrow> string list" where
  "LOG_kind_cont c site k = LOG c site False (kind_level k) (kind_str k)"

definition LOG_kind_LLADDR ::
  "log_conf \<Rightarrow> (u8 list \<Rightarrow> nat) option \<Rightarrow> log_site \<Rightarrow> log_kind \<Rightarrow> u8 list option \<Rightarrow> string list \<Rightarrow> string list" where
  "LOG_kind_LLADDR c deployment_id site k = LOG_LLADDR c deployment_id site (kind_level k)"

text \<open>\<open>LOG_ERR_ENABLED\<close> and so on.\<close>

definition LOG_kind_ENABLED :: "log_site \<Rightarrow> log_kind \<Rightarrow> bool" where
  "LOG_kind_ENABLED site k \<longleftrightarrow> kind_level k \<le> site_level site"

text \<open>What \<open>LOG_6ADDR\<close> uses of Contiki.\<close>

record log_addr_lib =
  uiplib_snprint :: "nat \<Rightarrow> ipaddr option \<Rightarrow> string"
  max_str_len :: nat
  addr_is_mcast :: "ipaddr \<Rightarrow> bool"
  addr_is_linklocal :: "ipaddr \<Rightarrow> bool"
  deployment_id_from_iid :: "(ipaddr \<Rightarrow> nat) option"

definition LOG_6ADDR ::
  "log_conf \<Rightarrow> log_addr_lib \<Rightarrow> log_site \<Rightarrow> int \<Rightarrow> ipaddr option \<Rightarrow> string list \<Rightarrow> string list" where
  "LOG_6ADDR c lib site level a os =
     (if level \<le> site_level site then
        LOG_OUTPUT c
          (if LOG_WITH_COMPACT_ADDR c \<noteq> 0
           then log_6addr_compact (deployment_id_from_iid lib) (addr_is_mcast lib) (addr_is_linklocal lib) a
           else log_6addr (uiplib_snprint lib) (max_str_len lib) a) os
      else os)"

definition LOG_kind_6ADDR ::
  "log_conf \<Rightarrow> log_addr_lib \<Rightarrow> log_site \<Rightarrow> log_kind \<Rightarrow> ipaddr option \<Rightarrow> string list \<Rightarrow> string list" where
  "LOG_kind_6ADDR c lib site k = LOG_6ADDR c lib site (kind_level k)"

subsection \<open>Facts\<close>

lemma set_levels_map:
  "set_levels al n l ms =
     map (\<lambda>x. if al \<or> n = lm_name x then x\<lparr>curr_log_level := min l (max_log_level x)\<rparr> else x) ms"
  by (induction ms) simp_all

lemma log_set_level_member:
  assumes "log_set_level (Some n) l (all_modules conf) = Inr ms" and "x \<in> set ms"
  shows "lm_name x \<in> set module_names" and "max_log_level x = conf (lm_name x)"
    and "curr_log_level x = (if 0 \<le> l \<and> l \<le> 4 \<and> (n = ''all'' \<or> n = lm_name x)
      then min l (conf (lm_name x)) else conf (lm_name x))"
  using assms
  by (auto simp: log_set_level_def log_level_defs set_levels_map all_modules_def split: if_splits)

lemma module_prefix_width:
  "x \<in> set module_names \<Longrightarrow>
     length (''['' @ pad_right 4 (kind_str k) @ '': '' @ pad_right 10 x @ ''] '') = 19"
  by (cases k) (auto simp: module_names_def pad_right_def)

subsection \<open>Property\<close>


definition default_log_conf :: log_conf where
  "default_log_conf = \<lparr>LOG_CONF_WITH_COMPACT_ADDR = None, LOG_CONF_WITH_LOC = None,
     LOG_CONF_WITH_MODULE_PREFIX = None, LOG_CONF_WITH_ANNOTATE = None, LOG_CONF_OUTPUT = None,
     LOG_CONF_OUTPUT_PREFIX = None, conf_level = (\<lambda>m. None)\<rparr>"


end
