(* ===== verification/Configuration.thy ===== *)
theory Configuration
  imports Packets "HOL-Library.AList"
begin

text \<open>
  The settings of the programs: \<open>project-conf.h\<close> of the three programs that run
  on nodes, \<open>conf.h\<close>, and the constants of \<open>utility-functions.h\<close>, as directives
  of the C preprocessor. The headers of Contiki and of the testbed that they
  include are an argument.
\<close>

subsection \<open>The preprocessor\<close>

text \<open>What a macro stands for, as far as the conditions and constants need it.\<close>

datatype body =
    Num int
  | Name string
  | Times body body
  | Tokens string

type_synonym macros = "(string \<times> body) list"

datatype cond = Defined string | Nonzero string | Equals string int

datatype directive =
    Define string body
  | Undef string
  | Include string
  | If cond "directive list" "directive list"

lemma length_delete_less: "map_of ms x = Some b \<Longrightarrow> length (AList.delete x ms) < length ms"
  by (induction ms) (auto simp: AList.delete_eq intro: le_imp_less_Suc)

text \<open>
  The value of a macro in a condition or a constant expression. A macro is not
  replaced again within its own replacement; a name that is not a macro counts
  as 0.
\<close>

function value_of :: "macros \<Rightarrow> body \<Rightarrow> int option" where
  "value_of ms (Num i) = Some i"
| "value_of ms (Name x) =
     (case map_of ms x of None \<Rightarrow> Some 0 | Some b \<Rightarrow> value_of (AList.delete x ms) b)"
| "value_of ms (Times a b) =
     (case (value_of ms a, value_of ms b) of (Some i, Some j) \<Rightarrow> Some (i * j) | _ \<Rightarrow> None)"
| "value_of ms (Tokens t) = None"
  by pat_completeness auto

termination
  by (relation "measures [length \<circ> fst, size \<circ> snd]") (auto dest: length_delete_less)

definition macro_value :: "macros \<Rightarrow> string \<Rightarrow> int option" where
  "macro_value ms x = value_of ms (Name x)"

fun holds_in :: "macros \<Rightarrow> cond \<Rightarrow> bool" where
  "holds_in ms (Defined x) \<longleftrightarrow> map_of ms x \<noteq> None"
| "holds_in ms (Nonzero x) \<longleftrightarrow> macro_value ms x \<noteq> Some 0"
| "holds_in ms (Equals x i) \<longleftrightarrow> macro_value ms x = Some i"

text \<open>\<open>inc\<close>: what an included header does to the macros.\<close>

fun preprocess :: "(string \<Rightarrow> macros \<Rightarrow> macros) \<Rightarrow> directive list \<Rightarrow> macros \<Rightarrow> macros"
  and apply_directive :: "(string \<Rightarrow> macros \<Rightarrow> macros) \<Rightarrow> directive \<Rightarrow> macros \<Rightarrow> macros" where
  "preprocess inc [] ms = ms"
| "preprocess inc (d # ds) ms = preprocess inc ds (apply_directive inc d ms)"
| "apply_directive inc (Define x b) ms = AList.update x b ms"
| "apply_directive inc (Undef x) ms = AList.delete x ms"
| "apply_directive inc (Include f) ms = inc f ms"
| "apply_directive inc (If c ds es) ms = (if holds_in ms c then preprocess inc ds ms else preprocess inc es ms)"

subsection \<open>The files\<close>

definition orchestra_settings :: "directive list" where
  "orchestra_settings =
    [Define ''TSCH_SCHEDULE_CONF_WITH_6TISCH_MINIMAL'' (Num 0),
     Define ''TSCH_CONF_WITH_LINK_SELECTOR'' (Num 1),
     Define ''TSCH_CALLBACK_NEW_TIME_SOURCE'' (Name ''orchestra_callback_new_time_source''),
     Define ''TSCH_CALLBACK_PACKET_READY'' (Name ''orchestra_callback_packet_ready''),
     Define ''NETSTACK_CONF_ROUTING_NEIGHBOR_ADDED_CALLBACK'' (Name ''orchestra_callback_child_added''),
     Define ''NETSTACK_CONF_ROUTING_NEIGHBOR_REMOVED_CALLBACK'' (Name ''orchestra_callback_child_removed''),
     Define ''ORCHESTRA_CONF_UNICAST_SENDER_BASED'' (Num 1),
     Define ''ORCHESTRA_CONF_RULES''
       (Tokens ''{ &eb_per_time_source, &unicast_per_neighbor_rpl_storing, &default_common }'')]"

definition node_settings :: "directive list" where
  "node_settings =
    [Undef ''UIP_CONF_BUFFER_SIZE'',
     Define ''UIP_CONF_BUFFER_SIZE'' (Num 1280),
     Undef ''NETSTACK_CONF_RDC'',
     Define ''NETSTACK_CONF_RDC'' (Name ''nullrdc_driver''),
     Undef ''RPL_CONF_MAX_DAG_PER_INSTANCE'',
     Define ''RPL_CONF_MAX_DAG_PER_INSTANCE'' (Num 1),
     Undef ''UIP_CONF_TCP'',
     Define ''UIP_CONF_TCP'' (Num 0),
     Undef ''NETSTACK_CONF_MAC'',
     Define ''NETSTACK_CONF_MAC'' (Name ''nullmac_driver'')]"

definition testbed_settings :: "directive list" where
  "testbed_settings =
    [Include ''../../iotlab/00-configuration/tsch-project-conf.h'',
     Include ''../../iotlab/00-configuration/iotlab-project-conf.h'']"

definition multicast_settings :: "directive list" where
  "multicast_settings =
    [Include ''net/ipv6/multicast/uip-mcast6-engines.h'',
     If (Defined ''UIP_MCAST6_CONF_ENGINE'') []
       [Define ''UIP_MCAST6_CONF_ENGINE'' (Name ''UIP_MCAST6_ENGINE_ROLL_TM'')],
     Define ''UIP_MCAST6_ROUTE_CONF_ROUTES'' (Num 1)]"

text \<open>Macros with arguments are kept under their name, without their parameters.\<close>

definition log_settings :: "directive list" where
  "log_settings =
    [Define ''LOG_DBG_6ADDR'' (Tokens ''PRINT6ADDR(__VA_ARGS__)''),
     Define ''LOG_DBG'' (Tokens ''printf(__VA_ARGS__)''),
     Define ''LOG_INFO'' (Tokens ''printf(__VA_ARGS__)''),
     Define ''LOG_DBG_PY'' (Name ''printf'')]"

definition mrhof_settings :: "directive list" where
  "mrhof_settings =
    [Define ''RPL_MRHOF_CONF_SQUARED_ETX'' (Num 1),
     Undef ''RPL_CONF_OF'',
     Define ''RPL_CONF_SUPPORTED_OFS'' (Tokens ''{&rpl_of0, &rpl_mrhof}''),
     Define ''RPL_CONF_OF_OCP'' (Name ''RPL_OCP_OF0''),
     Define ''RPL_OF0_CONF_SR'' (Name ''RPL_OF0_FIXED_SR'')]"

definition guarded :: "directive list \<Rightarrow> directive list" where
  "guarded ds = [If (Defined ''PROJECT_ROUTER_CONF_H_'') [] (Define ''PROJECT_ROUTER_CONF_H_'' (Tokens []) # ds)]"

definition client_conf :: "directive list" where
  "client_conf = guarded (orchestra_settings @ node_settings @
    [Undef ''RPL_CONF_OF'', Define ''RPL_CONF_OF'' (Name ''rpl_of0'')] @
    testbed_settings @ multicast_settings @ log_settings @
    [Define ''RF2XX_TX_POWER'' (Name ''PHY_POWER_m10dBm''),
     Define ''RF2XX_RX_RSSI_THRESHOLD'' (Name ''RF2XX_PHY_RX_THRESHOLD__m84dBm''),
     Define ''RPL_CONF_LEAF_ONLY'' (Num 1)])"

definition relay_conf :: "directive list" where
  "relay_conf = guarded (orchestra_settings @ node_settings @ testbed_settings @ mrhof_settings @
    multicast_settings @ log_settings @
    [Define ''RF2XX_TX_POWER'' (Name ''PHY_POWER_m3dBm''),
     Define ''RF2XX_RX_RSSI_THRESHOLD'' (Name ''RF2XX_PHY_RX_THRESHOLD__m84dBm'')])"

definition router_conf :: "directive list" where
  "router_conf = guarded (orchestra_settings @
    [Define ''ORCHESTRA_CONF_UNICAST_PERIOD'' (Num 17),
     Define ''ORCHESTRA_CONF_COMMON_SHARED_PERIOD'' (Num 31),
     If (Defined ''WITH_NON_STORING'') [] [Define ''WITH_NON_STORING'' (Num 0)],
     If (Nonzero ''WITH_NON_STORING'')
       [Undef ''RPL_NS_CONF_LINK_NUM'', Define ''RPL_NS_CONF_LINK_NUM'' (Num 40),
        Undef ''UIP_CONF_MAX_ROUTES'', Define ''UIP_CONF_MAX_ROUTES'' (Num 0),
        Undef ''RPL_CONF_MOP'', Define ''RPL_CONF_MOP'' (Name ''RPL_MOP_NON_STORING'')] [],
     If (Defined ''UIP_FALLBACK_INTERFACE'') [] [Define ''UIP_FALLBACK_INTERFACE'' (Name ''rpl_interface'')],
     If (Defined ''QUEUEBUF_CONF_NUM'') [] [Define ''QUEUEBUF_CONF_NUM'' (Num 4)],
     If (Defined ''UIP_CONF_BUFFER_SIZE'') [] [Define ''UIP_CONF_BUFFER_SIZE'' (Num 1280)],
     If (Defined ''UIP_CONF_RECEIVE_WINDOW'') [] [Define ''UIP_CONF_RECEIVE_WINDOW'' (Num 60)],
     If (Defined ''WEBSERVER_CONF_CFS_CONNS'') [] [Define ''WEBSERVER_CONF_CFS_CONNS'' (Num 2)],
     Undef ''SLIP_ARCH_CONF_ENABLE'', Define ''SLIP_ARCH_CONF_ENABLE'' (Num 1)] @
    testbed_settings @
    [Undef ''TSCH_CONF_AUTOSTART'', Define ''TSCH_CONF_AUTOSTART'' (Num 0)] @
    mrhof_settings @ multicast_settings @ log_settings @
    [Define ''RF2XX_TX_POWER'' (Name ''PHY_POWER_m3dBm''),
     Define ''RF2XX_RX_RSSI_THRESHOLD'' (Name ''RF2XX_PHY_RX_THRESHOLD__m84dBm'')])"

definition attestation_settings :: "directive list" where
  "attestation_settings =
    [Define ''NUM_CONF_NODES'' (Num 20), Define ''CONF_FRAME_LENGTH'' (Num 31),
     Define ''CONF_STOP_PARENT_SWITCH'' (Num 15), Define ''ATT_WITH_ORCHESTRA'' (Num 0)]"

definition network_settings :: "directive list" where
  "network_settings =
    [If (Equals ''ATT_WITH_ORCHESTRA'' 1)
       (orchestra_settings @ [Define ''ORCHESTRA_CONF_UNICAST_PERIOD'' (Num 17),
          Define ''ORCHESTRA_CONF_COMMON_SHARED_PERIOD'' (Num 31)])
       [Define ''TSCH_SCHEDULE_CONF_WITH_6TISCH_MINIMAL'' (Num 1)],
     Undef ''RPL_CONF_WITH_DAO_ACK'', Define ''RPL_CONF_WITH_DAO_ACK'' (Num 0),
     Undef ''RPL_CONF_OF'', Define ''RPL_CONF_OF'' (Name ''rpl_of0'')] @
    multicast_settings @
    [Define ''LOG_CONF_LEVEL'' (Name ''LOG_LEVEL_NONE''), Define ''LOG_DBG_PY'' (Name ''printf'')]"

definition conf_h :: "directive list" where
  "conf_h = take 3 log_settings @ testbed_settings @ attestation_settings @ network_settings"

text \<open>The constants of \<open>utility-functions.h\<close>, which a configuration may set.\<close>

definition utility_constants :: "directive list" where
  "utility_constants =
    [If (Defined ''CONF_MAX_PATH_NODES'') [Define ''MAX_PATH_NODES'' (Name ''CONF_MAX_PATH_NODES'')]
       [Define ''MAX_PATH_NODES'' (Num 10)],
     If (Defined ''NUM_CONF_NODES'') [Define ''NUM_NODES'' (Name ''NUM_CONF_NODES'')]
       [Define ''NUM_NODES'' (Num 20)],
     If (Defined ''CONF_MAX_CHILD'') [Define ''MAX_CHILD'' (Name ''CONF_MAX_CHILD'')]
       [Define ''MAX_CHILD'' (Num 10)],
     If (Defined ''CONF_ATTESTATION_DELAY'') [Define ''ATTESTATION_DELAY'' (Name ''CONF_ATTESTATION_DELAY'')]
       [Define ''ATTESTATION_DELAY'' (Num 7)],
     If (Defined ''CONF_STOP_PARENT_SWITCH'')
       [Define ''STOP_PARENT_SWITCH'' (Times (Name ''CONF_STOP_PARENT_SWITCH'') (Num 60))]
       [Define ''STOP_PARENT_SWITCH'' (Times (Num 60) (Num 10))],
     If (Defined ''CONF_FRAME_LENGTH'') [Define ''FRAME_LENGTH'' (Name ''CONF_FRAME_LENGTH'')]
       [Define ''FRAME_LENGTH'' (Num 100)]]"

subsection \<open>Macros that are left alone\<close>

text \<open>The names that some directive defines or forgets.\<close>

fun touched :: "directive list \<Rightarrow> string list" and touches :: "directive \<Rightarrow> string list" where
  "touched [] = []"
| "touched (d # ds) = touches d @ touched ds"
| "touches (Define x b) = [x]"
| "touches (Undef x) = [x]"
| "touches (Include f) = []"
| "touches (If c ds es) = touched ds @ touched es"

definition leaves_alone :: "(string \<Rightarrow> macros \<Rightarrow> macros) \<Rightarrow> string \<Rightarrow> bool" where
  "leaves_alone inc x \<longleftrightarrow> (\<forall>f ms. map_of (inc f ms) x = map_of ms x)"

lemma map_of_delete [simp]: "map_of (AList.delete x ms) y = (if x = y then None else map_of ms y)"
  by (simp add: delete_conv')

lemma map_of_update [simp]: "map_of (AList.update x b ms) y = (if x = y then Some b else map_of ms y)"
  by (simp add: update_conv')

lemma preprocess_other:
  "leaves_alone inc x \<Longrightarrow> x \<notin> set (touched ds) \<Longrightarrow> map_of (preprocess inc ds ms) x = map_of ms x"
  "leaves_alone inc x \<Longrightarrow> x \<notin> set (touches d) \<Longrightarrow> map_of (apply_directive inc d ms) x = map_of ms x"
  by (induction inc ds ms and inc d ms rule: preprocess_apply_directive.induct) (auto simp: leaves_alone_def)

lemma preprocess_append: "preprocess inc (ds @ es) ms = preprocess inc es (preprocess inc ds ms)"
  by (induction ds arbitrary: ms) simp_all

text \<open>The names a configuration may set for \<open>utility-functions.h\<close>.\<close>

definition conf_names :: "string list" where
  "conf_names = [''CONF_MAX_PATH_NODES'', ''NUM_CONF_NODES'', ''CONF_MAX_CHILD'', ''CONF_ATTESTATION_DELAY'',
     ''CONF_STOP_PARENT_SWITCH'', ''CONF_FRAME_LENGTH'']"

lemma confs_touch:
  assumes "conf \<in> {client_conf, relay_conf, router_conf}"
  shows "\<forall>x\<in>set conf_names. x \<notin> set (touched conf)"
proof -
  have "\<forall>x\<in>set conf_names. x \<notin> set (touched client_conf)" by code_simp
  moreover have "\<forall>x\<in>set conf_names. x \<notin> set (touched relay_conf)" by code_simp
  moreover have "\<forall>x\<in>set conf_names. x \<notin> set (touched router_conf)" by code_simp
  ultimately show ?thesis using assms by blast
qed

text \<open>The constants when no configuration sets them, and with those of \<open>conf.h\<close>.\<close>

lemma default_constants:
  assumes "\<forall>x\<in>set conf_names. map_of ms x = None" and "ms' = preprocess inc utility_constants ms"
  shows "macro_value ms' ''MAX_PATH_NODES'' = Some 10" "macro_value ms' ''NUM_NODES'' = Some 20"
    "macro_value ms' ''MAX_CHILD'' = Some 10" "macro_value ms' ''ATTESTATION_DELAY'' = Some 7"
    "macro_value ms' ''STOP_PARENT_SWITCH'' = Some 600" "macro_value ms' ''FRAME_LENGTH'' = Some 100"
  using assms(1) by (simp_all add: assms(2) utility_constants_def conf_names_def macro_value_def)

lemma network_settings_touch: "\<forall>x\<in>set conf_names. x \<notin> set (touched network_settings)"
  by code_simp

lemma conf_h_sets:
  assumes "\<forall>x\<in>set conf_names. leaves_alone inc x" and "\<forall>x\<in>set conf_names. map_of ms x = None"
    and "x \<in> set conf_names"
  shows "map_of (preprocess inc conf_h ms) x =
    map_of [(''NUM_CONF_NODES'', Num 20), (''CONF_FRAME_LENGTH'', Num 31), (''CONF_STOP_PARENT_SWITCH'', Num 15)] x"
proof -
  have same: "map_of (preprocess inc ds ms) x = map_of ms x" if "x \<notin> set (touched ds)" for ds ms
    using assms(1,3) that by (intro preprocess_other(1)) blast+
  have "x \<notin> set (touched (take 3 log_settings))" "x \<notin> set (touched testbed_settings)"
    "x \<notin> set (touched network_settings)" "x \<noteq> ''ATT_WITH_ORCHESTRA''"
    using assms(3) network_settings_touch
    by (auto simp: conf_names_def log_settings_def testbed_settings_def)
  then show ?thesis
    using same assms(2,3) unfolding conf_h_def preprocess_append by (simp add: attestation_settings_def)
qed

lemma conf_h_constants:
  assumes "\<forall>x\<in>set conf_names. leaves_alone inc x" and "\<forall>x\<in>set conf_names. map_of ms x = None"
    and "ms' = preprocess inc (conf_h @ utility_constants) ms"
  shows "macro_value ms' ''STOP_PARENT_SWITCH'' = Some 900" "macro_value ms' ''FRAME_LENGTH'' = Some 31"
proof -
  define base where "base = preprocess inc conf_h ms"
  have "map_of base ''CONF_MAX_PATH_NODES'' = None" "map_of base ''NUM_CONF_NODES'' = Some (Num 20)"
    "map_of base ''CONF_MAX_CHILD'' = None" "map_of base ''CONF_ATTESTATION_DELAY'' = None"
    "map_of base ''CONF_STOP_PARENT_SWITCH'' = Some (Num 15)" "map_of base ''CONF_FRAME_LENGTH'' = Some (Num 31)"
    unfolding base_def using conf_h_sets [OF assms(1,2)] by (simp_all add: conf_names_def)
  then show "macro_value ms' ''STOP_PARENT_SWITCH'' = Some 900" "macro_value ms' ''FRAME_LENGTH'' = Some 31"
    unfolding assms(3) preprocess_append base_def [symmetric]
    by (simp_all add: utility_constants_def macro_value_def)
qed

subsection \<open>Property\<close>



end
