(* ===== verification/Httpd.thy ===== *)
theory Httpd
  imports Web_Page
begin

text \<open>
  \<open>httpd-simple.c\<close>: the web server of the border router. Its protothreads are
  resumable functions, modelled by the point where each waits. The protosockets
  are Contiki's: which reads complete in a call, and how many of the sending
  threads finish in it, are arguments.
\<close>

subsection \<open>State\<close>

definition HTTPD_PATHLEN :: nat where "HTTPD_PATHLEN = 2"
definition CONNS :: nat where "CONNS = 2"

datatype httpd_script = Generate_routes

text \<open>Where \<open>handle_input\<close> waits: for the method, the path, or the rest of the lines.\<close>

datatype in_point = Read_method | Read_path | Read_lines

text \<open>Where \<open>handle_output\<close> waits, or \<open>Out_begin\<close> when it starts afresh.\<close>

datatype out_point = Out_begin | Out_headers_404 | Out_body_404 | Out_headers_200 | Out_script

datatype httpd_phase = STATE_WAITING | STATE_OUTPUT

record httpd_state =
  timer_start :: nat
  sin :: in_point
  outputpt :: out_point
  inputbuf :: string
  filename :: string
  script :: "httpd_script option"
  hs_state :: httpd_phase

datatype tcp_act =
    Tcp_send string
  | Run_script
  | Uip_close
  | Uip_abort
  | Psock_close
  | Mark_conn nat

text \<open>The block of connections: a slot keeps its contents when it is freed.\<close>

record httpd_conns =
  slots :: "httpd_state list"
  in_use :: "bool list"

text \<open>\<open>strncpy(dst, src, n)\<close>: at most \<open>n\<close> characters, filled up with zeros.\<close>

definition strncpy :: "string \<Rightarrow> nat \<Rightarrow> string" where
  "strncpy t n = take n (takeWhile (\<lambda>c. c \<noteq> CHR 0x00) t @ replicate n (CHR 0x00))"

subsection \<open>Input\<close>

text \<open>
  Each element of the list is what one \<open>PSOCK_READTO\<close> has put at the start of
  the buffer; when the list is used up the thread waits for more.
  \<open>PSOCK_CLOSE_EXIT\<close> leaves the thread at its beginning.
\<close>

fun handle_input :: "string list \<Rightarrow> httpd_state \<Rightarrow> httpd_state \<times> tcp_act list" where
  "handle_input [] s = (s, [])"
| "handle_input (tok # toks) s =
     (let s = s\<lparr>inputbuf := splice 0 tok (inputbuf s)\<rparr> in
      case sin s of
        Read_method \<Rightarrow>
          if \<not> strncmp_eq (inputbuf s) ''GET '' 4 then (s, [Psock_close])
          else handle_input toks (s\<lparr>sin := Read_path\<rparr>)
      | Read_path \<Rightarrow>
          if inputbuf s ! 0 \<noteq> CHR ''/'' then (s\<lparr>sin := Read_method\<rparr>, [Psock_close])
          else
            let s = (if inputbuf s ! 1 = CHR '' ''
                     then s\<lparr>filename := strncpy ''/index.html'' HTTPD_PATHLEN\<rparr>
                     else let b = (inputbuf s)[length tok - 1 := CHR 0x00]
                          in s\<lparr>inputbuf := b, filename := strncpy b HTTPD_PATHLEN\<rparr>)
            in handle_input toks (s\<lparr>hs_state := STATE_OUTPUT, sin := Read_lines\<rparr>)
      | Read_lines \<Rightarrow> handle_input toks s)"

subsection \<open>Output\<close>

definition httpd_simple_get_script :: "string \<Rightarrow> httpd_script option" where
  "httpd_simple_get_script name = Some Generate_routes"

definition crlf :: string where "crlf = [CHR 0x0D, CHR 0x0A]"

definition http_header_200 :: string where
  "http_header_200 = ''HTTP/1.0 200 OK'' @ crlf @
     ''Server: Contiki/2.4 http://www.sics.se/contiki/'' @ crlf @ ''Connection: close'' @ crlf"

definition http_header_404 :: string where
  "http_header_404 = ''HTTP/1.0 404 Not found'' @ crlf @
     ''Server: Contiki/2.4 http://www.sics.se/contiki/'' @ crlf @ ''Connection: close'' @ crlf"

definition http_content_type_html :: string where
  "http_content_type_html = ''Content-type: text/html'' @ crlf @ crlf"

definition NOT_FOUND :: string where
  "NOT_FOUND = ''<html><body bgcolor='' @ [CHR 0x22] @ ''white'' @ [CHR 0x22] @ ''><center>'' @
     ''<h1>404 - file not found</h1></center></body></html>''"

text \<open>
  A sending thread is called at its point; \<open>n\<close> is the number of threads that run
  to their end in this call. Calling a null script is an error.
\<close>

definition out_script :: "nat \<Rightarrow> httpd_state \<Rightarrow> (httpd_state \<times> tcp_act list) res" where
  "out_script n s =
     (case script s of
        None \<Rightarrow> Inl Null_pointer
      | Some _ \<Rightarrow>
          if n = 0 then Inr (s\<lparr>outputpt := Out_script\<rparr>, [Run_script])
          else Inr (s\<lparr>script := None, outputpt := Out_begin\<rparr>, [Run_script, Psock_close]))"

definition out_headers_200 :: "nat \<Rightarrow> httpd_state \<Rightarrow> (httpd_state \<times> tcp_act list) res" where
  "out_headers_200 n s =
     (let send = [Tcp_send (http_header_200 @ http_content_type_html)] in
      if n = 0 then Inr (s\<lparr>outputpt := Out_headers_200\<rparr>, send)
      else rbind (out_script (n - 1) s) (\<lambda>(s, acts). Inr (s, send @ acts)))"

definition out_body_404 :: "nat \<Rightarrow> httpd_state \<Rightarrow> httpd_state \<times> tcp_act list" where
  "out_body_404 n s =
     (if n = 0 then (s\<lparr>outputpt := Out_body_404\<rparr>, [Tcp_send NOT_FOUND])
      else (s\<lparr>outputpt := Out_begin\<rparr>, [Tcp_send NOT_FOUND, Uip_close]))"

definition out_headers_404 :: "nat \<Rightarrow> httpd_state \<Rightarrow> httpd_state \<times> tcp_act list" where
  "out_headers_404 n s =
     (let send = [Tcp_send (http_header_404 @ http_content_type_html)] in
      if n = 0 then (s\<lparr>outputpt := Out_headers_404\<rparr>, send)
      else let (s, acts) = out_body_404 (n - 1) s in (s, send @ acts))"

definition handle_output :: "nat \<Rightarrow> httpd_state \<Rightarrow> (httpd_state \<times> tcp_act list) res" where
  "handle_output n s =
     (case outputpt s of
        Out_begin \<Rightarrow>
          let s = s\<lparr>script := httpd_simple_get_script (drop 1 (filename s))\<rparr> in
          if script s = None
          then Inr (out_headers_404 n (s\<lparr>filename := strncpy ''/notfound.html'' HTTPD_PATHLEN\<rparr>))
          else out_headers_200 n s
      | Out_headers_404 \<Rightarrow> Inr (out_headers_404 n s)
      | Out_body_404 \<Rightarrow> Inr (out_body_404 n s)
      | Out_headers_200 \<Rightarrow> out_headers_200 n s
      | Out_script \<Rightarrow> out_script n s)"

definition handle_connection ::
  "string list \<Rightarrow> nat \<Rightarrow> httpd_state \<Rightarrow> (httpd_state \<times> tcp_act list) res" where
  "handle_connection toks n s =
     (let (s, acts) = handle_input toks s in
      if hs_state s = STATE_OUTPUT
      then rbind (handle_output n s) (\<lambda>(s, out). Inr (s, acts @ out))
      else Inr (s, acts))"

subsection \<open>The application call\<close>

datatype uip_event =
    Conn_lost       \<comment> \<open>\<open>uip_closed() || uip_aborted() || uip_timedout()\<close>\<close>
  | Conn_opened     \<comment> \<open>\<open>uip_connected()\<close>\<close>
  | Conn_poll       \<comment> \<open>\<open>uip_poll()\<close>\<close>
  | Conn_data       \<comment> \<open>any other call\<close>

text \<open>
  What Contiki supplies in a call: the time, \<open>timer_expired\<close> as a function of the
  time the timer was started, the free slot of \<open>memb_alloc\<close>, the reads that
  complete and the number of sending threads that finish.
\<close>

record httpd_env =
  now :: nat
  expired :: "nat \<Rightarrow> bool"
  pick :: "bool list \<Rightarrow> nat option"
  reads :: "string list"
  finished :: nat

definition put_slot :: "nat \<Rightarrow> httpd_state \<Rightarrow> httpd_conns \<Rightarrow> httpd_conns" where
  "put_slot i s c = c\<lparr>slots := (slots c)[i := s]\<rparr>"

definition free_slot :: "nat \<Rightarrow> httpd_conns \<Rightarrow> httpd_conns" where
  "free_slot i c = c\<lparr>in_use := (in_use c)[i := False]\<rparr>"

definition clear_script :: "nat \<Rightarrow> httpd_conns \<Rightarrow> httpd_conns" where
  "clear_script i c = put_slot i ((slots c ! i)\<lparr>script := None\<rparr>) c"

definition connection_at ::
  "httpd_env \<Rightarrow> nat \<Rightarrow> httpd_conns \<Rightarrow> tcp_act list \<Rightarrow> (httpd_conns \<times> tcp_act list) res" where
  "connection_at e i c acts =
     rbind (handle_connection (reads e) (finished e) (slots c ! i))
       (\<lambda>(s, out). Inr (put_slot i s c, acts @ out))"

definition opened :: "nat \<Rightarrow> httpd_state \<Rightarrow> httpd_state" where
  "opened t s = s\<lparr>sin := Read_method, outputpt := Out_begin, script := None,
     hs_state := STATE_WAITING, timer_start := t\<rparr>"

definition httpd_appcall ::
  "httpd_env \<Rightarrow> uip_event \<Rightarrow> nat option \<Rightarrow> httpd_conns \<Rightarrow> (httpd_conns \<times> tcp_act list) res" where
  "httpd_appcall e ev state c =
     (case ev of
        Conn_lost \<Rightarrow>
          (case state of None \<Rightarrow> Inr (c, []) | Some i \<Rightarrow> Inr (free_slot i (clear_script i c), []))
      | Conn_opened \<Rightarrow>
          (case pick e (in_use c) of
             None \<Rightarrow> Inr (c, [Uip_abort])
           | Some i \<Rightarrow>
               connection_at e i
                 (put_slot i (opened (now e) (slots c ! i)) (c\<lparr>in_use := (in_use c)[i := True]\<rparr>))
                 [Mark_conn i])
      | _ \<Rightarrow>
          (case state of
             None \<Rightarrow> Inr (c, [Uip_abort])
           | Some i \<Rightarrow>
               if ev = Conn_poll then
                 if expired e (timer_start (slots c ! i))
                 then connection_at e i (free_slot i (clear_script i c)) [Uip_abort]
                 else connection_at e i c []
               else connection_at e i (put_slot i ((slots c ! i)\<lparr>timer_start := now e\<rparr>) c) []))"

definition httpd_init :: "httpd_conns \<Rightarrow> httpd_conns" where
  "httpd_init c = c\<lparr>in_use := replicate CONNS False\<rparr>"

subsection \<open>Reachable states\<close>

definition zero_conn :: httpd_state where
  "zero_conn = \<lparr>timer_start = 0, sin = Read_method, outputpt = Out_begin,
     inputbuf = replicate (HTTPD_PATHLEN + 24) (CHR 0x00), filename = replicate HTTPD_PATHLEN (CHR 0x00),
     script = None, hs_state = STATE_WAITING\<rparr>"

definition zero_conns :: httpd_conns where
  "zero_conns = \<lparr>slots = replicate CONNS zero_conn, in_use = replicate CONNS False\<rparr>"

text \<open>\<open>memb_alloc\<close> returns a free block of the pool, and a call carries a live connection.\<close>

definition pick_ok :: "httpd_env \<Rightarrow> httpd_conns \<Rightarrow> bool" where
  "pick_ok e c = (case pick e (in_use c) of None \<Rightarrow> True | Some i \<Rightarrow> i < CONNS \<and> \<not> in_use c ! i)"

definition live :: "nat option \<Rightarrow> httpd_conns \<Rightarrow> bool" where
  "live state c = (case state of None \<Rightarrow> True | Some i \<Rightarrow> i < CONNS \<and> in_use c ! i)"

text \<open>
  The server as a machine: an event of Contiki comes with the state pointer of
  its connection and with what Contiki supplies.
\<close>

type_synonym httpd_call = "httpd_env \<times> uip_event \<times> nat option"

definition httpd_machine :: "httpd_call \<Rightarrow> httpd_conns \<Rightarrow> httpd_conns res" where
  "httpd_machine call c =
     (case call of (e, ev, state) \<Rightarrow> rbind (httpd_appcall e ev state c) (\<lambda>(c, acts). Inr c))"

definition httpd_possible :: "httpd_call \<Rightarrow> httpd_conns \<Rightarrow> bool" where
  "httpd_possible call c \<longleftrightarrow> pick_ok (fst call) c \<and> live (snd (snd call)) c"

definition httpd_starts :: "httpd_conns \<Rightarrow> bool" where
  "httpd_starts c \<longleftrightarrow> c = httpd_init zero_conns"

abbreviation httpd_reachable :: "httpd_conns \<Rightarrow> bool" where
  "httpd_reachable \<equiv> reachable httpd_starts httpd_possible httpd_machine"

text \<open>
  A thread that is past its start has its script, and the answer for a page that
  is not found is never given, because every name has a script.
\<close>

definition conn_ok :: "httpd_state \<Rightarrow> bool" where
  "conn_ok s \<longleftrightarrow> outputpt s \<in> {Out_begin, Out_headers_200, Out_script} \<and>
     (outputpt s = Out_begin \<or> script s \<noteq> None)"

definition conns_ok :: "httpd_conns \<Rightarrow> bool" where
  "conns_ok c \<longleftrightarrow> length (slots c) = CONNS \<and> length (in_use c) = CONNS \<and>
     (\<forall>i<CONNS. in_use c ! i \<longrightarrow> conn_ok (slots c ! i))"

text \<open>The calls of \<open>handle_output\<close> that come to the script without setting it first.\<close>

definition resumes_script :: "nat \<Rightarrow> httpd_state \<Rightarrow> bool" where
  "resumes_script n s \<longleftrightarrow> outputpt s = Out_script \<or> outputpt s = Out_headers_200 \<and> 0 < n"

lemma nth_upd: "j < length xs \<Longrightarrow> xs[i := x] ! j = (if i = j then x else xs ! j)"
  by simp

lemma handle_input_keeps [simp]:
  "outputpt (fst (handle_input toks s)) = outputpt s"
  "script (fst (handle_input toks s)) = script s"
  by (induction toks s rule: handle_input.induct) (auto simp: Let_def split: in_point.split)

lemma handle_output_ok:
  assumes "conn_ok s"
  shows "\<exists>s' acts. handle_output n s = Inr (s', acts) \<and> conn_ok s'"
  using assms by (cases n) (auto simp: conn_ok_def handle_output_def out_headers_200_def out_script_def
      httpd_simple_get_script_def Let_def)

lemma handle_connection_ok:
  assumes "conn_ok s"
  shows "\<exists>s' acts. handle_connection toks n s = Inr (s', acts) \<and> conn_ok s'"
proof -
  have "conn_ok (fst (handle_input toks s))" using assms by (simp add: conn_ok_def)
  from handle_output_ok [OF this, of n] this show ?thesis
    by (cases "handle_input toks s") (auto simp: handle_connection_def)
qed

lemma handle_output_no_script:
  assumes "outputpt s \<in> {Out_begin, Out_headers_200, Out_script}" and "script s = None"
  shows "(\<exists>f. handle_output n s = Inl f) \<longleftrightarrow> resumes_script n s"
  using assms by (cases n) (auto simp: handle_output_def out_headers_200_def out_script_def
      resumes_script_def httpd_simple_get_script_def Let_def split: if_splits)

lemma put_slot_ok:
  assumes "conns_ok c" and "conn_ok s"
  shows "conns_ok (put_slot i s c)"
  using assms by (auto simp: conns_ok_def put_slot_def nth_upd)

lemma connection_at_ok:
  assumes "conns_ok c" and "conn_ok (slots c ! i)"
  shows "\<exists>c' out. connection_at e i c acts = Inr (c', out) \<and> conns_ok c'"
  using handle_connection_ok [OF assms(2), of "reads e" "finished e"] put_slot_ok [OF assms(1)]
  by (auto simp: connection_at_def)

lemma free_slot_ok:
  assumes "conns_ok c"
  shows "conns_ok (free_slot i (clear_script i c))" "conns_ok (put_slot i s (free_slot i (clear_script i c)))"
  using assms by (auto simp: conns_ok_def free_slot_def clear_script_def put_slot_def nth_upd)

lemma connection_at_free:
  assumes "conns_ok c" and "connection_at e i (free_slot i (clear_script i c)) acts = Inr (c', out)"
  shows "conns_ok c'"
  using assms(2) free_slot_ok(2) [OF assms(1)]
  by (auto simp: connection_at_def elim!: rbind_InrE)

lemma httpd_appcall_unexpired:
  assumes "conns_ok c" and "pick_ok e c" and "live state c"
    and "\<not> (\<exists>i. state = Some i \<and> ev = Conn_poll \<and> expired e (timer_start (slots c ! i)))"
  shows "\<exists>c' acts. httpd_appcall e ev state c = Inr (c', acts) \<and> conns_ok c'"
proof (cases ev)
  case Conn_lost
  then show ?thesis
    using assms free_slot_ok(1) by (auto simp: httpd_appcall_def split: option.split)
next
  case Conn_opened
  show ?thesis
  proof (cases "pick e (in_use c)")
    case None
    with Conn_opened assms show ?thesis by (simp add: httpd_appcall_def)
  next
    case (Some i)
    let ?c = "put_slot i (opened (now e) (slots c ! i)) (c\<lparr>in_use := (in_use c)[i := True]\<rparr>)"
    have "i < CONNS" using assms(2) Some by (simp add: pick_ok_def)
    then have "conns_ok ?c" and "conn_ok (slots ?c ! i)"
      using assms(1) by (auto simp: conns_ok_def put_slot_def nth_upd opened_def conn_ok_def)
    from connection_at_ok [OF this, of e "[Mark_conn i]"] show ?thesis
      using Conn_opened Some by (simp add: httpd_appcall_def)
  qed
next
  case Conn_poll
  then show ?thesis
    using assms connection_at_ok [OF assms(1), of _ e "[]"]
    by (auto simp: httpd_appcall_def live_def conns_ok_def split: option.split)
next
  case Conn_data
  show ?thesis
  proof (cases state)
    case None
    with Conn_data assms show ?thesis by (simp add: httpd_appcall_def)
  next
    case (Some i)
    let ?c = "put_slot i ((slots c ! i)\<lparr>timer_start := now e\<rparr>) c"
    have i: "i < length (slots c)" and ok: "conn_ok (slots c ! i)"
      using assms(1,3) Some by (simp_all add: live_def conns_ok_def)
    then have "conn_ok ((slots c ! i)\<lparr>timer_start := now e\<rparr>)" by (simp add: conn_ok_def)
    with put_slot_ok [OF assms(1) this, of i] i have "conns_ok ?c" and "conn_ok (slots ?c ! i)"
      by (simp_all add: put_slot_def)
    from connection_at_ok [OF this, of e "[]"] show ?thesis
      using Conn_data Some by (simp add: httpd_appcall_def)
  qed
qed

lemma httpd_appcall_ok:
  assumes "conns_ok c" and "pick_ok e c" and "live state c"
    and "httpd_appcall e ev state c = Inr (c', acts)"
  shows "conns_ok c'"
proof (cases "\<exists>i. state = Some i \<and> ev = Conn_poll \<and> expired e (timer_start (slots c ! i))")
  case True
  with assms(4) show ?thesis
    by (auto simp: httpd_appcall_def intro: connection_at_free [OF assms(1)])
next
  case False
  from httpd_appcall_unexpired [OF assms(1-3) False] assms(4) show ?thesis by auto
qed

interpretation httpd_states: machine_invariant httpd_starts httpd_possible httpd_machine conns_ok
proof unfold_locales
  show "httpd_starts c \<Longrightarrow> conns_ok c" for c
    by (simp add: httpd_starts_def conns_ok_def httpd_init_def zero_conns_def)
  show "conns_ok c \<Longrightarrow> httpd_possible call c \<Longrightarrow> httpd_machine call c = Inr c' \<Longrightarrow> conns_ok c'" for call c c'
    by (cases call) (auto simp: httpd_possible_def httpd_machine_def intro: httpd_appcall_ok)
qed

lemma free_slot_same [simp]:
  "i < length (slots c) \<Longrightarrow> slots (free_slot i (clear_script i c)) ! i = (slots c ! i)\<lparr>script := None\<rparr>"
  by (simp add: free_slot_def clear_script_def put_slot_def)

lemma handle_input_script_fields:
  "handle_input toks \<lparr>timer_start = t, sin = i, outputpt = pt, inputbuf = b, filename = f, script = v, hs_state = h\<rparr> =
    (let (s', acts) = handle_input toks \<lparr>timer_start = t, sin = i, outputpt = pt, inputbuf = b, filename = f,
       script = w, hs_state = h\<rparr>
     in (s'\<lparr>script := v\<rparr>, acts))"
proof (induction toks arbitrary: i b f h)
  case (Cons tok toks)
  show ?case by (cases i) (simp_all add: Cons.IH Let_def split_beta)
qed simp

lemma handle_input_script:
  "handle_input toks (s\<lparr>script := v\<rparr>) = (let (s', acts) = handle_input toks s in (s'\<lparr>script := v\<rparr>, acts))"
  using handle_input_script_fields [where w = "script s" and v = v and t = "timer_start s" and i = "sin s"
      and pt = "outputpt s" and b = "inputbuf s" and f = "filename s" and h = "hs_state s" and toks = toks]
  by (cases s) simp

text \<open>An expired poll: the slot is freed, its script is cleared, and the connection is handled all the same.\<close>

lemma expired_poll_fails:
  assumes "conns_ok c" and "i < CONNS" and "in_use c ! i"
  shows "(\<exists>f. connection_at e i (free_slot i (clear_script i c)) acts = Inl f) \<longleftrightarrow>
    hs_state (fst (handle_input (reads e) (slots c ! i))) = STATE_OUTPUT \<and>
    resumes_script (finished e) (slots c ! i)"
proof -
  have i: "i < length (slots c)" and ok: "conn_ok (slots c ! i)"
    using assms by (simp_all add: conns_ok_def)
  obtain s' out where inp: "handle_input (reads e) (slots c ! i) = (s', out)"
    by (cases "handle_input (reads e) (slots c ! i)")
  have pt: "outputpt s' = outputpt (slots c ! i)"
    using handle_input_keeps(1) [of "reads e" "slots c ! i"] inp by simp
  with ok have "(\<exists>f. handle_output n (s'\<lparr>script := None\<rparr>) = Inl f) \<longleftrightarrow> resumes_script n (slots c ! i)" for n
    using handle_output_no_script [of "s'\<lparr>script := None\<rparr>" n] by (simp add: conn_ok_def resumes_script_def)
  then show ?thesis
    using i by (auto simp: connection_at_def handle_connection_def handle_input_script inp rbind_Inl_iff)
qed

subsection \<open>Properties\<close>



definition sample_call :: "string list \<Rightarrow> nat \<Rightarrow> httpd_env" where
  "sample_call toks n = \<lparr>now = 0, expired = (\<lambda>t. True), pick = (\<lambda>u. if u ! 0 then None else Some 0),
     reads = toks, finished = n\<rparr>"


end
