(* ===== verification/Verifier_Files.thy ===== *)
theory Verifier_Files
  imports Verifier_Facts
begin

text \<open>
  The verifier on any two files. Its parser uses what \<open>strtok\<close> returns without
  a check, copies an address of any length and indexes its table of nodes and its
  line of ids without a bound; the section says for which files it runs without
  a fault, whatever packets arrive and whether or not they can be answered: the
  table must have at most five lines of two columns, and every line of the runs
  file a number where one is read and at most 150 ids of the table. The proof
  has the shape of type soundness: well-formed files are the types, the
  invariant \<open>v_sound\<close> is preserved by every turn and excludes a fault.
\<close>

subsection \<open>Lines and tokens\<close>

function file_lines :: "string \<Rightarrow> string list" where
  "file_lines f = (case fgets LINE_SIZE f of None \<Rightarrow> [] | Some (l, r) \<Rightarrow> l # file_lines r)"
  by auto
termination
  by (relation "measure length") (auto dest: fgets_rest_length)

function tokens :: "string \<Rightarrow> string \<Rightarrow> string list" where
  "tokens l delim = (case strtok l delim of None \<Rightarrow> [] | Some (t, r) \<Rightarrow> t # tokens r delim)"
  by auto
termination
  by (relation "measure (length \<circ> fst)") (auto dest: strtok_rest_length)

declare file_lines.simps [simp del] tokens.simps [simp del]

definition token_byte :: "string \<Rightarrow> u8" where
  "token_byte t = word_of_int (atoi t)"

lemma file_lines_step:
  "fgets LINE_SIZE f = Some (l, r) \<Longrightarrow> file_lines f = l # file_lines r"
  by (subst file_lines.simps) simp

lemma file_lines_end: "fgets LINE_SIZE f = None \<Longrightarrow> file_lines f = []"
  by (subst file_lines.simps) simp

lemma file_lines_Nil [simp]: "file_lines [] = []"
  by (simp add: file_lines_end fgets_eof)

lemma tokens_step: "strtok l d = Some (t, r) \<Longrightarrow> tokens l d = t # tokens r d"
  by (subst tokens.simps) simp

lemma tokens_end: "strtok l d = None \<Longrightarrow> tokens l d = []"
  by (subst tokens.simps) simp

lemma second_token_tokens:
  "second_token l d = (case tokens l d of t # t' # ts \<Rightarrow> Some t' | _ \<Rightarrow> None)"
  by (auto simp: second_token_def tokens_step tokens_end split: option.splits)

subsection \<open>The table of nodes\<close>

definition table_line_ok :: "string \<Rightarrow> bool" where
  "table_line_ok l \<longleftrightarrow>
     (case tokens l TAB of t # a # ts \<Rightarrow> length a < INET6_ADDRSTRLEN | _ \<Rightarrow> False)"

definition line_entry :: "string \<Rightarrow> node_id_addr_mapp" where
  "line_entry l = \<lparr>nm_id = token_byte (tokens l TAB ! 0), nm_addr = tokens l TAB ! 1\<rparr>"

definition table_ok :: "string \<Rightarrow> bool" where
  "table_ok f \<longleftrightarrow> length (file_lines f) \<le> MAX_NODES \<and> (\<forall>l\<in>set (file_lines f). table_line_ok l)"

definition table_ids :: "string \<Rightarrow> u8 list" where
  "table_ids f = map (nm_id \<circ> line_entry) (file_lines f)"

lemma map_line_ok:
  assumes "table_line_ok l" and "num_nodes s < length (node_map s)"
  shows "map_line l s = Inr (s\<lparr>node_map := (node_map s)[num_nodes s := line_entry l],
    num_nodes := num_nodes s + 1\<rparr>)"
  using assms
  by (cases "strtok l TAB"; cases "strtok (snd (the (strtok l TAB))) TAB")
    (auto simp: map_line_def table_line_ok_def line_entry_def token_byte_def tokens_step tokens_end
      split: option.splits)

lemma map_line_bad:
  assumes "\<not> table_line_ok l \<or> length (node_map s) \<le> num_nodes s"
  shows "\<exists>f. map_line l s = Inl f"
  using assms
  by (cases "num_nodes s < length (node_map s)")
    (auto simp: map_line_def table_line_ok_def tokens_step tokens_end split: option.splits)

lemma load_map_iff:
  assumes "num_nodes s \<le> length (node_map s)"
  shows "if num_nodes s + length (file_lines f) \<le> length (node_map s)
        \<and> (\<forall>l\<in>set (file_lines f). table_line_ok l)
      then load_map f s = Inr (s\<lparr>node_map := splice (num_nodes s) (map line_entry (file_lines f)) (node_map s),
             num_nodes := num_nodes s + length (file_lines f)\<rparr>)
      else \<exists>e. load_map f s = Inl e"
  using assms
proof (induction f arbitrary: s rule: file_lines.induct)
  case (1 f)
  show ?case
  proof (cases "fgets LINE_SIZE f")
    case None
    with "1.prems" show ?thesis by (subst (1 2) load_map.simps) (simp add: file_lines_end)
  next
    case (Some lr)
    then obtain l r where lr: "fgets LINE_SIZE f = Some (l, r)" by (cases lr) auto
    show ?thesis
    proof (cases "table_line_ok l \<and> num_nodes s < length (node_map s)")
      case True
      let ?s = "s\<lparr>node_map := (node_map s)[num_nodes s := line_entry l], num_nodes := num_nodes s + 1\<rparr>"
      have "load_map f s = load_map r ?s"
        using True by (subst load_map.simps) (simp add: lr map_line_ok)
      moreover have "num_nodes ?s \<le> length (node_map ?s)" using True by simp
      moreover note "1.IH" [OF lr refl this]
      ultimately show ?thesis
        using True by (auto simp: file_lines_step [OF lr] splice_update [of "num_nodes s", simplified]
          split: if_splits)
    next
      case False
      then obtain e where "map_line l s = Inl e" using map_line_bad [of l s] by auto
      then have "load_map f s = Inl e" by (subst load_map.simps) (simp add: lr)
      with False show ?thesis by (auto simp: file_lines_step [OF lr])
    qed
  qed
qed

subsection \<open>Results without a fault\<close>

fun safe :: "('a \<Rightarrow> bool) \<Rightarrow> 'a v_res \<Rightarrow> bool" where
  "safe P (Inr x) \<longleftrightarrow> P x"
| "safe P (Inl (Exited n out)) \<longleftrightarrow> True"
| "safe P (Inl (Crash f)) \<longleftrightarrow> False"

lemma safe_rbind [intro]:
  "safe P m \<Longrightarrow> (\<And>x. P x \<Longrightarrow> safe Q (f x)) \<Longrightarrow> safe Q (rbind m f)"
  by (cases "(P, m)" rule: safe.cases) auto

lemma safe_mono: "safe P m \<Longrightarrow> (\<And>x. P x \<Longrightarrow> Q x) \<Longrightarrow> safe Q m"
  by (cases "(P, m)" rule: safe.cases) auto

lemma safe_no_crash: "safe P m \<Longrightarrow> m \<noteq> Inl (Crash f)"
  by auto

subsection \<open>The lines of the runs file\<close>

definition reads_number :: "string \<Rightarrow> bool" where
  "reads_number l \<longleftrightarrow> strstr l ''Run_no'' \<or> strstr l ''faulty_nodes''"

definition node_line_ok :: "u8 list \<Rightarrow> string \<Rightarrow> bool" where
  "node_line_ok ids l \<longleftrightarrow> length (tokens l '', '') \<le> NODE_ADDRS
     \<and> (\<forall>t\<in>set (tokens l '', ''). token_byte t = 0 \<or> token_byte t \<in> set ids)"

definition run_line_ok :: "u8 list \<Rightarrow> string \<Rightarrow> bool" where
  "run_line_ok ids l \<longleftrightarrow>
     (if reads_number l then 2 \<le> length (tokens l '': '')
      else strstr l ''****'' \<or> node_line_ok ids l)"

definition runs_ok :: "u8 list \<Rightarrow> string \<Rightarrow> bool" where
  "runs_ok ids f \<longleftrightarrow> (\<forall>l\<in>set (file_lines f). run_line_ok ids l)"

lemma runs_ok_step:
  assumes "runs_ok ids f" and "fgets LINE_SIZE f = Some (l, r)"
  shows "run_line_ok ids l" and "runs_ok ids r"
  using assms by (simp_all add: runs_ok_def file_lines_step)

lemma runs_ok_Nil [simp]: "runs_ok ids []"
  by (simp add: runs_ok_def)

lemma fill_nodes_tokens:
  assumes "i \<le> length addrs"
  shows "fill_nodes l i addrs =
    (if i + length (tokens l '', '') \<le> length addrs
     then Inr (i + length (tokens l '', ''), splice i (map token_byte (tokens l '', '')) addrs)
     else Inl Out_of_bounds)"
  using assms
proof (induction l "'', ''" arbitrary: i addrs rule: tokens.induct)
  case (1 l)
  show ?case
  proof (cases "strtok l '', ''")
    case None
    with "1.prems" show ?thesis by (subst fill_nodes.simps) (simp add: tokens_end)
  next
    case (Some tr)
    then obtain t r where tr: "strtok l '', '' = Some (t, r)" by (cases tr) auto
    show ?thesis
    proof (cases "i < length addrs")
      case True
      with "1.hyps" [OF tr refl, of "i + 1" "addrs[i := token_byte t]"] show ?thesis
        by (subst fill_nodes.simps)
          (simp add: tr tokens_step token_byte_def splice_update [of i, simplified])
    next
      case False
      then show ?thesis by (subst fill_nodes.simps) (simp add: tr tokens_step)
    qed
  qed
qed

subsection \<open>The invariant\<close>

definition v_sound :: "u8 list \<Rightarrow> verifier \<Rightarrow> bool" where
  "v_sound ids s \<longleftrightarrow> nm_id ` set (take (num_nodes s) (node_map s)) = set ids \<and> runs_ok ids (fp s)"

definition req_sound :: "u8 list \<Rightarrow> v_req_pkt \<Rightarrow> bool" where
  "req_sound ids r \<longleftrightarrow> length (node_addr r) = NODE_ADDRS \<and> set (node_addr r) \<subseteq> insert 0 (set ids)"

text \<open>
  No more polls than packets and one: so the polls of a run stay within its line.
  A line without a node is never left, but polls nobody.
\<close>

definition v_paced :: "verifier \<Rightarrow> bool" where
  "v_paced s \<longleftrightarrow>
     (if sec_client_count s = 0 then node_index s = 0 \<and> node_addr (local_rpkt s) ! 0 = 0
      else 0 \<le> recv_count s \<and> recv_count s < sec_client_count s
         \<and> sec_client_count s \<le> int NODE_ADDRS \<and> int (node_index s) \<le> recv_count s + 1)"

lemma v_sound_update [simp]:
  "v_sound ids (s\<lparr>v_out := x1\<rparr>) = v_sound ids s" "v_sound ids (s\<lparr>sent_id := x2\<rparr>) = v_sound ids s"
  "v_sound ids (s\<lparr>node_index := x3\<rparr>) = v_sound ids s" "v_sound ids (s\<lparr>recv_count := x4\<rparr>) = v_sound ids s"
  "v_sound ids (s\<lparr>run_no := x5\<rparr>) = v_sound ids s" "v_sound ids (s\<lparr>start_sent := x6\<rparr>) = v_sound ids s"
  "v_sound ids (s\<lparr>local_rpkt := x7\<rparr>) = v_sound ids s" "v_sound ids (s\<lparr>spkt1 := x8\<rparr>) = v_sound ids s"
  "v_sound ids (s\<lparr>sec_client_count := x9\<rparr>) = v_sound ids s"
  by (simp_all add: v_sound_def)

lemma addr_loop_Some: "\<exists>b. addr_loop ms nid (Some a) = Some b"
  by (induction ms arbitrary: a) auto

lemma addr_loop_known: "nid \<in> nm_id ` set ms \<Longrightarrow> \<exists>a. addr_loop ms nid x = Some a"
  by (induction ms arbitrary: x) (auto simp: addr_loop_Some)

lemma known_address: "v_sound ids s \<Longrightarrow> nid \<in> set ids \<Longrightarrow> \<exists>a. v_get_addr_from_id s nid = Some a"
  by (simp add: v_sound_def v_get_addr_from_id_def addr_loop_known)

lemma safe_udp_send: "safe (\<lambda>s'. \<exists>out. s' = s\<lparr>v_out := out\<rparr>) (second_udp_send ok p a s)"
  by (auto simp: second_udp_send_def v_emit_def)

lemma safe_send_single:
  assumes "v_sound ids s" and "req_sound ids (local_rpkt s)" and "node_index s < NODE_ADDRS"
  shows "safe (\<lambda>s'. \<exists>sid out. s' = s\<lparr>sent_id := sid, v_out := out, node_index :=
      (if node_addr (local_rpkt s) ! node_index s = 0 then node_index s else node_index s + 1)\<rparr>)
    (send_req_single_node ok s)"
proof -
  let ?nid = "node_addr (local_rpkt s) ! node_index s"
  have len: "node_index s < length (node_addr (local_rpkt s))"
    using assms by (simp add: req_sound_def)
  then have "?nid \<in> set (node_addr (local_rpkt s))" by simp
  then have "?nid = 0 \<or> ?nid \<in> set ids" using assms(2) by (auto simp: req_sound_def)
  then consider (zero) "?nid = 0" | (known) a where "?nid \<noteq> 0" "v_get_addr_from_id s ?nid = Some a"
    using known_address [OF assms(1)] by blast
  then show ?thesis
  proof cases
    case zero
    then show ?thesis
      using len by (auto simp: send_req_single_node_def intro!: exI [of _ "0::int"] exI [of _ "v_out s"])
  next
    case known
    then show ?thesis
      using len by (auto simp: send_req_single_node_def second_udp_send_def v_emit_def Let_def)
  qed
qed

definition v_good :: "u8 list \<Rightarrow> verifier \<Rightarrow> bool" where
  "v_good ids s \<longleftrightarrow> v_sound ids s \<and> req_sound ids (local_rpkt s) \<and> v_paced s"

lemma safe_send_request:
  assumes "v_sound ids s" and "req_sound ids r"
  shows "safe (\<lambda>s'. v_sound ids s' \<and> local_rpkt s' = r \<and> sec_client_count s' = sec_client_count s
      \<and> recv_count s' = recv_count s \<and> node_index s' = (if node_addr r ! 0 = 0 then 0 else 1))
    (send_unicast_second_round_req ok r s)"
proof -
  have "safe (\<lambda>s'. \<exists>out st. s' = s\<lparr>v_out := out, start_sent := st\<rparr>)
     (if start_sent s then Inr s
      else let spkt = \<lparr>v_pkt_type = SECOND_TIME_START, v_run_count = word_of_int (run_no s)\<rparr>
        in rbind (second_udp_send ok spkt (serv_addr s) s) (\<lambda>s. Inr (s\<lparr>start_sent := True\<rparr>)))"
  proof (cases "start_sent s")
    case True
    then show ?thesis by (auto intro!: exI [of _ "v_out s"] exI [of _ True])
  next
    case False
    then show ?thesis by (auto simp: second_udp_send_def v_emit_def Let_def)
  qed
  then show ?thesis
    unfolding send_unicast_second_round_req_def
  proof (rule safe_rbind)
    fix s1
    assume "\<exists>out st. s1 = s\<lparr>v_out := out, start_sent := st\<rparr>"
    then obtain out st where s1: "s1 = s\<lparr>v_out := out, start_sent := st\<rparr>" by blast
    show "safe (\<lambda>s'. v_sound ids s' \<and> local_rpkt s' = r \<and> sec_client_count s' = sec_client_count s
      \<and> recv_count s' = recv_count s \<and> node_index s' = (if node_addr r ! 0 = 0 then 0 else 1))
      (send_req_single_node ok (s1\<lparr>local_rpkt := r, node_index := 0\<rparr>))"
      by (rule safe_mono [OF safe_send_single [where ids = ids]])
        (auto simp: s1 assms NODE_ADDRS_def)
  qed
qed

lemma safe_node_line:
  assumes "v_sound ids s" and "node_line_ok ids l" and "recv_count s = 0"
  shows "safe (v_good ids) (node_line_req ok (zero_rpkt\<lparr>v_req_type := SECOND_ROUND\<rparr>) l s)"
proof -
  let ?ns = "map token_byte (tokens l '', '')"
  let ?n = "length (tokens l '', '')"
  let ?addrs = "splice 0 ?ns (replicate NODE_ADDRS 0)"
  let ?r = "zero_rpkt\<lparr>v_req_type := SECOND_ROUND, node_addr := ?addrs, v_size := of_nat ?n\<rparr>"
  have n: "?n \<le> NODE_ADDRS" using assms(2) by (simp add: node_line_ok_def)
  then have fill: "fill_nodes l 0 (replicate NODE_ADDRS 0) = Inr (?n, ?addrs)"
    by (simp add: fill_nodes_tokens)
  have "length ?addrs = NODE_ADDRS" using n by (intro trans [OF length_splice]) simp_all
  moreover have "set ?addrs \<subseteq> insert 0 (set ids)"
    using assms(2) by (auto simp: splice_def node_line_ok_def)
  ultimately have r: "req_sound ids ?r" by (simp add: req_sound_def)
  have "safe (v_good ids) (send_unicast_second_round_req ok ?r (s\<lparr>sec_client_count := int ?n\<rparr>))"
  proof (rule safe_mono [OF safe_send_request [OF _ r]])
    show "v_sound ids (s\<lparr>sec_client_count := int ?n\<rparr>)" using assms(1) by simp
  next
    fix s'
    assume a: "v_sound ids s' \<and> local_rpkt s' = ?r
      \<and> sec_client_count s' = sec_client_count (s\<lparr>sec_client_count := int ?n\<rparr>)
      \<and> recv_count s' = recv_count (s\<lparr>sec_client_count := int ?n\<rparr>)
      \<and> node_index s' = (if node_addr ?r ! 0 = 0 then 0 else 1)"
    have "node_addr ?r ! 0 = 0" if "?n = 0"
      using that by (simp add: NODE_ADDRS_def)
    with a have "v_paced s'" using assms(3) n by (auto simp: v_paced_def)
    with a r show "v_good ids s'" by (simp add: v_good_def)
  qed
  then show ?thesis
    by (simp add: node_line_req_def zero_rpkt_def fill)
qed

lemma safe_read_line_loop:
  assumes "v_sound ids s" and "runs_ok ids f" and "recv_count s = 0"
  shows "safe (\<lambda>(found, s'). if found then v_good ids s' else v_sound ids s')
    (read_line_loop ok (zero_rpkt\<lparr>v_req_type := SECOND_ROUND\<rparr>) f s)"
  using assms
proof (induction f arbitrary: s rule: file_lines.induct)
  case (1 f)
  show ?case
  proof (cases "fgets LINE_SIZE f")
    case None
    with "1.prems" show ?thesis by (subst read_line_loop.simps) (simp add: v_sound_def)
  next
    case (Some lr)
    then obtain l r where lr: "fgets LINE_SIZE f = Some (l, r)" by (cases lr) auto
    note l = runs_ok_step [OF "1.prems"(2) lr]
    note IH = "1.IH" [OF lr refl _ l(2)]
    have second: "\<exists>t. second_token l '': '' = Some t" if "reads_number l"
      using l(1) that by (auto simp: run_line_ok_def second_token_tokens split: list.splits)
    consider (run_no) "strstr l ''Run_no''" | (faulty) "\<not> strstr l ''Run_no''" "strstr l ''faulty_nodes''"
      | (stars) "\<not> reads_number l" "strstr l ''****''" | (nodes) "\<not> reads_number l" "\<not> strstr l ''****''"
      by (auto simp: reads_number_def)
    then show ?thesis
    proof cases
      case run_no
      with second obtain t where "second_token l '': '' = Some t" by (auto simp: reads_number_def)
      with run_no IH [of "s\<lparr>run_no := atoi t\<rparr>"] "1.prems" show ?thesis
        by (subst read_line_loop.simps) (simp add: lr)
    next
      case faulty
      with second obtain t where "second_token l '': '' = Some t" by (auto simp: reads_number_def)
      with faulty IH [of s] "1.prems" show ?thesis
        by (subst read_line_loop.simps) (simp add: lr)
    next
      case stars
      with IH [of s] "1.prems" show ?thesis
        by (subst read_line_loop.simps) (simp add: lr reads_number_def)
    next
      case nodes
      have "v_sound ids (s\<lparr>fp := r\<rparr>)" using "1.prems"(1) l(2) by (simp add: v_sound_def)
      moreover have "node_line_ok ids l" using l(1) nodes by (simp add: run_line_ok_def)
      ultimately have "safe (v_good ids)
          (node_line_req ok (zero_rpkt\<lparr>v_req_type := SECOND_ROUND\<rparr>) l (s\<lparr>fp := r\<rparr>))"
        using "1.prems"(3) by (intro safe_node_line) simp_all
      with nodes show ?thesis
        by (subst read_line_loop.simps) (auto simp: lr reads_number_def)
    qed
  qed
qed

lemma safe_read_line:
  assumes "v_sound ids s" and "recv_count s = 0"
  shows "safe (\<lambda>(found, s'). if found then v_good ids s' else v_sound ids s') (read_line_send_req ok s)"
proof -
  have "runs_ok ids (fp s)" using assms(1) by (simp add: v_sound_def)
  from safe_read_line_loop [OF assms(1) this assms(2)] show ?thesis
    by (simp add: read_line_send_req_def)
qed

subsection \<open>Turns of the loop\<close>

lemma safe_stop:
  assumes "v_sound ids s"
  shows "safe (\<lambda>s'. v_sound ids s' \<and> recv_count s' = recv_count s) (second_udp_send ok p a s)"
  by (rule safe_mono [OF safe_udp_send]) (auto simp: assms)

lemma safe_done: "safe P (rbind (second_udp_send ok p a s) (\<lambda>s. Inl (Exited n (v_out s))))"
  by (rule safe_rbind [OF safe_udp_send]) simp

lemma safe_poll:
  assumes "v_good ids s" and "sec_client_count s \<noteq> recv_count s + 1"
  shows "safe (v_good ids) (send_req_single_node ok (s\<lparr>recv_count := recv_count s + 1, v_out := out\<rparr>))"
proof -
  let ?s = "s\<lparr>recv_count := recv_count s + 1, v_out := out\<rparr>"
  have s: "v_sound ids ?s" "req_sound ids (local_rpkt ?s)" and p: "v_paced s"
    using assms(1) by (simp_all add: v_good_def)
  have "node_index ?s < NODE_ADDRS"
    using p assms(2) by (auto simp: v_paced_def NODE_ADDRS_def split: if_splits)
  from safe_send_single [OF s this] show ?thesis
    by (rule safe_mono) (use s p assms(2) in \<open>auto simp: v_good_def v_paced_def split: if_splits\<close>)
qed

lemma safe_turn:
  assumes "v_good ids s"
  shows "safe (v_good ids) (v_turn ok ev s)"
proof (cases ev)
  case Recv_error
  then show ?thesis by (simp add: v_turn.simps)
next
  case (Response a r)
  let ?out = "v_out s @ [Reply a (sr_max_index r) (sr_checksum r)]"
  let ?s = "s\<lparr>recv_count := recv_count s + 1, v_out := ?out\<rparr>"
  have sound: "v_sound ids ?s" using assms by (simp add: v_good_def)
  show ?thesis
  proof (cases "sec_client_count s = recv_count s + 1")
    case True
    let ?p = "\<lparr>v_pkt_type = SECOND_TIME_STOP, v_run_count = word_of_int (run_no s)\<rparr>"
    have "safe (v_good ids)
        (rbind (second_udp_send ok ?p (serv_addr s) (?s\<lparr>spkt1 := ?p\<rparr>)) (\<lambda>s.
           rbind (read_line_send_req ok (s\<lparr>recv_count := 0\<rparr>)) (\<lambda>(found, s).
             if found then Inr s
             else
               let s = v_emit Done s;
                   s = s\<lparr>spkt1 := (spkt1 s)\<lparr>v_pkt_type := SECOND_TIME_DONE\<rparr>\<rparr>
               in rbind (second_udp_send ok (spkt1 s) (serv_addr s) s) (\<lambda>s. Inl (Exited 0 (v_out s))))))"
      using sound
      by (intro safe_rbind [OF safe_stop [where ids = ids]] safe_rbind [OF safe_read_line [where ids = ids]])
        (auto simp: Let_def split: prod.splits if_splits intro: safe_done)
    with True Response show ?thesis
      by (simp add: v_turn.simps v_emit_def Let_def)
  next
    case False
    have "v_good ids ?s" if "\<not> sent_id s = v_get_id_from_addr ?s a"
      using assms False by (auto simp: v_good_def v_paced_def split: if_splits)
    with False Response safe_poll [OF assms False] show ?thesis
      by (simp add: v_turn.simps v_emit_def Let_def)
  qed
qed

lemma safe_turns: "v_good ids s \<Longrightarrow> safe (v_good ids) (v_turns ok evs s)"
proof (induction evs arbitrary: s)
  case (Cons ev evs)
  then show ?case using safe_turn [of ids s ok ev] by auto
qed simp

subsection \<open>The program\<close>

lemma load_map_initial_iff:
  "if table_ok f
   then load_map f initial_verifier = Inr (initial_verifier\<lparr>num_nodes := length (file_lines f),
          node_map := splice 0 (map line_entry (file_lines f)) (node_map initial_verifier)\<rparr>)
   else \<exists>e. load_map f initial_verifier = Inl e"
  using load_map_iff [of initial_verifier f]
  by (auto simp: table_ok_def initial_verifier_def split: if_splits)

lemma v_sound_loaded:
  assumes "table_ok f" and "runs_ok (table_ids f) runs"
  shows "v_sound (table_ids f) (initial_verifier\<lparr>num_nodes := length (file_lines f),
    node_map := splice 0 (map line_entry (file_lines f)) (node_map initial_verifier), fp := runs\<rparr>)"
  using assms by (simp add: v_sound_def splice_def table_ids_def image_comp)

lemma safe_program:
  assumes "table_ok f" and "runs_ok (table_ids f) runs"
  shows "safe (v_good (table_ids f)) (v_program socket_ok bind_ok ok (Some f) (Some runs))"
proof -
  let ?s = "initial_verifier\<lparr>num_nodes := length (file_lines f),
    node_map := splice 0 (map line_entry (file_lines f)) (node_map initial_verifier), fp := runs\<rparr>"
  have "safe (v_good (table_ids f)) (rbind (read_line_send_req ok ?s)
      (\<lambda>(found, s). if found then Inr s else Inl (Exited 0 (v_out s @ [Done]))))"
    using v_sound_loaded [OF assms]
    by (intro safe_rbind [OF safe_read_line [where ids = "table_ids f"]])
      (auto simp: initial_verifier_def split: prod.splits if_splits)
  moreover have "load_map f initial_verifier = Inr (initial_verifier\<lparr>num_nodes := length (file_lines f),
      node_map := splice 0 (map line_entry (file_lines f)) (node_map initial_verifier)\<rparr>)"
    using load_map_initial_iff [of f] assms(1) by simp
  ultimately show ?thesis
    by (simp add: v_program_def v_main_def)
qed

text \<open>
  C19: Whether the verifier can fault is decided by its two files. A table of more
  than five lines, or with a line that lacks the second column or has an address
  of 46 characters or more, makes it read through a null pointer or write past an
  array before anything is sent. With any other table and a runs file whose lines
  are well-formed it runs without a fault, whatever packets arrive from whom in
  which order, how often, and whichever datagrams cannot be sent.
\<close>

theorem verifier_faults_only_on_files:
  "(\<not> table_ok table \<longrightarrow> (\<exists>f. v_program True True ok (Some table) run_file = Inl (Crash f)))
   \<and> (table_ok table \<and> runs_ok (table_ids table) runs \<longrightarrow>
       rbind (v_program socket_ok bind_ok ok (Some table) (Some runs)) (v_turns ok evs) \<noteq> Inl (Crash f))"
proof (intro conjI impI)
  assume "\<not> table_ok table"
  then obtain e where "load_map table initial_verifier = Inl e"
    using load_map_initial_iff [of table] by auto
  then show "\<exists>f. v_program True True ok (Some table) run_file = Inl (Crash f)"
    by (simp add: v_program_def v_main_def)
next
  assume "table_ok table \<and> runs_ok (table_ids table) runs"
  then have "safe (v_good (table_ids table)) (v_program socket_ok bind_ok ok (Some table) (Some runs))"
    by (intro safe_program) simp_all
  then have "safe (v_good (table_ids table))
      (rbind (v_program socket_ok bind_ok ok (Some table) (Some runs)) (v_turns ok evs))"
    by (rule safe_rbind) (rule safe_turns)
  then show "rbind (v_program socket_ok bind_ok ok (Some table) (Some runs)) (v_turns ok evs) \<noteq> Inl (Crash f)"
    by (rule safe_no_crash)
qed

definition blank_line_table :: string where
  "blank_line_table = ''128'' @ TAB @ ''fd00::9980'' @ NL @ NL"

definition two_line_table :: string where
  "two_line_table = ''128'' @ TAB @ ''fd00::9980'' @ NL @ ''109'' @ TAB @ ''fd00::1062'' @ NL"

definition short_runs :: string where
  "short_runs = ''Run_no: 1'' @ NL @ ''128, 0, 109'' @ NL @ ''****'' @ NL @ '', ,''"

lemma sample_files [simp]:
  "\<not> table_ok blank_line_table" "table_ok two_line_table" "runs_ok (table_ids two_line_table) short_runs"
  by code_simp+

lemma verifier_faults_only_on_files_witness:
  "(\<exists>f. v_program True True always (Some blank_line_table) None = Inl (Crash f))
   \<and> (\<forall>f. rbind (v_program True True always (Some two_line_table) (Some short_runs))
         (v_turns always [Response ''fd00::9980'' \<lparr>sr_max_index = 0, sr_checksum = 1\<rparr>,
            Response ''fe80::1'' \<lparr>sr_max_index = 0, sr_checksum = 0\<rparr>, Recv_error]) \<noteq> Inl (Crash f))"
  using verifier_faults_only_on_files [of blank_line_table always None]
    verifier_faults_only_on_files [of two_line_table always None short_runs True True]
  by simp

end
