(* ===== verification/Verifier_Tools.thy ===== *)
theory Verifier_Tools
  imports Border_Router Web_Page
begin

text \<open>
  The two small programs beside the verifier: \<open>server.c\<close>, which sends one request
  to the border router, and \<open>pingall_get_addr.c\<close>, which pings the nodes of the
  testbed. What the socket calls return is an argument.
\<close>

subsection \<open>server.c\<close>

datatype server_out =
    Server_exit int
  | Server_sent string "u8 list"  \<comment> \<open>address and datagram\<close>

text \<open>The argument is \<open>argv[1]\<close>; the \<open>int\<close> is cut to the byte of the packet.\<close>

definition server_request :: "string option \<Rightarrow> int" where
  "server_request arg = (case arg of None \<Rightarrow> 30 | Some a \<Rightarrow> atoi a)"

definition server_main :: "bool \<Rightarrow> bool \<Rightarrow> string option \<Rightarrow> server_out list" where
  "server_main socket_ok send_ok arg =
     (if \<not> socket_ok then [Server_exit 1]
      else if \<not> send_ok then [Server_exit 4]
      else [Server_sent ''fd00::a469'' [word_of_int (server_request arg), 1], Server_exit 0])"

subsection \<open>pingall\_get\_addr.c\<close>

definition ping_addr :: "nat \<Rightarrow> string" where
  "ping_addr i =
     (if i \<le> 15 then ''fd00::20'' else ''fd00::2'') @
     hex i @ '':'' @ hex i @ '':'' @ hex i @ '':'' @ hex i"

definition ping_main :: "(string \<times> string) list" where
  "ping_main = map (\<lambda>i. (''Pinging '' @ ping_addr i, ''ping6 '' @ ping_addr i @ '' -c 1'')) [1..<150]"

text \<open>
  The command, and so the address in it, fits its buffer of a hundred characters.
\<close>

lemma hex_small: "n < 16 \<Longrightarrow> hex n = [hex_digit n]"
  by (subst hex.simps) simp

lemma length_hex_id:
  assumes "n < 150" shows "length (hex n) \<le> 2"
proof (cases "n < 16")
  case False
  then have "hex n = hex (n div 16) @ [hex_digit (n mod 16)]" by (subst hex.simps) simp
  moreover have "n div 16 < 16" using assms by simp
  ultimately show ?thesis by (simp add: hex_small)
qed (simp add: hex_small)

lemma ping_fits:
  assumes "i < 150"
  shows "length (''ping6 '' @ ping_addr i @ '' -c 1'') < 100"
  using length_hex_id [OF assms] by (simp add: ping_addr_def)

subsection \<open>Properties\<close>

fun is_mcast :: "br_output \<Rightarrow> bool" where
  "is_mcast (Mcast_out d) = True"
| "is_mcast _ = False"

text \<open>
  The request program starts a round exactly when its argument, modulo 256,
  is \<open>TOPOLOGY\<close> or \<open>ATTESTATION\<close>: the border router then multicasts one request
  packet of that type, which a node reads back as it was meant. Without an
  argument it is a topology round. A second-round request, which the program
  also names, is not passed on.
\<close>

lemma server_request_starts_round:
  "\<exists>d. server_main True True arg = [Server_sent ''fd00::a469'' d, Server_exit 0] \<and>
    filter is_mcast (br_out (br_tcpip_handler e d s)) = filter is_mcast (br_out s) @
      (if server_request arg mod 256 = 30 \<or> server_request arg mod 256 = 40
       then [Mcast_out (request_bytes \<lparr>req_pkt_type = word_of_int (server_request arg), seed = 1234\<rparr>)]
       else [])"
proof -
  have "(word_of_int n = (word_of_int m :: u8)) = (n mod 256 = m mod 256)" for n m
    by (simp add: word_of_int_eq_iff take_bit_eq_mod)
  from this [of "server_request arg" 30] this [of "server_request arg" 40] show ?thesis
    by (auto simp: type_defs server_main_def br_tcpip_handler_def br_req_of_bytes_def multicast_send_def Let_def)
qed

end
