(* ===== verification/Spec2Isabelle.thy ===== *)
theory Spec2Isabelle
  imports Network_Loss Network_Rounds Network_Split Network_Whole Network_Echo Relay_Types Attestation Slip_Bridge Session_Timing Udp_Server
    Web_Page Log_Statements Configuration Httpd Verifier_Files Verifier_Tools
begin

text \<open>
  SWARNA: remote attestation of a network of IoT nodes on Contiki. This library
  models its C programs and proves what makes them work, and where they do not.

  \<^bold>\<open>The program.\<close> A verifier on a host asks for the topology or the attestation
  of a network. The border router passes the request on by multicast. Leaves
  (\<open>client-node\<close>, and relays without children) answer it; every relay
  (\<open>relay-node\<close>) collects the responses of its children, combines their checksums
  with its own by exclusive-or, collects their ids, and sends one response to its
  parents, so that one packet for every subtree reaches the border router, which
  prints it. In a second round the verifier asks single nodes for the checksums
  they remember, and the border router measures how long each run takes. Beside
  that the border router talks to its host over SLIP and serves a status page.

  \<^bold>\<open>Theories.\<close> One for each part; the definitions follow the order of the source
  file and keep its names (prefixed where two files have the same function:
  \<open>client_\<close>, \<open>br_\<close>, \<open>us_\<close>, \<open>v_\<close>).
  \<^item> \<open>Prelude\<close>: machine integers, faults as values, checked arrays, little-endian
    bytes, exclusive-or of lists, machines with runs and reachable states, and the
    locales \<open>simulation\<close> and \<open>machine_invariant\<close>.
  \<^item> \<open>Packets\<close> (\<open>utility-functions.h\<close>): the structs and their bytes; the locales
    \<open>packed_field\<close> and \<open>disjoint_fields\<close> for the members of the packed union.
  \<^item> \<open>Platform\<close> (\<open>utility-functions.c\<close>): ids, checksums, ranks, sending to parents.
  \<^item> \<open>Child_List\<close> (\<open>relay-node/list_utility.c\<close>): the table of children; the locale
    \<open>child_register\<close> is the contract the relay relies on.
  \<^item> \<open>Relay\<close> (\<open>relay-node/udp-relay.c\<close>), with \<open>Relay_Facts\<close> (closed forms of its
    operations, its invariant), \<open>Relay_Safety\<close> (exactly when a step faults),
    \<open>Relay_Types\<close> (what it sends is of the types its receivers expect),
    \<open>Relay_Round\<close> (a topology round as a refinement of collecting in a set),
    \<open>Relay_Timeout\<close> (a round whose responses do not all arrive, and the timer that
    is left running), \<open>Relay_Conserves\<close> (responses of any number, size and order:
    what has come in is held or has been sent) and \<open>Relay_Attestation\<close> (an attestation round, the timeouts).
  \<^item> \<open>Client\<close> (\<open>client-node/udp-client.c\<close>), compared with a relay without children.
  \<^item> \<open>Attestation\<close> (\<open>attestation_lib.c\<close>): RC4, the walk through memory, the checksum.
  \<^item> \<open>Border_Router\<close> (\<open>border-router-server/border-router.c\<close>), \<open>Udp_Server\<close>
    (\<open>udp-server.c\<close>, an older version of it), \<open>Slip_Bridge\<close> (\<open>slip-bridge.c\<close>),
    \<open>Web_Page\<close> (the page of \<open>border-router.c\<close>) and \<open>Httpd\<close> (\<open>httpd-simple.c\<close>).
  \<^item> \<open>C_Strings\<close> (the string functions of the C library), \<open>Verifier\<close> and
    \<open>Verifier_Facts\<close> (\<open>verifier/sec_server.c\<close>; sessions with well-formed files),
    \<open>Verifier_Files\<close> (for which files it runs without a fault, whatever arrives),
    \<open>Verifier_Tools\<close> (\<open>server.c\<close> and \<open>pingall_get_addr.c\<close>).
  \<^item> \<open>Configuration\<close> (\<open>project-conf.h\<close> of the programs, \<open>conf.h\<close>): the settings as
    directives of the preprocessor, and the constants they lead to.
  \<^item> \<open>Logging\<close> (\<open>log.c\<close>) and \<open>Log_Statements\<close> (\<open>log.h\<close>, \<open>log-conf.h\<close>).
  \<^item> \<open>Network\<close>: trees of nodes that run the above and are asked for their topology;
    \<open>Network_Rounds\<close>: the attestation round and the second round of a whole
    network, which agree with the topology; \<open>Network_Loss\<close>: a topology round in
    which responses are lost; \<open>Network_Split\<close>: a relay with more leaves than its
    path has room for, whose response is split.
  \<^item> \<open>Network_Run\<close>: a network of any size as a machine whose events are requests,
    deliveries, losses and timers; \<open>Network_Flow\<close>: its invariant, in which every node
    accounts for what it has sent and holds; \<open>Network_Events\<close>: every event keeps it
    and brings the network nearer to rest; \<open>Network_Whole\<close>: what the border router has
    printed, in every state and at rest.
  \<^item> \<open>Relay_Air\<close>: a relay's part in an attestation round from any state between two
    rounds; \<open>Network_Air\<close>: attestation rounds of a network whose broadcasts reach parents
    and children, refined to tallies of checksums; \<open>Network_Echo\<close>: what repeated rounds
    report. \<open>Session_Timing\<close>: a session of the verifier timed by the
    border router. This theory adds what the border router prints of a network.

  \<^bold>\<open>State and effects.\<close> The static variables of a program are a record, a function
  of the source is a function on it. What it asks the system to do (send, set a
  timer, print) is appended to a list of effects, so that order is part of the
  state. What it reads from Contiki, the C library's sockets or the hardware is an
  argument (\<open>env\<close>, \<open>contiki_lib\<close>, \<open>br_env\<close>, \<open>slip_env\<close>, \<open>httpd_env\<close>, a function for the
  results of \<open>sendto\<close>), with the documented behaviour that a property needs as a
  named hypothesis (\<open>wf_env\<close>, \<open>contiki_lib_ok\<close>, \<open>pick_ok\<close>). What a network must be like
  for its rounds is \<open>wf_network\<close> and, for attestation, \<open>att_ok\<close> (no back-off of zero, no
  subtree whose checksums cancel), without a bound on its size \<open>air_network\<close>, \<open>speaks\<close> and
  \<open>echo_speaks\<close>; a tree is in the order in which its responses
  arrive, and \<open>lost\<close> names the nodes whose response does not. Integers have their
  width; an access out of an array, a null pointer and a division by zero are
  values of type \<open>fault\<close>. A \<open>build\<close> stands for the switches of the preprocessor.
  The events of a program (datagrams, timers, calls) come in any order, as lists
  or as steps to a reachable state, one at a time, as Contiki delivers them.

  \<^bold>\<open>Bounds.\<close> No definition uses fuel: every loop of the model terminates by its
  structure or a measure, except \<open>next_addr\<close>, which need not return and is a
  \<open>partial_function (option)\<close>; \<open>next_addr_first_draw\<close> says when it does. Networks
  have at most eight nodes in the properties that name the packet of a whole tree
  (in those of \<open>Network_Whole\<close> and \<open>Network_Echo\<close> they have any size), since a relay whose path
  gets \<open>MAX_PATH_NODES - 2\<close> ids of others splits its response (what it does then is
  \<open>full_path_forgets_children\<close> and \<open>large_star_sends_two_packets\<close>). Complete sessions of the verifier assume that \<open>sendto\<close>
  succeeds (\<open>always\<close>); its freedom from faults does not.

  \<^bold>\<open>Not modelled.\<close> Contiki, RPL, the radio and the C library but for its string
  functions; the log output of the nodes (the macros that produce it are);
  where the lines of \<open>print_child_list\<close> and \<open>current_timestamp\<close> stand among them;
  what Contiki does with the settings of \<open>Configuration\<close>; code
  under \<open>#if 0\<close>. The protothread that sends the page is run to its end in \<open>Web_Page\<close>
  and is one step in \<open>Httpd\<close>.

  \<^bold>\<open>Still open.\<close> The packets, one by one, of networks beyond eight nodes in general
  (a relay of leaves is \<open>large_star_sends_two_packets\<close>; what all packets amount to
  is \<open>whole_network_reported\<close>); attestation rounds that overlap: those of
  \<open>Network_Air\<close> are one after the other, and in each a relay's timer expires
  after its children have been heard.
\<close>

subsection \<open>A network and its border router\<close>



end
